(* ===== verification/Prelude.thy ===== *)
theory Prelude
  imports Complex_Main "HOL-Library.Word" "HOL-Library.Monad_Syntax" "HOL-Library.Sublist"
begin

text \<open>
  Shared vocabulary of the development: the machine integers of an LP64 platform, C strings and
  local buffers, the writes a program makes on its file descriptors, and the stream of results a
  file descriptor delivers to \<open>read\<close>.

  Undefined behaviour is the value \<^term>\<open>None\<close>: every operation that can read or write outside
  of an object, read an uninitialised cell or convert a value out of range returns an option.
\<close>

named_theorems mem_simps \<open>evaluation of reads and writes of C objects\<close>

section \<open>Machine integers and characters\<close>

type_synonym u8 = "8 word"
type_synonym u32 = "32 word"
type_synonym u64 = "64 word"

abbreviation NUL :: char where "NUL \<equiv> CHR 0x00"
abbreviation LF :: char where "LF \<equiv> CHR 0x0A"
abbreviation TAB :: char where "TAB \<equiv> CHR 0x09"
abbreviation ESC :: char where "ESC \<equiv> CHR 0x1B"

text \<open>The value of a \<open>char\<close> object as the code's arithmetic sees it, before sign extension.\<close>

definition cval :: "char \<Rightarrow> u8" where
  "cval c = of_nat (of_char c)"

text \<open>\<open>(int)(unsigned int)(unsigned char) x\<close>\<close>

definition uchar :: "char \<Rightarrow> int" where
  "uchar c = int (of_char c)"

lemma uchar_eq_iff [simp]: "uchar a = uchar b \<longleftrightarrow> a = b"
  by (simp add: uchar_def of_char_eq_iff)

lemma uchar_range: "0 \<le> uchar c" "uchar c < 256"
  by (simp_all add: uchar_def)

text \<open>Values below half of the range are the same signed and unsigned.\<close>

lemma sint_small:
  fixes w :: "'w::len word"
  assumes "2 * unat w < 2 ^ LENGTH('w)"
  shows "sint w = int (unat w)"
proof -
  obtain n where n: "LENGTH('w) = Suc n" by (metis len_gt_0 Suc_pred)
  have "int (2 * unat w) < int (2 ^ LENGTH('w))" using assms by (simp only: of_nat_less_iff)
  then have "uint w < 2 ^ n" by (simp add: n)
  moreover have "- (2 ^ n) \<le> uint w" by (rule order_trans [of _ 0]) simp_all
  ultimately have "signed_take_bit n (uint w) = uint w" by (simp add: signed_take_bit_int_eq_self)
  then show ?thesis by (simp add: sint_uint n)
qed

lemma sint_u64: "unat (w :: u64) < 2 ^ 63 \<Longrightarrow> sint w = int (unat w)"
  by (rule sint_small) simp

lemma scast_u32: "unat (w :: u32) < 2 ^ 31 \<Longrightarrow> unat (scast w :: u64) = unat w"
proof -
  assume w: "unat w < 2 ^ 31"
  then have "sint w = int (unat w)" by (intro sint_small) simp
  then have "(scast w :: u64) = of_nat (unat w)" by (metis of_int_of_nat_eq scast_eq)
  moreover have "unat w < 2 ^ 64" using w by simp
  ultimately show ?thesis by (simp only: unat_of_nat) simp
qed

lemma unat_mult_u32:
  fixes v :: u64 and w :: u32
  assumes "unat v * unat w < 2 ^ 64"
  shows "unat (v * ucast w) = unat v * unat w"
proof -
  have "unat w < 2 ^ 32" using unsigned_less [of w, where 'a = nat] by simp
  then have "unat (ucast w :: u64) = unat w" by (simp add: unsigned_ucast_eq take_bit_nat_eq_self)
  then show ?thesis using assms by (simp add: unat_word_ariths)
qed

section \<open>C strings\<close>

text \<open>
  A pointer to constant characters is the list of the bytes from the pointer to the end of the
  object it points into, the terminating NUL included.
\<close>

type_synonym cstr = "char list"

text \<open>The object of a string literal, an argument or an environment value.\<close>

definition cstring :: "string \<Rightarrow> cstr" where
  "cstring s = s @ [NUL]"

text \<open>A text that a C string can hold.\<close>

definition is_text :: "string \<Rightarrow> bool" where
  "is_text s \<longleftrightarrow> NUL \<notin> set s"

text \<open>The text of a C object, up to its first NUL.\<close>

definition ctext :: "cstr \<Rightarrow> string" where
  "ctext s = takeWhile (\<lambda>c. c \<noteq> NUL) s"

definition terminated :: "cstr \<Rightarrow> bool" where
  "terminated s \<longleftrightarrow> NUL \<in> set s"

text \<open>\<open>s[i]\<close>\<close>

definition rd :: "cstr \<Rightarrow> nat \<Rightarrow> char option" where
  "rd s i = (if i < length s then Some (s ! i) else None)"

lemma rd_Some_iff: "rd s i = Some c \<longleftrightarrow> i < length s \<and> s ! i = c"
  by (auto simp: rd_def)

lemma rd_SomeD: "rd s i = Some c \<Longrightarrow> i < length s"
  by (simp add: rd_Some_iff)

lemma rd_Nil [mem_simps]: "rd [] i = None"
  by (simp add: rd_def)

lemma rd_Cons_0 [mem_simps]: "rd (c # s) 0 = Some c"
  by (simp add: rd_def)

lemma rd_Cons_Suc [mem_simps]: "rd (c # s) (Suc i) = rd s i"
  by (simp add: rd_def)

lemma rd_append: "rd (s @ t) i = (if i < length s then rd s i else rd t (i - length s))"
  by (auto simp: rd_def nth_append)

lemma rd_drop: "n \<le> length s \<Longrightarrow> rd (drop n s) i = rd s (n + i)"
  by (auto simp: rd_def)

lemma drop_rd: "rd s i = Some c \<Longrightarrow> drop i s = c # drop (Suc i) s"
  by (auto simp: rd_Some_iff Cons_nth_drop_Suc)

lemma drop_rd_None: "rd s i = None \<Longrightarrow> drop i s = []"
  by (simp add: rd_def split: if_splits)

lemma terminated_cstring [simp]: "terminated (cstring s)"
  by (simp add: terminated_def cstring_def)

lemma ctext_cstring [simp]: "is_text s \<Longrightarrow> ctext (cstring s) = s"
  by (induction s) (auto simp: ctext_def cstring_def is_text_def)

lemma is_text_ctext [simp]: "is_text (ctext s)"
  by (auto simp: ctext_def is_text_def dest: set_takeWhileD)

lemma length_cstring [simp]: "length (cstring s) = Suc (length s)"
  by (simp add: cstring_def)

lemma ctext_Cons [simp]: "ctext (c # s) = (if c = NUL then [] else c # ctext s)"
  by (simp add: ctext_def)

lemma ctext_Nil [simp]: "ctext [] = []"
  by (simp add: ctext_def)

lemma terminated_Cons [simp]: "terminated (c # s) \<longleftrightarrow> c = NUL \<or> terminated s"
  by (auto simp: terminated_def)

lemma terminated_Nil [simp]: "\<not> terminated []"
  by (simp add: terminated_def)

lemma is_text_Cons [simp]: "is_text (c # s) \<longleftrightarrow> c \<noteq> NUL \<and> is_text s"
  by (auto simp: is_text_def)

lemma is_text_Nil [simp]: "is_text []"
  by (simp add: is_text_def)

lemma is_text_append [simp]: "is_text (s @ t) \<longleftrightarrow> is_text s \<and> is_text t"
  by (auto simp: is_text_def)

lemma is_text_drop: "is_text s \<Longrightarrow> is_text (drop n s)"
  by (auto simp: is_text_def dest: in_set_dropD)

lemma cstring_drop: "n \<le> length s \<Longrightarrow> drop n (cstring s) = cstring (drop n s)"
  by (simp add: cstring_def)

section \<open>Local and allocated buffers\<close>

text \<open>A cell without a value has not been written yet.\<close>

type_synonym buf = "char option list"

definition buf_new :: "nat \<Rightarrow> buf" where
  "buf_new n = replicate n None"

definition buf_set :: "buf \<Rightarrow> nat \<Rightarrow> char \<Rightarrow> buf option" where
  "buf_set b i c = (if i < length b then Some (b[i := Some c]) else None)"

text \<open>The bytes a call such as \<open>write(fd, buf, n)\<close> reads.\<close>

definition buf_read :: "buf \<Rightarrow> nat \<Rightarrow> string option" where
  "buf_read b n = (if n \<le> length b then those (take n b) else None)"

text \<open>The initialised bytes at the start of a buffer: what a pointer to it may be read for.\<close>

definition buf_str :: "buf \<Rightarrow> cstr" where
  "buf_str b = map the (takeWhile (\<lambda>c. c \<noteq> None) b)"

lemma length_buf_new [simp]: "length (buf_new n) = n"
  by (simp add: buf_new_def)

lemma buf_set_length: "buf_set b i c = Some b' \<Longrightarrow> length b' = length b"
  by (auto simp: buf_set_def split: if_splits)

lemma those_map_Some [simp]: "those (map Some xs) = Some xs"
  by (induction xs) auto

lemma buf_read_map_Some [mem_simps]:
  "n = length s \<Longrightarrow> buf_read (map Some s @ b) n = Some s"
  by (simp add: buf_read_def)

lemma buf_read_all [mem_simps]: "n = length s \<Longrightarrow> buf_read (map Some s) n = Some s"
  by (simp add: buf_read_def)

lemma buf_str_map_Some [mem_simps]:
  "buf_str (map Some s @ replicate n None) = s"
proof (induction s)
  case Nil
  show ?case by (cases n) (simp_all add: buf_str_def)
qed (simp add: buf_str_def)

section \<open>Writes\<close>

text \<open>
  A write is its descriptor and its bytes. The program ignores the results of \<open>write\<close>, so the
  model records what it asks the system to write.
\<close>

type_synonym wr = "nat \<times> string"
type_synonym out = "wr list"

abbreviation (input) STDOUT_FILENO :: nat where "STDOUT_FILENO \<equiv> 1"
abbreviation (input) STDERR_FILENO :: nat where "STDERR_FILENO \<equiv> 2"

text \<open>The bytes that reach a descriptor.\<close>

definition written :: "nat \<Rightarrow> out \<Rightarrow> string" where
  "written fd ws = concat (map snd (filter (\<lambda>w. fst w = fd) ws))"

lemma written_Nil [simp]: "written fd [] = []"
  by (simp add: written_def)

lemma written_Cons [simp]:
  "written fd ((fd', s) # ws) = (if fd' = fd then s @ written fd ws else written fd ws)"
  by (simp add: written_def)

lemma written_append [simp]: "written fd (ws @ vs) = written fd ws @ written fd vs"
  by (simp add: written_def)

section \<open>Streams of read results\<close>

text \<open>
  What an open descriptor delivers: each chunk is what the system has ready for one call of
  \<open>read\<close>, an error is a call that returns -1, and after the last chunk every call returns 0.
  A chunk longer than the caller's buffer is delivered in parts.
\<close>

datatype chunk = Bytes string | Err

type_synonym stream = "chunk list"

fun sys_read :: "nat \<Rightarrow> stream \<Rightarrow> int \<times> string \<times> stream" where
  "sys_read n [] = (0, [], [])"
| "sys_read n (Err # cs) = (-1, [], cs)"
| "sys_read n (Bytes s # cs) =
     (if length s \<le> n then (int (length s), s, cs)
      else (int n, take n s, Bytes (drop n s) # cs))"

text \<open>All bytes of a stream, and its well-behaved form: no errors, no empty chunk.\<close>

fun content :: "stream \<Rightarrow> string" where
  "content [] = []"
| "content (Err # cs) = content cs"
| "content (Bytes s # cs) = s @ content cs"

fun clean :: "stream \<Rightarrow> bool" where
  "clean [] = True"
| "clean (Err # cs) = False"
| "clean (Bytes s # cs) = (s \<noteq> [] \<and> clean cs)"

lemma sys_read_clean:
  assumes "clean cs" and "0 < n" and "sys_read n cs = (r, s, cs')"
  shows "clean cs' \<and> content cs = s @ content cs' \<and> r = int (length s)
    \<and> length s \<le> n \<and> (s = [] \<longleftrightarrow> content cs = [])"
  using assms by (cases "(n, cs)" rule: sys_read.cases) (auto split: if_splits)

lemma clean_content_Nil: "clean cs \<Longrightarrow> content cs = [] \<longleftrightarrow> cs = []"
  by (cases cs rule: clean.cases) auto

section \<open>Decimal numerals\<close>

text \<open>The text that the printing routines are meant to produce, and the value of a text.\<close>

fun dec :: "nat \<Rightarrow> string" where
  "dec n = (if n < 10 then [char_of (48 + n)] else dec (n div 10) @ [char_of (48 + n mod 10)])"

declare dec.simps [simp del]

definition is_digit :: "char \<Rightarrow> bool" where
  "is_digit c \<longleftrightarrow> 48 \<le> (of_char c :: nat) \<and> (of_char c :: nat) \<le> 57"

definition dval :: "char \<Rightarrow> nat" where
  "dval c = of_char c - 48"

definition undec :: "string \<Rightarrow> nat" where
  "undec s = foldl (\<lambda>n c. 10 * n + dval c) 0 s"

lemma undec_Nil [simp]: "undec [] = 0"
  by (simp add: undec_def)

lemma undec_snoc [simp]: "undec (s @ [c]) = 10 * undec s + dval c"
  by (simp add: undec_def)

lemma of_char_digit: "(d::nat) < 10 \<Longrightarrow> (of_char (char_of (48 + d)) :: nat) = 48 + d"
  by simp

lemma is_digit_char_of [simp]: "(d::nat) < 10 \<Longrightarrow> is_digit (char_of (48 + d))"
  by (simp add: is_digit_def)

lemma dval_char_of [simp]: "(d::nat) < 10 \<Longrightarrow> dval (char_of (48 + d)) = d"
  by (simp add: dval_def)

lemma dec_digits: "\<forall>c \<in> set (dec n). is_digit c"
  by (induction n rule: dec.induct) (subst dec.simps, auto)

lemma undec_dec [simp]: "undec (dec n) = n"
proof (induction n rule: dec.induct)
  case (1 n)
  show ?case
  proof (cases "n < 10")
    case True
    then show ?thesis by (subst dec.simps) (simp add: undec_def)
  next
    case False
    with "1" show ?thesis by (subst dec.simps) simp
  qed
qed

lemma dec_nonempty [simp]: "dec n \<noteq> []"
  by (subst dec.simps) simp

lemma length_dec_pos [simp]: "0 < length (dec n)"
  by simp

lemma length_dec_le: "0 < k \<Longrightarrow> length (dec n) \<le> k \<longleftrightarrow> n < 10 ^ k"
proof (induction n arbitrary: k rule: dec.induct)
  case (1 n)
  show ?case
  proof (cases "n < 10")
    case True
    have "(10::nat) ^ 1 \<le> 10 ^ k" using "1.prems" by (intro power_increasing) auto
    with True "1.prems" show ?thesis by (subst dec.simps) simp
  next
    case False
    show ?thesis
    proof (cases "k = 1")
      case True
      with False show ?thesis by (subst dec.simps) simp
    next
      case k: False
      with "1.prems" obtain j where j: "k = Suc j" "0 < j" by (cases k) auto
      then have "length (dec n) \<le> k \<longleftrightarrow> n div 10 < 10 ^ j"
        using False "1.IH" [of j] by (subst dec.simps) simp
      also have "\<dots> \<longleftrightarrow> n < 10 ^ k"
        by (simp add: j div_less_iff_less_mult mult.commute)
      finally show ?thesis .
    qed
  qed
qed

lemma dec_inject [simp]: "dec m = dec n \<longleftrightarrow> m = n"
  by (metis undec_dec)

lemma length_dec_u64: "length (dec (unat (u :: u64))) \<le> 20"
proof -
  have "unat u < 2 ^ 64" using unsigned_less [of u, where 'a = nat] by simp
  then show ?thesis by (subst length_dec_le) auto
qed

section \<open>The option monad\<close>

lemma bind_eq_Some [simp]:
  "Option.bind x f = Some y \<longleftrightarrow> (\<exists>a. x = Some a \<and> f a = Some y)"
  by (cases x) auto

lemma bind_eq_None:
  "Option.bind x f = None \<longleftrightarrow> x = None \<or> (\<exists>a. x = Some a \<and> f a = None)"
  by (cases x) auto

end
