(* ===== verification/Djb.thy ===== *)
theory Djb
  imports Prelude
begin

text \<open>
  The \<^verbatim>\<open>djb/\<close> library: string comparison and length, byte copies, decimal printing and scanning.
  The source unrolls its loops four times; the definitions keep the unrolling, and each is
  proved equal to the loop with one step per round before anything else is shown of it.
  Objects are taken to be smaller than 4 GiB, so the \<open>unsigned int\<close> lengths do not wrap.
\<close>

section \<open>str_len\<close>

function str_len_loop :: "cstr \<Rightarrow> nat \<Rightarrow> nat option" where
  "str_len_loop s t = do {
     a \<leftarrow> rd s t; if a = NUL then Some t else do {
     b \<leftarrow> rd s (t + 1); if b = NUL then Some (t + 1) else do {
     c \<leftarrow> rd s (t + 2); if c = NUL then Some (t + 2) else do {
     d \<leftarrow> rd s (t + 3); if d = NUL then Some (t + 3) else
     str_len_loop s (t + 4) }}}}"
  by pat_completeness auto
termination
  by (relation "measure (\<lambda>(s, t). length s - t)") (auto dest: rd_SomeD)

definition str_len :: "cstr \<Rightarrow> nat option" where
  "str_len s = str_len_loop s 0"

section \<open>str_start\<close>

function str_start_loop :: "cstr \<Rightarrow> cstr \<Rightarrow> nat \<Rightarrow> int option" where
  "str_start_loop s t i = do {
     x \<leftarrow> rd t i; if x = NUL then Some 1 else do {
     y \<leftarrow> rd s i; if x \<noteq> y then Some 0 else do {
     x \<leftarrow> rd t (i + 1); if x = NUL then Some 1 else do {
     y \<leftarrow> rd s (i + 1); if x \<noteq> y then Some 0 else do {
     x \<leftarrow> rd t (i + 2); if x = NUL then Some 1 else do {
     y \<leftarrow> rd s (i + 2); if x \<noteq> y then Some 0 else do {
     x \<leftarrow> rd t (i + 3); if x = NUL then Some 1 else do {
     y \<leftarrow> rd s (i + 3); if x \<noteq> y then Some 0 else
     str_start_loop s t (i + 4) }}}}}}}}"
  by pat_completeness auto
termination
  by (relation "measure (\<lambda>(s, t, i). length t - i)") (auto dest: rd_SomeD)

definition str_start :: "cstr \<Rightarrow> cstr \<Rightarrow> int option" where
  "str_start s t = str_start_loop s t 0"

section \<open>str_diffn\<close>

text \<open>The value after the loop, when it was left by \<open>break\<close> with \<open>x = *s\<close>.\<close>

definition str_diffn_break :: "char \<Rightarrow> char \<Rightarrow> int" where
  "str_diffn_break x y = uchar x - uchar y"

function str_diffn_loop :: "cstr \<Rightarrow> cstr \<Rightarrow> nat \<Rightarrow> nat \<Rightarrow> int option" where
  "str_diffn_loop s t i len = (if len = 0 then Some 0 else do {
     x \<leftarrow> rd s i; y \<leftarrow> rd t i;
     if x \<noteq> y \<or> x = NUL then Some (str_diffn_break x y) else
     if len - 1 = 0 then Some 0 else do {
     x \<leftarrow> rd s (i + 1); y \<leftarrow> rd t (i + 1);
     if x \<noteq> y \<or> x = NUL then Some (str_diffn_break x y) else
     if len - 2 = 0 then Some 0 else do {
     x \<leftarrow> rd s (i + 2); y \<leftarrow> rd t (i + 2);
     if x \<noteq> y \<or> x = NUL then Some (str_diffn_break x y) else
     if len - 3 = 0 then Some 0 else do {
     x \<leftarrow> rd s (i + 3); y \<leftarrow> rd t (i + 3);
     if x \<noteq> y \<or> x = NUL then Some (str_diffn_break x y) else
     str_diffn_loop s t (i + 4) (len - 4) }}}})"
  by pat_completeness auto
termination
  by (relation "measure (\<lambda>(s, t, i, len). len)") auto

definition str_diffn :: "cstr \<Rightarrow> cstr \<Rightarrow> nat \<Rightarrow> int option" where
  "str_diffn s t len = str_diffn_loop s t 0 len"

section \<open>byte_copy and byte_zero\<close>

definition copy1 :: "buf \<Rightarrow> cstr \<Rightarrow> nat \<Rightarrow> buf option" where
  "copy1 to from i = do { x \<leftarrow> rd from i; buf_set to i x }"

function byte_copy_loop :: "buf \<Rightarrow> nat \<Rightarrow> cstr \<Rightarrow> nat \<Rightarrow> buf option" where
  "byte_copy_loop to n from i =
     (if n = 0 then Some to else do { to \<leftarrow> copy1 to from i;
      if n - 1 = 0 then Some to else do { to \<leftarrow> copy1 to from (i + 1);
      if n - 2 = 0 then Some to else do { to \<leftarrow> copy1 to from (i + 2);
      if n - 3 = 0 then Some to else do { to \<leftarrow> copy1 to from (i + 3);
      byte_copy_loop to (n - 4) from (i + 4) }}}})"
  by pat_completeness auto
termination
  by (relation "measure (\<lambda>(to, n, from, i). n)") auto

definition byte_copy :: "buf \<Rightarrow> nat \<Rightarrow> cstr \<Rightarrow> buf option" where
  "byte_copy to n from = byte_copy_loop to n from 0"

function byte_zero_loop :: "buf \<Rightarrow> nat \<Rightarrow> nat \<Rightarrow> buf option" where
  "byte_zero_loop s n i =
     (if n = 0 then Some s else do { s \<leftarrow> buf_set s i NUL;
      if n - 1 = 0 then Some s else do { s \<leftarrow> buf_set s (i + 1) NUL;
      if n - 2 = 0 then Some s else do { s \<leftarrow> buf_set s (i + 2) NUL;
      if n - 3 = 0 then Some s else do { s \<leftarrow> buf_set s (i + 3) NUL;
      byte_zero_loop s (n - 4) (i + 4) }}}})"
  by pat_completeness auto
termination
  by (relation "measure (\<lambda>(s, n, i). n)") auto

definition byte_zero :: "buf \<Rightarrow> nat \<Rightarrow> buf option" where
  "byte_zero s n = byte_zero_loop s n 0"

section \<open>fmt_ulong and scan_ulong\<close>

text \<open>\<open>while (q > 9) { ++len; q /= 10; }\<close>\<close>

function fmt_ulong_len :: "u64 \<Rightarrow> nat \<Rightarrow> nat" where
  "fmt_ulong_len q len = (if q > 9 then fmt_ulong_len (q div 10) (len + 1) else len)"
  by pat_completeness auto
termination
proof (relation "measure (\<lambda>(q, len). unat q)")
  fix q :: u64 and len :: nat
  assume "q > 9"
  then have "9 < unat q" by (simp add: word_less_nat_alt)
  then show "((q div 10, len + 1), (q, len)) \<in> measure (\<lambda>(q, len). unat q)"
    by (simp add: unat_div)
qed simp

text \<open>The digit \<open>'0' + (u % 10)\<close>.\<close>

definition digit_char :: "u64 \<Rightarrow> char" where
  "digit_char u = char_of (48 + unat (u mod 10))"

text \<open>
  \<open>do { *--s = '0' + (u % 10); u /= 10; } while (u);\<close> where \<open>p\<close> is the position of
  \<open>s\<close> in the buffer; a pointer before the buffer is out of bounds.
\<close>

function fmt_ulong_fill :: "buf \<Rightarrow> nat \<Rightarrow> u64 \<Rightarrow> buf option" where
  "fmt_ulong_fill b p u = (if p = 0 then None else do {
     b \<leftarrow> buf_set b (p - 1) (digit_char u);
     if u div 10 \<noteq> 0 then fmt_ulong_fill b (p - 1) (u div 10) else Some b })"
  by pat_completeness auto
termination
  by (relation "measure (\<lambda>(b, p, u). p)") auto

text \<open>The buffer is \<^term>\<open>None\<close> for a null pointer: then only the length is computed.\<close>

definition fmt_ulong :: "buf option \<Rightarrow> u64 \<Rightarrow> (buf option \<times> nat) option" where
  "fmt_ulong s u = (let len = fmt_ulong_len u 1 in
     case s of
       None \<Rightarrow> Some (None, len)
     | Some b \<Rightarrow> do { b \<leftarrow> fmt_ulong_fill b len u; Some (Some b, len) })"

text \<open>\<open>c = (unsigned long) (unsigned char) (s[pos] - '0')\<close>\<close>

definition digit_val :: "char \<Rightarrow> u64" where
  "digit_val x = ucast (cval x - 48)"

function scan_ulong_loop :: "cstr \<Rightarrow> nat \<Rightarrow> u64 \<Rightarrow> (nat \<times> u64) option" where
  "scan_ulong_loop s pos result = do {
     x \<leftarrow> rd s pos;
     if digit_val x < 10 then scan_ulong_loop s (pos + 1) (result * 10 + digit_val x)
     else Some (pos, result) }"
  by pat_completeness auto
termination
  by (relation "measure (\<lambda>(s, pos, result). length s - pos)") (auto dest: rd_SomeD)

text \<open>The number of bytes scanned and the value stored through \<open>u\<close>.\<close>

definition scan_ulong :: "cstr \<Rightarrow> (nat \<times> u64) option" where
  "scan_ulong s = scan_ulong_loop s 0 0"

declare str_len_loop.simps [simp del] str_start_loop.simps [simp del]
  str_diffn_loop.simps [simp del] byte_copy_loop.simps [simp del] byte_zero_loop.simps [simp del]
  fmt_ulong_len.simps [simp del] fmt_ulong_fill.simps [simp del] scan_ulong_loop.simps [simp del]

section \<open>The unrolled loops and their references\<close>


fun strlen_ref :: "cstr \<Rightarrow> nat option" where
  "strlen_ref [] = None"
| "strlen_ref (c # s) = (if c = NUL then Some 0 else map_option Suc (strlen_ref s))"

lemma str_len_loop_step:
  "str_len_loop s t = do { a \<leftarrow> rd s t; if a = NUL then Some t else str_len_loop s (t + 1) }"
proof (induction s t rule: str_len_loop.induct)
  case (1 s t)
  show ?case
    by (subst str_len_loop.simps, subst str_len_loop.simps [of s "t + 1"])
      (use "1.IH" in \<open>auto simp: eval_nat_numeral intro!: Option.bind_cong\<close>)
qed

fun starts_ref :: "cstr \<Rightarrow> cstr \<Rightarrow> int option" where
  "starts_ref s [] = None"
| "starts_ref s (x # t) = (if x = NUL then Some 1 else
     (case s of [] \<Rightarrow> None | y # s \<Rightarrow> if x \<noteq> y then Some 0 else starts_ref s t))"

lemma str_start_loop_step:
  "str_start_loop s t i = do {
     x \<leftarrow> rd t i; if x = NUL then Some 1 else do {
     y \<leftarrow> rd s i; if x \<noteq> y then Some 0 else str_start_loop s t (i + 1) }}"
proof (induction s t i rule: str_start_loop.induct)
  case (1 s t i)
  show ?case
    by (subst str_start_loop.simps, subst str_start_loop.simps [of s t "i + 1"])
      (use "1.IH" in \<open>auto simp: eval_nat_numeral intro!: Option.bind_cong\<close>)
qed

lemma str_diffn_loop_step:
  "str_diffn_loop s t i len = (if len = 0 then Some 0 else do {
     x \<leftarrow> rd s i; y \<leftarrow> rd t i;
     if x \<noteq> y \<or> x = NUL then Some (str_diffn_break x y) else
     str_diffn_loop s t (i + 1) (len - 1) })"
proof (induction s t i len rule: str_diffn_loop.induct)
  case (1 s t i len)
  show ?case
    by (subst str_diffn_loop.simps, subst str_diffn_loop.simps [of s t "i + 1" "len - 1"])
      (use "1.IH" in \<open>auto simp: eval_nat_numeral intro!: Option.bind_cong\<close>)
qed

lemma byte_copy_loop_step:
  "byte_copy_loop to n from i = (if n = 0 then Some to else do {
     to \<leftarrow> copy1 to from i; byte_copy_loop to (n - 1) from (i + 1) })"
proof (induction to n "from" i rule: byte_copy_loop.induct)
  case (1 to n "from" i)
  show ?case
    by (subst byte_copy_loop.simps, subst (2) byte_copy_loop.simps)
      (use "1.IH" in \<open>auto simp: eval_nat_numeral intro!: Option.bind_cong\<close>)
qed

lemma byte_zero_loop_step:
  "byte_zero_loop s n i = (if n = 0 then Some s else do {
     s \<leftarrow> buf_set s i NUL; byte_zero_loop s (n - 1) (i + 1) })"
proof (induction s n i rule: byte_zero_loop.induct)
  case (1 s n i)
  show ?case
    by (subst byte_zero_loop.simps, subst (2) byte_zero_loop.simps)
      (use "1.IH" in \<open>auto simp: eval_nat_numeral intro!: Option.bind_cong\<close>)
qed

lemma str_len_loop_ref: "str_len_loop s t = map_option ((+) t) (strlen_ref (drop t s))"
proof (induction "length s - t" arbitrary: t)
  case 0
  then show ?case by (subst str_len_loop_step) (simp add: rd_def)
next
  case (Suc n)
  then have t: "t < length s" by simp
  with Suc have "str_len_loop s (Suc t) = map_option ((+) (Suc t)) (strlen_ref (drop (Suc t) s))"
    by simp
  with t show ?case
    by (subst str_len_loop_step)
      (cases "strlen_ref (drop (Suc t) s)"; auto simp: rd_def Cons_nth_drop_Suc [symmetric])
qed

lemma strlen_ref_eq:
  "strlen_ref s = (if terminated s then Some (length (ctext s)) else None)"
  by (induction s) auto

lemma str_start_loop_ref: "str_start_loop s t i = starts_ref (drop i s) (drop i t)"
proof (induction "length t - i" arbitrary: i)
  case 0
  then show ?case by (subst str_start_loop_step) (simp add: rd_def)
next
  case (Suc n)
  then have i: "i < length t" by simp
  with Suc have "str_start_loop s t (Suc i) = starts_ref (drop (Suc i) s) (drop (Suc i) t)"
    by simp
  with i show ?case
    by (subst str_start_loop_step)
      (auto simp: rd_def Cons_nth_drop_Suc [symmetric] split: list.split)
qed

lemma starts_ref_eq:
  "terminated s \<Longrightarrow> terminated t \<Longrightarrow>
    starts_ref s t = Some (if prefix (ctext t) (ctext s) then 1 else 0)"
proof (induction t arbitrary: s)
  case Nil
  then show ?case by simp
next
  case (Cons x t)
  then show ?case by (cases s) auto
qed

fun strncmp_ref :: "cstr \<Rightarrow> cstr \<Rightarrow> nat \<Rightarrow> int option" where
  "strncmp_ref s t 0 = Some 0"
| "strncmp_ref (x # s) (y # t) (Suc n) =
     (if x \<noteq> y \<or> x = NUL then Some (uchar x - uchar y) else strncmp_ref s t n)"
| "strncmp_ref s t (Suc n) = None"

lemma str_diffn_loop_ref:
  "str_diffn_loop s t i len = strncmp_ref (drop i s) (drop i t) len"
proof (induction len arbitrary: i)
  case 0
  show ?case by (subst str_diffn_loop_step) simp
next
  case (Suc n)
  show ?case
  proof (cases "i < length s \<and> i < length t")
    case True
    then show ?thesis
      by (subst str_diffn_loop_step)
        (simp add: rd_def Suc.IH Cons_nth_drop_Suc [symmetric] str_diffn_break_def)
  next
    case False
    then show ?thesis
      by (subst str_diffn_loop_step) (cases "drop i s"; cases "drop i t"; auto simp: rd_def)
  qed
qed

lemma strncmp_ref_zero:
  "terminated s \<Longrightarrow> terminated t \<Longrightarrow>
    \<exists>d. strncmp_ref s t n = Some d \<and> (d = 0 \<longleftrightarrow> take n (ctext s) = take n (ctext t))"
proof (induction s t n rule: strncmp_ref.induct)
  case (2 x s y t n)
  show ?case
  proof (cases "x \<noteq> y \<or> x = NUL")
    case True
    have "uchar x - uchar y = 0 \<longleftrightarrow> x = y" by simp
    with True show ?thesis by (cases "x = y"; cases "x = NUL"; simp)
  next
    case False
    with "2" show ?thesis by simp
  qed
qed simp_all

lemma byte_copy_loop_ref:
  "byte_copy_loop to n from i =
     (if i + n \<le> length to \<and> i + n \<le> length from \<or> n = 0
      then Some (take i to @ map Some (take n (drop i from)) @ drop (i + n) to) else None)"
proof (induction n arbitrary: to i)
  case 0
  show ?case by (subst byte_copy_loop_step) simp
next
  case (Suc n)
  show ?case
  proof (cases "i < length to \<and> i < length from")
    case True
    then have "copy1 to from i = Some (take i to @ Some (from ! i) # drop (Suc i) to)"
      by (simp add: copy1_def rd_def buf_set_def upd_conv_take_nth_drop)
    with True show ?thesis
      by (subst byte_copy_loop_step)
        (auto simp: Suc.IH Cons_nth_drop_Suc [symmetric] min_def add.commute)
  next
    case False
    then have "copy1 to from i = None" by (auto simp: copy1_def rd_def buf_set_def)
    with False show ?thesis by (subst byte_copy_loop_step) auto
  qed
qed

lemma byte_zero_loop_ref:
  "byte_zero_loop s n i =
     (if i + n \<le> length s \<or> n = 0
      then Some (take i s @ replicate n (Some NUL) @ drop (i + n) s) else None)"
proof (induction n arbitrary: s i)
  case 0
  show ?case by (subst byte_zero_loop_step) simp
next
  case (Suc n)
  show ?case
  proof (cases "i < length s")
    case True
    then have "buf_set s i NUL = Some (take i s @ Some NUL # drop (Suc i) s)"
      by (simp add: buf_set_def upd_conv_take_nth_drop)
    with True show ?thesis
      by (subst byte_zero_loop_step) (auto simp: Suc.IH min_def add.commute)
  next
    case False
    then have "buf_set s i NUL = None" by (simp add: buf_set_def)
    with False show ?thesis by (subst byte_zero_loop_step) auto
  qed
qed
section \<open>Bytes, decimal printing and scanning\<close>


lemma unat_cval [simp]: "unat (cval c) = of_char c"
  by (simp add: cval_def unat_of_nat)

lemma unat_cval_minus:
  assumes "0 < k" and "k \<le> 255"
  shows "unat (cval c - of_nat k) =
    (if of_char c < k then of_char c + (256 - k) else of_char c - k)"
proof -
  have "unat (of_nat k :: u8) = k" using assms by (simp add: unat_of_nat)
  then show ?thesis
    using assms by (simp add: unat_sub_if_size word_size word_le_nat_alt)
qed

lemma unat_ucast_byte [simp]: "unat (ucast (w :: u8) :: u64) = unat w"
proof -
  have "unat w < 2 ^ 8" using unsigned_less [of w, where 'a = nat] by simp
  then show ?thesis by (simp add: unsigned_ucast_eq take_bit_nat_eq_self)
qed

lemma unat_digit_val:
  "unat (digit_val c) = (if of_char c < (48::nat) then of_char c + 208 else of_char c - 48)"
  using unat_cval_minus [of 48 c] by (simp add: digit_val_def)

lemma digit_val_less: "digit_val c < 10 \<longleftrightarrow> is_digit c"
  by (auto simp: word_less_nat_alt unat_digit_val is_digit_def)

lemma digit_val_digit: "is_digit c \<Longrightarrow> digit_val c = of_nat (dval c)"
proof -
  assume "is_digit c"
  then have "unat (digit_val c) = dval c"
    by (simp add: unat_digit_val is_digit_def dval_def)
  then have "of_nat (unat (digit_val c)) = (of_nat (dval c) :: u64)" by simp
  then show ?thesis by simp
qed

lemma fmt_ulong_len_eq: "fmt_ulong_len u l = l + (length (dec (unat u)) - 1)"
proof (induction u l rule: fmt_ulong_len.induct)
  case (1 q len)
  show ?case
  proof (cases "q > 9")
    case True
    then have "9 < unat q" by (simp add: word_less_nat_alt)
    then have "length (dec (unat q)) = Suc (length (dec (unat q div 10)))"
      by (subst dec.simps) simp
    with True "1" show ?thesis by (subst fmt_ulong_len.simps) (simp add: unat_div)
  next
    case False
    then have "unat q < 10" by (simp add: word_less_nat_alt)
    with False show ?thesis by (subst fmt_ulong_len.simps, subst dec.simps) simp
  qed
qed

lemma digit_char_eq: "digit_char u = char_of (48 + unat u mod 10)"
  by (simp add: digit_char_def unat_mod)

lemma fmt_ulong_fill_eq:
  "fmt_ulong_fill b p u = (let d = dec (unat u) in
     if length d \<le> p \<and> p \<le> length b
     then Some (take (p - length d) b @ map Some d @ drop p b) else None)"
proof (induction b p u rule: fmt_ulong_fill.induct)
  case (1 b p u)
  let ?d = "dec (unat u)" and ?c = "digit_char u"
  have u0: "u div 10 \<noteq> 0 \<longleftrightarrow> \<not> unat u < 10"
    by (simp add: unat_eq_0 [symmetric] unat_div div_eq_0_iff)
  have d: "?d = (if unat u < 10 then [?c] else dec (unat (u div 10)) @ [?c])"
    by (subst dec.simps) (simp add: digit_char_eq unat_div)
  show ?case
  proof (cases "0 < p \<and> p \<le> length b")
    case False
    then show ?thesis
      by (subst fmt_ulong_fill.simps) (auto simp: buf_set_def Let_def)
  next
    case True
    let ?b = "b[p - 1 := Some ?c]"
    have p: "p - Suc 0 < length b" using True by arith
    then have set: "buf_set b (p - 1) ?c = Some ?b" by (simp add: buf_set_def)
    have dr: "drop (p - 1) ?b = Some ?c # drop p b" and tk: "k \<le> p - 1 \<Longrightarrow> take k ?b = take k b" for k
      using True p by (simp_all add: Cons_nth_drop_Suc [symmetric])
    show ?thesis
    proof (cases "unat u < 10")
      case small: True
      have "?b = take (p - 1) b @ Some ?c # drop p b"
        using True p by (simp add: upd_conv_take_nth_drop)
      with small show ?thesis using True u0 set d
        by (subst fmt_ulong_fill.simps) (simp add: Let_def)
    next
      case large: False
      then have IH: "fmt_ulong_fill ?b (p - 1) (u div 10) = (let d = dec (unat (u div 10)) in
          if length d \<le> p - 1 \<and> p - 1 \<le> length ?b
          then Some (take (p - 1 - length d) ?b @ map Some d @ drop (p - 1) ?b) else None)"
        using "1" True set u0 by (simp add: Let_def)
      show ?thesis using True large u0 set IH d tk dr
        by (subst fmt_ulong_fill.simps) (auto simp: Let_def)
    qed
  qed
qed

lemma fmt_ulong_eq:
  "fmt_ulong s u = (let d = dec (unat u) in
     case s of
       None \<Rightarrow> Some (None, length d)
     | Some b \<Rightarrow> if length d \<le> length b
         then Some (Some (map Some d @ drop (length d) b), length d) else None)"
proof -
  have "fmt_ulong_len u 1 = length (dec (unat u))"
    using length_dec_pos [of "unat u"] by (simp add: fmt_ulong_len_eq del: length_dec_pos)
  then show ?thesis by (simp add: fmt_ulong_def fmt_ulong_fill_eq Let_def split: option.split)
qed

lemma scan_ulong_loop_eq:
  "pos \<le> length s \<Longrightarrow> scan_ulong_loop s pos r =
    (let ds = takeWhile is_digit (drop pos s) in
     if pos + length ds < length s
     then Some (pos + length ds, foldl (\<lambda>v c. v * 10 + of_nat (dval c)) r ds) else None)"
proof (induction s pos r rule: scan_ulong_loop.induct)
  case (1 s pos r)
  show ?case
  proof (cases "pos < length s")
    case False
    then show ?thesis by (subst scan_ulong_loop.simps) (simp add: rd_def)
  next
    case True
    then have dr: "drop pos s = s ! pos # drop (Suc pos) s" by (simp add: Cons_nth_drop_Suc)
    show ?thesis
    proof (cases "is_digit (s ! pos)")
      case False
      with True show ?thesis
        by (subst scan_ulong_loop.simps) (simp add: rd_def digit_val_less dr)
    next
      case d: True
      with "1" True show ?thesis
        by (subst scan_ulong_loop.simps)
          (simp add: rd_def digit_val_less digit_val_digit dr Let_def)
    qed
  qed
qed

lemma foldl_digits_word:
  "foldl (\<lambda>v c. v * 10 + of_nat (dval c)) (of_nat r) ds =
    (of_nat (foldl (\<lambda>n c. 10 * n + dval c) r ds) :: u64)"
proof (induction ds arbitrary: r)
  case (Cons c ds)
  have "(of_nat r * 10 + of_nat (dval c) :: u64) = of_nat (10 * r + dval c)" by simp
  with Cons.IH [of "10 * r + dval c"] show ?case by (simp del: of_nat_add of_nat_mult)
qed simp

lemma scan_ulong_eq:
  "scan_ulong s = (let ds = takeWhile is_digit s in
     if length ds < length s then Some (length ds, of_nat (undec ds)) else None)"
  using foldl_digits_word [of 0]
  by (simp add: scan_ulong_def scan_ulong_loop_eq undec_def Let_def)

lemma str_len_eq: "str_len s = (if terminated s then Some (length (ctext s)) else None)"
  by (simp add: str_len_def str_len_loop_ref strlen_ref_eq)

lemma str_len_cstring [simp]: "is_text s \<Longrightarrow> str_len (cstring s) = Some (length s)"
  by (simp add: str_len_eq)

lemma str_start_eq:
  "terminated s \<Longrightarrow> terminated t \<Longrightarrow>
    str_start s t = Some (if prefix (ctext t) (ctext s) then 1 else 0)"
  by (simp add: str_start_def str_start_loop_ref starts_ref_eq)

lemma str_diffn_zero:
  "terminated s \<Longrightarrow> terminated t \<Longrightarrow>
    \<exists>d. str_diffn s t n = Some d \<and> (d = 0 \<longleftrightarrow> take n (ctext s) = take n (ctext t))"
  by (simp add: str_diffn_def str_diffn_loop_ref strncmp_ref_zero)

lemma byte_copy_eq:
  "byte_copy to n from = (if n \<le> length to \<and> n \<le> length from
     then Some (map Some (take n from) @ drop n to) else None)"
  by (auto simp: byte_copy_def byte_copy_loop_ref)

lemma byte_zero_eq:
  "byte_zero s n = (if n \<le> length s then Some (replicate n (Some NUL) @ drop n s) else None)"
  by (auto simp: byte_zero_def byte_zero_loop_ref)

section \<open>The interface of the decimal formatters\<close>

text \<open>
  The modules print numbers in two ways: into a local buffer of a fixed size, or into a buffer
  of the length that a first call with a null pointer returned. Both then write the buffer.
\<close>

type_synonym formatter = "buf option \<Rightarrow> u64 \<Rightarrow> (buf option \<times> nat) option"

text \<open>\<open>char buf[k]; n = fmt(buf, v); write(fd, buf, n);\<close>: the bytes written.\<close>

definition fmt_fixed :: "formatter \<Rightarrow> nat \<Rightarrow> u64 \<Rightarrow> string option" where
  "fmt_fixed fmt k v = do {
     (b, n) \<leftarrow> fmt (Some (buf_new k)) v;
     b \<leftarrow> b;
     buf_read b n }"

text \<open>\<open>n = fmt(0, v); char buf[n]; fmt(buf, v); write(fd, buf, n);\<close>\<close>

definition fmt_exact :: "formatter \<Rightarrow> u64 \<Rightarrow> string option" where
  "fmt_exact fmt v = do {
     (_, n) \<leftarrow> fmt None v;
     (b, _) \<leftarrow> fmt (Some (buf_new n)) v;
     b \<leftarrow> b;
     buf_read b n }"

locale decimal_formatter =
  fixes fmt :: formatter
  assumes fmt_null: "fmt None v = Some (None, length (dec (unat v)))"
    and fmt_fits: "length (dec (unat v)) \<le> length b \<Longrightarrow>
      fmt (Some b) v = Some (Some (map Some (dec (unat v)) @ drop (length (dec (unat v))) b),
        length (dec (unat v)))"
    and fmt_overflow: "length b < length (dec (unat v)) \<Longrightarrow> fmt (Some b) v = None"
begin

lemma fixed: "fmt_fixed fmt k v =
    (if length (dec (unat v)) \<le> k then Some (dec (unat v)) else None)"
  by (simp add: fmt_fixed_def fmt_fits fmt_overflow mem_simps)

lemma exact: "fmt_exact fmt v = Some (dec (unat v))"
  by (simp add: fmt_exact_def fmt_null fmt_fits mem_simps)

lemma fixed_20: "20 \<le> k \<Longrightarrow> fmt_fixed fmt k v = Some (dec (unat v))"
  using length_dec_u64 [of v] by (simp add: fixed)

end

interpretation djb_fmt: decimal_formatter fmt_ulong
  by unfold_locales (simp_all add: fmt_ulong_eq Let_def)

section \<open>The order of str_diffn\<close>

text \<open>The dictionary order of texts, by the unsigned values of their bytes.\<close>

fun text_less :: "string \<Rightarrow> string \<Rightarrow> bool" where
  "text_less s [] = False"
| "text_less [] (y # t) = True"
| "text_less (x # s) (y # t) = (uchar x < uchar y \<or> x = y \<and> text_less s t)"

lemma uchar_pos: "c \<noteq> NUL \<Longrightarrow> 0 < uchar c"
  using uchar_range(1) [of c] uchar_eq_iff [of c NUL] by (simp add: uchar_def)

lemma text_less_ctext:
  "uchar x < uchar y \<Longrightarrow> text_less (take (Suc n) (ctext (x # s))) (take (Suc n) (ctext (y # t)))"
  using uchar_range(1) [of x] by (auto simp: uchar_def)

lemma text_less_asym: "text_less s t \<Longrightarrow> \<not> text_less t s"
  by (induction s t rule: text_less.induct) auto

lemma strncmp_ref_less:
  "strncmp_ref s t n = Some d \<Longrightarrow> d < 0 \<longleftrightarrow> text_less (take n (ctext s)) (take n (ctext t))"
proof (induction s t n rule: strncmp_ref.induct)
  case (2 x s y t n)
  show ?case
  proof (cases "x \<noteq> y \<or> x = NUL")
    case True
    with "2.prems" have d: "d = uchar x - uchar y" by simp
    consider "x = y" "x = NUL" | "uchar x < uchar y" | "uchar y < uchar x"
      using True uchar_eq_iff [of x y] by linarith
    then show ?thesis
    proof cases
      case 3
      from text_less_asym [OF text_less_ctext [OF this]] d 3 show ?thesis by simp
    qed (use d text_less_ctext in auto)
  next
    case False
    with "2" show ?thesis by simp
  qed
qed simp_all

section \<open>Properties\<close>

text \<open>
  \<open>str_diffn\<close> compares the first \<open>n\<close> characters of two texts: it is 0 when they agree, and
  negative when the first text comes before the second in the order of unsigned bytes.
\<close>

theorem str_diffn_spec:
  assumes "terminated s" and "terminated t"
  shows "\<exists>d. str_diffn s t n = Some d \<and> (d = 0 \<longleftrightarrow> take n (ctext s) = take n (ctext t)) \<and>
    (d < 0 \<longleftrightarrow> text_less (take n (ctext s)) (take n (ctext t)))"
proof -
  obtain d where "str_diffn s t n = Some d" "d = 0 \<longleftrightarrow> take n (ctext s) = take n (ctext t)"
    using str_diffn_zero [OF assms] by blast
  moreover from this(1) have "strncmp_ref s t n = Some d" by (simp add: str_diffn_def str_diffn_loop_ref)
  ultimately show ?thesis using strncmp_ref_less by blast
qed

theorem str_diffn_spec_witness:
  "(\<exists>d. str_diffn (cstring ''-help'') (cstring ''-h'') 2 = Some d \<and> d = 0) \<and>
   (\<exists>d. str_diffn (cstring ''a'') (cstring ''b'') 5 = Some d \<and> d < 0)"
proof -
  have "text_less ''a'' ''b''" by code_simp
  then show ?thesis
    using str_diffn_spec [of "cstring ''-help''" "cstring ''-h''" 2]
      str_diffn_spec [of "cstring ''a''" "cstring ''b''" 5] by auto
qed

text \<open>
  C31. Printing and scanning are inverse: \<open>fmt_ulong\<close> with a null pointer announces a length \<open>n\<close>,
  into a buffer with room for it writes \<open>n\<close> bytes and leaves the rest alone, and \<open>scan_ulong\<close>
  reads these bytes, followed by a byte that is no digit, back to the same value.
\<close>

theorem fmt_scan_round_trip:
  assumes "length (dec (unat u)) \<le> length b" and "\<not> is_digit x"
  shows "\<exists>ds n. fmt_ulong None u = Some (None, n) \<and> n \<le> 20 \<and>
    fmt_ulong (Some b) u = Some (Some (map Some ds @ drop n b), n) \<and> length ds = n \<and>
    scan_ulong (ds @ x # rest) = Some (n, u)"
proof (intro exI conjI)
  let ?ds = "dec (unat u)"
  show "fmt_ulong None u = Some (None, length ?ds)" by (simp add: fmt_ulong_eq)
  show "length ?ds \<le> 20" by (rule length_dec_u64)
  show "fmt_ulong (Some b) u = Some (Some (map Some ?ds @ drop (length ?ds) b), length ?ds)"
    using assms(1) by (simp add: fmt_ulong_eq Let_def)
  have "takeWhile is_digit (?ds @ x # rest) = ?ds"
    using dec_digits [of "unat u"] assms(2) by (simp add: takeWhile_append)
  then show "scan_ulong (?ds @ x # rest) = Some (length ?ds, u)" by (simp add: scan_ulong_eq)
qed simp

theorem fmt_scan_round_trip_witness:
  "\<exists>ds n. fmt_ulong (Some (buf_new 4)) 307 = Some (Some (map Some ds @ drop n (buf_new 4)), n) \<and>
     scan_ulong (ds @ '' x'') = Some (n, 307)"
proof -
  have "length (dec (unat (307 :: u64))) \<le> length (buf_new 4)" by (simp add: length_dec_le)
  from fmt_scan_round_trip [OF this, of "CHR '' ''" "''x''"] show ?thesis
    by (auto simp: is_digit_def)
qed

end
