(* ===== verification/Floating.thy ===== *)
theory Floating
  imports Prelude
begin

text \<open>
  The C type \<open>double\<close> as IEEE 754 binary64, with the operations the code uses: conversion from
  and to integers, comparison with zero, and the four arithmetic operations with rounding to
  nearest, ties to even. A finite double is its rational value, so the two zeros are one value;
  no operation of the code tells them apart.
\<close>

datatype double = Fin rat | PInf | NInf | NaN

section \<open>Rounding\<close>

text \<open>The number of binary digits of a positive integer.\<close>

function bit_len :: "int \<Rightarrow> int" where
  "bit_len n = (if n \<le> 0 then 0 else 1 + bit_len (n div 2))"
  by pat_completeness auto
termination
  by (relation "measure nat") auto

declare bit_len.simps [simp del]

text \<open>The exponent \<open>e\<close> with \<open>2 ^ e \<le> \<bar>x\<bar> < 2 ^ (e + 1)\<close>.\<close>

definition expo :: "rat \<Rightarrow> int" where
  "expo x = (let (p, q) = quotient_of \<bar>x\<bar>;
     e = bit_len p - bit_len q
     in if \<bar>x\<bar> < 2 powi e then e - 1 else e)"

text \<open>The distance of the doubles around \<open>x\<close>: 53 bits of precision, gradual underflow.\<close>

definition ulp :: "rat \<Rightarrow> rat" where
  "ulp x = 2 powi (max (expo x - 52) (-1074))"

definition round_even :: "rat \<Rightarrow> int" where
  "round_even y = (let f = \<lfloor>y\<rfloor>; d = y - of_int f in
     if d < 1 / 2 then f else if d > 1 / 2 then f + 1 else if even f then f else f + 1)"

definition rnd_rat :: "rat \<Rightarrow> rat" where
  "rnd_rat x = (if x = 0 then 0 else of_int (round_even (x / ulp x)) * ulp x)"

definition rnd :: "rat \<Rightarrow> double" where
  "rnd x = (let r = rnd_rat x in
     if \<bar>r\<bar> \<ge> 2 ^ 1024 then if x > 0 then PInf else NInf else Fin r)"

section \<open>Operations\<close>

text \<open>\<open>(double) n\<close> for an integer\<close>

definition d_of_int :: "int \<Rightarrow> double" where
  "d_of_int n = rnd (of_int n)"

definition d_of_u64 :: "u64 \<Rightarrow> double" where
  "d_of_u64 w = d_of_int (uint w)"

text \<open>\<open>x < 0\<close>\<close>

fun d_neg :: "double \<Rightarrow> bool" where
  "d_neg (Fin x) = (x < 0)"
| "d_neg PInf = False"
| "d_neg NInf = True"
| "d_neg NaN = False"

text \<open>The sign of an infinite factor or dividend.\<close>

fun d_sign :: "double \<Rightarrow> int" where
  "d_sign (Fin x) = (if x < 0 then -1 else if x = 0 then 0 else 1)"
| "d_sign PInf = 1"
| "d_sign NInf = -1"
| "d_sign NaN = 0"

definition d_inf :: "int \<Rightarrow> double" where
  "d_inf s = (if s > 0 then PInf else if s < 0 then NInf else NaN)"

fun d_mul :: "double \<Rightarrow> double \<Rightarrow> double" where
  "d_mul NaN y = NaN"
| "d_mul x NaN = NaN"
| "d_mul (Fin x) (Fin y) = rnd (x * y)"
| "d_mul x y = d_inf (d_sign x * d_sign y)"

fun d_add :: "double \<Rightarrow> double \<Rightarrow> double" where
  "d_add NaN y = NaN"
| "d_add x NaN = NaN"
| "d_add (Fin x) (Fin y) = rnd (x + y)"
| "d_add (Fin x) y = y"
| "d_add x (Fin y) = x"
| "d_add x y = (if x = y then x else NaN)"

text \<open>
  Division by a zero gives an infinity of the dividend's sign; the code divides by non-negative
  values only, whose zero is the positive one.
\<close>

fun d_div :: "double \<Rightarrow> double \<Rightarrow> double" where
  "d_div NaN y = NaN"
| "d_div x NaN = NaN"
| "d_div (Fin x) (Fin y) = (if y = 0 then d_inf (d_sign (Fin x)) else rnd (x / y))"
| "d_div (Fin x) y = Fin 0"
| "d_div x (Fin y) = d_inf (d_sign x * (if y < 0 then -1 else 1))"
| "d_div x y = NaN"

text \<open>
  \<open>(uint64_t) x\<close>: truncation towards zero, undefined where the truncated value is not a value
  of the type.
\<close>

definition trunc :: "rat \<Rightarrow> int" where
  "trunc x = (if x < 0 then - \<lfloor>- x\<rfloor> else \<lfloor>x\<rfloor>)"

fun d_to_u64 :: "double \<Rightarrow> u64 option" where
  "d_to_u64 (Fin x) =
     (if 0 \<le> trunc x \<and> trunc x < 2 ^ 64 then Some (word_of_int (trunc x)) else None)"
| "d_to_u64 PInf = None"
| "d_to_u64 NInf = None"
| "d_to_u64 NaN = None"

section \<open>Powers of two and the exponent\<close>

abbreviation p2 :: "int \<Rightarrow> rat" where "p2 k \<equiv> 2 powi k"

lemma p2_pos [simp]: "0 < p2 k"
  by simp

lemma p2_nonzero [simp]: "p2 k \<noteq> 0"
  by simp

lemma p2_add: "p2 (a + b) = p2 a * p2 b"
  by (simp add: power_int_add)

lemma p2_diff: "p2 (a - b) = p2 a / p2 b"
  by (simp add: power_int_diff)

lemma p2_le: "a \<le> b \<Longrightarrow> p2 a \<le> p2 b"
  by (simp add: power_int_increasing)

lemma p2_less_imp: "p2 a < p2 b \<Longrightarrow> a < b"
  by (metis linorder_not_less p2_le)

lemma p2_split: "a \<le> b \<Longrightarrow> p2 b = of_int (2 ^ nat (b - a)) * p2 a"
  using p2_add [of "b - a" a] by (simp add: power_int_nonneg_exp)

lemma bit_len_bounds_int:
  "0 < n \<Longrightarrow> 0 < bit_len n \<and> 2 ^ nat (bit_len n - 1) \<le> n \<and> n < 2 ^ nat (bit_len n)"
proof (induction n rule: bit_len.induct)
  case (1 n)
  show ?case
  proof (cases "n = 1")
    case True
    then show ?thesis by (simp add: bit_len.simps)
  next
    case False
    define h where "h = n div 2"
    have h: "0 < h" "2 * h \<le> n" "n < 2 * h + 2"
      using "1.prems" False unfolding h_def by linarith+
    have IH: "0 < bit_len h" "2 ^ nat (bit_len h - 1) \<le> h" "h < 2 ^ nat (bit_len h)"
      using "1.IH" "1.prems" h by (auto simp: h_def)
    have b: "bit_len n = 1 + bit_len h" using "1.prems" by (subst bit_len.simps) (simp add: h_def)
    have "(2::int) ^ nat (bit_len h) = 2 * 2 ^ nat (bit_len h - 1)"
      "(2::int) ^ nat (1 + bit_len h) = 2 * 2 ^ nat (bit_len h)"
      using IH(1) by (simp_all add: nat_diff_distrib' nat_add_distrib flip: power_Suc)
    with IH h b show ?thesis by auto
  qed
qed

lemma bit_len_bounds:
  assumes "0 < n"
  shows "p2 (bit_len n - 1) \<le> of_int n" and "of_int n < p2 (bit_len n)"
proof -
  have b: "0 < bit_len n" "2 ^ nat (bit_len n - 1) \<le> n" "n < 2 ^ nat (bit_len n)"
    using bit_len_bounds_int [OF assms] by auto
  have "of_int (2 ^ nat (bit_len n - 1)) \<le> (of_int n :: rat)"
    using b(2) by (simp only: of_int_le_iff)
  then show "p2 (bit_len n - 1) \<le> of_int n" using b(1) by (simp add: power_int_nonneg_exp)
  have "of_int n < (of_int (2 ^ nat (bit_len n)) :: rat)"
    using b(3) by (simp only: of_int_less_iff)
  then show "of_int n < p2 (bit_len n)" using b(1) by (simp add: power_int_nonneg_exp)
qed

lemma expo_bounds:
  assumes "x \<noteq> 0"
  shows "p2 (expo x) \<le> \<bar>x\<bar>" and "\<bar>x\<bar> < p2 (expo x + 1)"
proof -
  obtain p q where pq: "quotient_of \<bar>x\<bar> = (p, q)" by (cases "quotient_of \<bar>x\<bar>")
  then have x: "\<bar>x\<bar> = of_int p / of_int q" and q: "0 < q"
    by (auto dest: quotient_of_div quotient_of_denom_pos)
  with assms have p: "0 < p"
    by (metis of_int_0_less_iff zero_less_abs_iff zero_less_divide_iff less_asym)
  let ?P = "bit_len p" and ?Q = "bit_len q"
  have qr: "0 < (of_int q :: rat)" using q by simp
  have "\<bar>x\<bar> < p2 ?P / p2 (?Q - 1)"
    using bit_len_bounds [OF p] bit_len_bounds [OF q] p unfolding x
    by (intro frac_less) simp_all
  then have up: "\<bar>x\<bar> < p2 (?P - ?Q + 1)" by (simp add: p2_diff [symmetric] algebra_simps)
  have "p2 (?P - 1) / p2 ?Q \<le> \<bar>x\<bar>"
    using bit_len_bounds [OF p] bit_len_bounds [OF q] p qr unfolding x
    by (intro frac_le) simp_all
  then have lo: "p2 (?P - ?Q - 1) \<le> \<bar>x\<bar>" by (simp add: p2_diff [symmetric] algebra_simps)
  have e: "expo x = (if \<bar>x\<bar> < p2 (?P - ?Q) then ?P - ?Q - 1 else ?P - ?Q)"
    by (simp add: expo_def pq Let_def)
  show "p2 (expo x) \<le> \<bar>x\<bar>" "\<bar>x\<bar> < p2 (expo x + 1)"
    using up lo by (auto simp: e)
qed

lemma expo_mono:
  assumes "0 < x" and "x \<le> y"
  shows "expo x \<le> expo y"
proof -
  have "p2 (expo x) \<le> x" "y < p2 (expo y + 1)"
    using expo_bounds [of x] expo_bounds [of y] assms by auto
  with assms have "p2 (expo x) < p2 (expo y + 1)" by linarith
  then show ?thesis by (auto dest: p2_less_imp)
qed

section \<open>Rounding to an integer\<close>

lemma round_even_error: "\<bar>of_int (round_even y) - y\<bar> \<le> 1 / 2"
proof -
  obtain f where f: "f = \<lfloor>y\<rfloor>" by simp
  then have "of_int f \<le> y" "y < of_int f + 1" by linarith+
  then show ?thesis by (auto simp: round_even_def Let_def abs_if f [symmetric])
qed

lemma round_even_int [simp]: "round_even (of_int n) = n"
  by (simp add: round_even_def)

lemma round_even_le: "y \<le> of_int n \<Longrightarrow> round_even y \<le> n"
proof (rule ccontr)
  assume "y \<le> of_int n" and "\<not> round_even y \<le> n"
  then have "of_int (n + 1) \<le> (of_int (round_even y) :: rat)" by (simp only: of_int_le_iff)
  with \<open>y \<le> of_int n\<close> show False
    using round_even_error [of y] by (simp add: abs_if split: if_splits)
qed

lemma round_even_ge: "of_int n \<le> y \<Longrightarrow> n \<le> round_even y"
proof (rule ccontr)
  assume "of_int n \<le> y" and "\<not> n \<le> round_even y"
  then have "of_int (round_even y + 1) \<le> (of_int n :: rat)" by (simp only: of_int_le_iff)
  with \<open>of_int n \<le> y\<close> show False
    using round_even_error [of y] by (simp add: abs_if split: if_splits)
qed

section \<open>Representable values\<close>

definition repr :: "rat \<Rightarrow> bool" where
  "repr x \<longleftrightarrow> (\<exists>m k. x = of_int m * p2 k \<and> \<bar>m\<bar> < 2 ^ 53 \<and> -1074 \<le> k)"

definition ulp_exp :: "rat \<Rightarrow> int" where
  "ulp_exp x = max (expo x - 52) (-1074)"

lemma ulp_p2: "ulp x = p2 (ulp_exp x)"
  by (simp add: ulp_def ulp_exp_def)

lemma repr_multiple:
  assumes "repr x" and "x \<noteq> 0"
  shows "\<exists>j. x = of_int j * ulp x"
proof -
  from assms obtain m k where x: "x = of_int m * p2 k" "\<bar>m\<bar> < 2 ^ 53" "-1074 \<le> k"
    by (auto simp: repr_def)
  have "p2 (expo x) \<le> \<bar>x\<bar>" using expo_bounds assms by blast
  also have "\<bar>x\<bar> = of_int \<bar>m\<bar> * p2 k" by (simp add: x abs_mult)
  also have "\<dots> < of_int (2 ^ 53) * p2 k"
    using x(2) by (intro mult_strict_right_mono) (simp_all only: of_int_less_iff p2_pos)
  also have "\<dots> = p2 (53 + k)" by (simp add: p2_add)
  finally have "expo x < 53 + k" by (rule p2_less_imp)
  with x(3) have "ulp_exp x \<le> k" by (simp add: ulp_exp_def)
  then have "x = of_int (m * 2 ^ nat (k - ulp_exp x)) * ulp x"
    using p2_split [of "ulp_exp x" k] by (simp add: x(1) ulp_p2)
  then show ?thesis by blast
qed

lemma ulp_pos [simp]: "0 < ulp x"
  by (simp add: ulp_p2)

lemma rnd_rat_repr: "repr x \<Longrightarrow> rnd_rat x = x"
proof (cases "x = 0")
  case False
  assume "repr x"
  then obtain j where j: "x = of_int j * ulp x" using repr_multiple False by blast
  have "ulp x \<noteq> 0" using ulp_pos [of x] by linarith
  then have "x / ulp x = of_int j" using j by (metis nonzero_mult_div_cancel_right)
  then show ?thesis using j False by (simp add: rnd_rat_def)
qed (simp add: rnd_rat_def)

lemma rnd_rat_le:
  assumes "0 \<le> x" and "x \<le> y" and "repr y"
  shows "rnd_rat x \<le> y"
proof (cases "x = 0")
  case True
  with assms show ?thesis by (simp add: rnd_rat_def)
next
  case False
  with assms have x: "0 < x" "0 < y" by auto
  then obtain j where j: "y = of_int j * ulp y" using repr_multiple assms(3) by blast
  have "ulp_exp x \<le> ulp_exp y" using expo_mono [OF x(1) assms(2)] by (simp add: ulp_exp_def)
  then have "y = of_int (j * 2 ^ nat (ulp_exp y - ulp_exp x)) * ulp x"
    using j p2_split by (simp add: ulp_p2)
  then obtain n where y: "y = of_int n * ulp x" by blast
  then have "x / ulp x \<le> of_int n"
    using assms(2) by (simp add: pos_divide_le_eq)
  then have "round_even (x / ulp x) \<le> n" by (rule round_even_le)
  then have "of_int (round_even (x / ulp x)) * ulp x \<le> of_int n * ulp x"
    by (intro mult_right_mono) (simp_all only: of_int_le_iff less_imp_le [OF ulp_pos])
  then show ?thesis using False y by (simp add: rnd_rat_def)
qed

lemma rnd_rat_ge:
  assumes "0 \<le> z" and "z \<le> x" and "repr z"
  shows "z \<le> rnd_rat x"
proof (cases "z = 0")
  case True
  then have "0 \<le> round_even (x / ulp x)"
    using assms by (intro round_even_ge) (simp add: less_imp_le)
  then show ?thesis using True by (simp add: rnd_rat_def less_imp_le)
next
  case False
  with assms have z: "0 < z" "0 < x" by auto
  have "\<exists>j. z \<le> of_int j * ulp x \<and> of_int j * ulp x \<le> x"
  proof (cases "ulp_exp x = ulp_exp z")
    case True
    obtain j where "z = of_int j * ulp z" using repr_multiple [OF assms(3) False] by blast
    then have "z = of_int j * ulp x" using True by (simp add: ulp_p2)
    then show ?thesis using assms(2) by (intro exI [of _ j]) simp
  next
    case ne: False
    then have e: "expo z < expo x" "ulp_exp x = expo x - 52"
      using expo_mono [OF z(1) assms(2)] by (auto simp: ulp_exp_def max_def split: if_splits)
    then have "p2 (expo x) = of_int (2 ^ 52) * ulp x" by (simp add: ulp_p2 p2_diff)
    moreover have "z \<le> p2 (expo x)"
      using expo_bounds(2) [of z] z p2_le [of "expo z + 1" "expo x"] e by simp
    moreover have "p2 (expo x) \<le> x" using expo_bounds(1) [of x] z by simp
    ultimately show ?thesis by metis
  qed
  then obtain j where j: "z \<le> of_int j * ulp x" "of_int j * ulp x \<le> x" by blast
  then have "j \<le> round_even (x / ulp x)"
    by (intro round_even_ge) (simp add: pos_le_divide_eq)
  then have "of_int j * ulp x \<le> of_int (round_even (x / ulp x)) * ulp x"
    by (intro mult_right_mono) (simp_all only: of_int_le_iff less_imp_le [OF ulp_pos])
  with j(1) have "z \<le> of_int (round_even (x / ulp x)) * ulp x" by (rule order_trans)
  then show ?thesis using z by (simp add: rnd_rat_def)
qed

lemma repr_int: "\<bar>n\<bar> < 2 ^ 53 \<Longrightarrow> repr (of_int n)"
  unfolding repr_def by (rule exI [of _ n], rule exI [of _ 0]) simp

lemma repr_p2: "-1074 \<le> k \<Longrightarrow> repr (p2 k)"
  unfolding repr_def by (rule exI [of _ 1], rule exI [of _ k]) simp

lemma repr_pow2: "repr (2 ^ k)"
  using repr_p2 [of "int k"] by simp

text \<open>The results the modules rely on: exactness, and rounding never crosses a representable value.\<close>

lemma rnd_repr: "repr x \<Longrightarrow> \<bar>x\<bar> < 2 ^ 1024 \<Longrightarrow> rnd x = Fin x"
  by (simp add: rnd_def rnd_rat_repr)

lemma rnd_between:
  assumes "0 \<le> x" and "x \<le> y" and "repr y" and "y < 2 ^ 1024"
  shows "\<exists>r. rnd x = Fin r \<and> 0 \<le> r \<and> r \<le> y \<and> (\<forall>z. 0 \<le> z \<longrightarrow> z \<le> x \<longrightarrow> repr z \<longrightarrow> z \<le> r)"
proof -
  have r: "0 \<le> rnd_rat x" "rnd_rat x \<le> y"
    using rnd_rat_ge [of 0 x] rnd_rat_le [of x y] repr_int [of 0] assms by auto
  with assms have "rnd x = Fin (rnd_rat x)" by (simp add: rnd_def)
  with r show ?thesis using rnd_rat_ge by auto
qed

lemma d_of_int_exact: "\<bar>n\<bar> < 2 ^ 53 \<Longrightarrow> d_of_int n = Fin (of_int n)"
proof -
  assume n: "\<bar>n\<bar> < 2 ^ 53"
  then have "of_int \<bar>n\<bar> < (of_int (2 ^ 53) :: rat)" by (simp only: of_int_less_iff)
  then have "\<bar>of_int n :: rat\<bar> < 2 ^ 1024" by simp
  then show ?thesis using rnd_repr [OF repr_int [OF n]] by (simp add: d_of_int_def)
qed

section \<open>Conversion to an integer\<close>

lemma d_to_u64_nonneg:
  "0 \<le> r \<Longrightarrow> r < 2 ^ 64 \<Longrightarrow> d_to_u64 (Fin r) = Some (word_of_int \<lfloor>r\<rfloor>)"
  by (auto simp: trunc_def floor_less_iff)

lemma uint_word_of_floor:
  "0 \<le> r \<Longrightarrow> r < 2 ^ 64 \<Longrightarrow> uint (word_of_int \<lfloor>r\<rfloor> :: u64) = \<lfloor>r\<rfloor>"
  by (subst uint_word_of_int_eq) (simp add: take_bit_int_eq_self floor_less_iff)

end
