(* ===== verification/Helpers.thy ===== *)
theory Helpers
  imports Djb Floating
begin

text \<open>
  \<^verbatim>\<open>ustat_helper/\<close>: number output in decimal, in human units and with a fraction, hexadecimal
  scanning, environment defaults, copying of fields and reading of a decimal number.
  A function that writes returns its writes and its result.
\<close>

section \<open>fmt_uint64 and write_uint64\<close>

text \<open>\<open>for (l = 1; v > 9; l++) v = v / 10;\<close>\<close>

function fmt_uint64_len :: "u64 \<Rightarrow> nat \<Rightarrow> nat" where
  "fmt_uint64_len v l = (if v > 9 then fmt_uint64_len (v div 10) (l + 1) else l)"
  by pat_completeness auto
termination
proof (relation "measure (\<lambda>(v, l). unat v)")
  fix v :: u64 and l :: nat
  assume "v > 9"
  then have "9 < unat v" by (simp add: word_less_nat_alt)
  then show "((v div 10, l + 1), (v, l)) \<in> measure (\<lambda>(v, l). unat v)"
    by (simp add: unat_div)
qed simp

text \<open>\<open>do { s--; *s = '0' + (val % 10); val /= 10; } while (val);\<close>\<close>

function fmt_uint64_fill :: "buf \<Rightarrow> nat \<Rightarrow> u64 \<Rightarrow> buf option" where
  "fmt_uint64_fill b s val = (if s = 0 then None else do {
     b \<leftarrow> buf_set b (s - 1) (digit_char val);
     if val div 10 \<noteq> 0 then fmt_uint64_fill b (s - 1) (val div 10) else Some b })"
  by pat_completeness auto
termination
  by (relation "measure (\<lambda>(b, s, val). s)") auto

declare fmt_uint64_len.simps [simp del] fmt_uint64_fill.simps [simp del]

definition fmt_uint64 :: "buf option \<Rightarrow> u64 \<Rightarrow> (buf option \<times> nat) option" where
  "fmt_uint64 s val = (let l = fmt_uint64_len val 1 in
     case s of
       None \<Rightarrow> Some (None, l)
     | Some b \<Rightarrow> do { b \<leftarrow> fmt_uint64_fill b l val; Some (Some b, l) })"

text \<open>The size \<open>FMT_ULONG\<close> of the buffers for decimal numbers.\<close>

definition FMT_ULONG :: nat where
  "FMT_ULONG = 40"

definition write_uint64 :: "nat \<Rightarrow> u64 \<Rightarrow> (out \<times> int) option" where
  "write_uint64 fd val = do {
     s \<leftarrow> fmt_fixed fmt_uint64 FMT_ULONG val;
     Some ([(fd, s)], 1) }"

section \<open>scan_hex\<close>

text \<open>The \<open>tolower\<close> of the C locale.\<close>

definition c_tolower :: "char \<Rightarrow> char" where
  "c_tolower c = (if 65 \<le> (of_char c :: nat) \<and> (of_char c :: nat) \<le> 90
     then char_of (of_char c + 32 :: nat) else c)"

text \<open>
  The digit that one round of the loop finds, with \<open>c\<close> a signed \<open>char\<close>; \<^term>\<open>None\<close> where
  the function returns.
\<close>

definition hex_digit :: "char \<Rightarrow> u8 option" where
  "hex_digit x = (let c = cval x - 48 in
     if sint c < 0 then None
     else if sint c \<le> 9 then Some c
     else let c = cval (c_tolower x) - 97 in
       if sint c < 0 \<or> sint c > 5 then None else Some (c + 10))"

text \<open>
  The value behind \<open>n\<close> has the width of the caller's variable: \<open>unsigned long\<close> in the
  definition of the function, \<open>uint32_t\<close> in its prototype in \<^verbatim>\<open>ustat.h\<close>.
\<close>

function scan_hex_loop ::
  "cstr \<Rightarrow> nat \<Rightarrow> nat \<Rightarrow> 'w::len word option \<Rightarrow> (nat \<times> 'w word option) option" where
  "scan_hex_loop s l i n = (if i < l then do {
     x \<leftarrow> rd s i;
     case hex_digit x of
       None \<Rightarrow> Some (i, n)
     | Some c \<Rightarrow> scan_hex_loop s l (i + 1) (map_option (\<lambda>n. push_bit 4 n + ucast c) n) }
     else Some (i, n))"
  by pat_completeness auto
termination
  by (relation "measure (\<lambda>(s, l, i, n). l - i)") auto

declare scan_hex_loop.simps [simp del]

definition scan_hex ::
  "cstr \<Rightarrow> nat \<Rightarrow> 'w::len word option \<Rightarrow> (nat \<times> 'w word option) option" where
  "scan_hex s l n = scan_hex_loop s l 0 n"

section \<open>os_getenv_or_def and os_exit\<close>

text \<open>
  The first argument is what \<open>getenv\<close> returns, a null pointer being \<^term>\<open>None\<close>; the result
  is the string stored through \<open>s\<close> and its length.
\<close>

definition os_getenv_or_def :: "cstr option \<Rightarrow> cstr \<Rightarrow> (cstr \<times> nat) option" where
  "os_getenv_or_def env def = do {
     e \<leftarrow> (case env of
            None \<Rightarrow> Some def
          | Some e \<Rightarrow> do { n \<leftarrow> str_len e; Some (if n = 0 then def else e) });
     n \<leftarrow> str_len e;
     Some (e, n) }"

text \<open>The writes before the process exits, and its exit code.\<close>

definition os_exit :: "int \<Rightarrow> cstr option \<Rightarrow> (out \<times> int) option" where
  "os_exit code msg = (case msg of
     None \<Rightarrow> Some ([], code)
   | Some m \<Rightarrow> do {
       n \<leftarrow> str_len m;
       Some ([(STDERR_FILENO, take n m), (STDERR_FILENO, [LF])], code) })"

section \<open>first_n_fields\<close>

definition stream_size :: "stream \<Rightarrow> nat" where
  "stream_size cs = length cs + length (content cs)"

lemma sys_read_size:
  "sys_read n cs = (r, s, cs') \<Longrightarrow> 0 < n \<Longrightarrow> 0 < r \<Longrightarrow> stream_size cs' < stream_size cs"
  by (cases "(n, cs)" rule: sys_read.cases) (auto simp: stream_size_def split: if_splits)

function first_n_fields_loop :: "nat \<Rightarrow> stream \<Rightarrow> char \<Rightarrow> int \<Rightarrow> out" where
  "first_n_fields_loop out_fd cs sep n = (case sys_read 1 cs of (r, s, cs') \<Rightarrow>
     if r \<le> 0 then [] else
     let c = s ! 0; n = (if c = sep then n - 1 else n) in
     if n \<le> 0 then [] else (out_fd, [c]) # first_n_fields_loop out_fd cs' sep n)"
  by pat_completeness auto
termination
  by (relation "measure (\<lambda>(out_fd, cs, sep, n). stream_size cs)") (auto intro!: sys_read_size [OF sym])

declare first_n_fields_loop.simps [simp del]

definition first_n_fields :: "nat \<Rightarrow> stream \<Rightarrow> char \<Rightarrow> int \<Rightarrow> out \<times> int" where
  "first_n_fields out_fd in_fd sep n = (first_n_fields_loop out_fd in_fd sep n, 1)"

section \<open>write_double and write_uint64_human\<close>

text \<open>\<open>for (n = 0; n < prec; n++) s *= 10;\<close> in \<open>int\<close>, whose overflow is undefined\<close>

fun scale10 :: "nat \<Rightarrow> int \<Rightarrow> int option" where
  "scale10 0 s = Some s"
| "scale10 (Suc k) s = (if s * 10 < 2 ^ 31 then scale10 k (s * 10) else None)"

definition write_double :: "nat \<Rightarrow> double \<Rightarrow> int \<Rightarrow> (out \<times> int) option" where
  "write_double fd val prec = do {
     let sign = (if d_neg val then [(fd, ''-'')] else []);
     u \<leftarrow> d_to_u64 val;
     ipart \<leftarrow> fmt_fixed fmt_ulong 20 u;
     if prec = 0 then Some (sign @ [(fd, ipart)], 1) else do {
     s \<leftarrow> scale10 (nat prec) 1;
     let val = d_add (d_mul val (d_of_int s)) (Fin (1 / 2));
     u \<leftarrow> d_to_u64 val;
     frac \<leftarrow> fmt_fixed fmt_ulong 20 (u mod word_of_int s);
     let zeros = replicate (nat (prec - int (length frac))) (fd, ''0'');
     Some (sign @ [(fd, ipart), (fd, ''.'')] @ zeros @ [(fd, frac)], 1) }}"

text \<open>The array \<open>human_suf\<close>, and its size, which counts the terminating NUL.\<close>

definition human_suf :: cstr where
  "human_suf = cstring ''_kmgt''"

definition last_suf :: nat where
  "last_suf = length human_suf"

function human_loop :: "u64 \<Rightarrow> u64 \<Rightarrow> u64 \<Rightarrow> nat \<Rightarrow> u64 \<times> nat" where
  "human_loop mn v scale suf =
     (if v div 1000 > mn \<and> suf < last_suf + 1
      then human_loop mn (v div 1000) (scale * 1000) (suf + 1)
      else (scale, suf))"
  by pat_completeness auto
termination
  by (relation "measure (\<lambda>(mn, v, scale, suf). last_suf + 1 - suf)") auto

declare human_loop.simps [simp del]

definition write_uint64_human :: "nat \<Rightarrow> u64 \<Rightarrow> u64 \<Rightarrow> (out \<times> int) option" where
  "write_uint64_human fd mn val = do {
     let (scale, suf) = human_loop mn val 1 0;
     (ws, _) \<leftarrow> write_double fd (d_div (d_of_u64 val) (d_of_u64 scale)) 2;
     if suf > 0 then do { c \<leftarrow> rd human_suf suf; Some (ws @ [(fd, [c])], 1) }
     else Some (ws, 1) }"

section \<open>read_double_from_fd\<close>

text \<open>
  \<open>pos += read(fd, &c, 1)\<close>: at the end of the file and on an error \<open>c\<close> keeps its value,
  and \<open>pos\<close> is unsigned.
\<close>

definition read1 :: "char \<Rightarrow> u64 \<Rightarrow> stream \<Rightarrow> char \<times> u64 \<times> stream" where
  "read1 c pos cs = (case sys_read 1 cs of (r, s, cs') \<Rightarrow>
     (if r > 0 then s ! 0 else c, pos + word_of_int r, cs'))"

text \<open>The loops may run forever: \<^term>\<open>None\<close> is a call that does not return.\<close>

partial_function (option) rd_spaces ::
  "char \<Rightarrow> u64 \<Rightarrow> stream \<Rightarrow> (char \<times> u64 \<times> stream) option" where
  "rd_spaces c pos cs =
     (if pos > 0 \<and> (c = CHR '' '' \<or> c = TAB)
      then (case read1 c pos cs of (c, pos, cs) \<Rightarrow> rd_spaces c pos cs)
      else Some (c, pos, cs))"

definition neg_char :: "char \<Rightarrow> bool" where
  "neg_char c \<longleftrightarrow> sint (cval c) < 0"

text \<open>The decimal loop either goes on to the fraction or returns from the function.\<close>

partial_function (option) rd_decimal ::
  "char \<Rightarrow> u64 \<Rightarrow> u64 \<Rightarrow> stream \<Rightarrow> (u64 + (char \<times> u64 \<times> u64 \<times> stream)) option" where
  "rd_decimal c pos n cs =
     (if neg_char c then Some (Inr (c, pos, n, cs))
      else if is_digit c
      then (case read1 c pos cs of (c', pos', cs') \<Rightarrow> rd_decimal c' pos' (n * 10 + digit_val c) cs')
      else if c = CHR ''.''
      then (case read1 c pos cs of (c', pos', cs') \<Rightarrow> Some (Inr (c', pos', n, cs')))
      else Some (Inl pos))"

partial_function (option) rd_fraction ::
  "char \<Rightarrow> u64 \<Rightarrow> u64 \<Rightarrow> u64 \<Rightarrow> stream \<Rightarrow> (u64 \<times> u64 \<times> u64) option" where
  "rd_fraction c pos n l cs =
     (if \<not> neg_char c \<and> is_digit c
      then (case read1 c pos cs of (c', pos', cs') \<Rightarrow>
        rd_fraction c' pos' (n * 10 + digit_val c) (l * 10) cs')
      else Some (pos, n, l))"

text \<open>The result and the value stored through \<open>val\<close>, if one is stored.\<close>

definition read_double_from_fd :: "stream \<Rightarrow> (u64 \<times> double option) option" where
  "read_double_from_fd fd = (case read1 NUL 0 fd of (c, pos, cs) \<Rightarrow> do {
     (c, pos, cs) \<leftarrow> rd_spaces c pos cs;
     let sign = (if c = CHR ''-'' then -1 else 1);
     let (c, pos, cs) = (if c = CHR ''-'' then read1 c pos cs else (c, pos, cs));
     if pos = 0 then Some (pos, Some (d_mul (Fin 0) (d_of_int sign))) else do {
     r \<leftarrow> rd_decimal c pos 0 cs;
     (case r of
       Inl pos \<Rightarrow> Some (pos, None)
     | Inr (c, pos, n, cs) \<Rightarrow> do {
         let v = d_of_u64 n;
         (pos, n, l) \<leftarrow> rd_fraction c pos 0 1 cs;
         let v = d_add v (d_mul (d_of_u64 n) (d_div (Fin 1) (d_of_u64 l)));
         Some (pos, Some (d_mul v (d_of_int sign))) }) }})"

section \<open>fmt_uint64 is fmt_ulong\<close>

lemma fmt_uint64_len_eq: "fmt_uint64_len v l = fmt_ulong_len v l"
proof (induction v l rule: fmt_uint64_len.induct)
  case (1 v l)
  then show ?case by (subst fmt_uint64_len.simps, subst fmt_ulong_len.simps) simp
qed

lemma fmt_uint64_fill_eq: "fmt_uint64_fill b s v = fmt_ulong_fill b s v"
proof (induction b s v rule: fmt_uint64_fill.induct)
  case (1 b s v)
  show ?case
    by (subst fmt_uint64_fill.simps, subst fmt_ulong_fill.simps)
      (use "1.IH" in \<open>auto intro!: Option.bind_cong\<close>)
qed

lemma fmt_uint64_fmt_ulong: "fmt_uint64 = fmt_ulong"
  by (intro ext) (simp add: fmt_uint64_def fmt_ulong_def fmt_uint64_len_eq fmt_uint64_fill_eq Let_def
    split: option.split)

interpretation u64_fmt: decimal_formatter fmt_uint64
  unfolding fmt_uint64_fmt_ulong by (rule djb_fmt.decimal_formatter_axioms)

lemma write_uint64_eq: "write_uint64 fd v = Some ([(fd, dec (unat v))], 1)"
  by (simp add: write_uint64_def u64_fmt.fixed_20 FMT_ULONG_def)

section \<open>Hexadecimal digits\<close>

lemma sint_u8: "sint (w :: u8) = (if unat w < 128 then int (unat w) else int (unat w) - 256)"
proof -
  have u: "int (unat w) = sint w mod 256"
    using uint_sint [of w] by (simp add: take_bit_eq_mod)
  have r: "- 128 \<le> sint w" "sint w < 128" using sint_ge [of w] sint_lt [of w] by simp_all
  show ?thesis
  proof (cases "0 \<le> sint w")
    case True
    with r u have "int (unat w) = sint w" by (simp add: mod_pos_pos_trivial)
    with r have "int (unat w) = sint w" "unat w < 128" by linarith+
    then show ?thesis by simp
  next
    case False
    have "sint w mod 256 = (sint w + 256) mod 256" by simp
    also have "\<dots> = sint w + 256" using False r by (intro mod_pos_pos_trivial) auto
    finally have "int (unat w) = sint w + 256" using u by linarith
    with r have "int (unat w) = sint w + 256" "\<not> unat w < 128" by linarith+
    then show ?thesis by simp
  qed
qed

definition is_xdigit :: "char \<Rightarrow> bool" where
  "is_xdigit c \<longleftrightarrow> is_digit c \<or> (65 \<le> (of_char c :: nat) \<and> (of_char c :: nat) \<le> 70)
    \<or> (97 \<le> (of_char c :: nat) \<and> (of_char c :: nat) \<le> 102)"

definition hval :: "char \<Rightarrow> nat" where
  "hval c = (if is_digit c then of_char c - 48
     else if of_char c \<le> (70 :: nat) then of_char c - 55 else of_char c - 87)"

lemma hval_less: "is_xdigit c \<Longrightarrow> hval c < 16"
  by (auto simp: is_xdigit_def hval_def is_digit_def)

lemma unat_sub48: "unat (cval c - 48) = (if of_char c < (48::nat) then of_char c + 208 else of_char c - 48)"
  using unat_cval_minus [of 48 c] by simp

lemma unat_sub97: "unat (cval c - 97) = (if of_char c < (97::nat) then of_char c + 159 else of_char c - 97)"
  using unat_cval_minus [of 97 c] by simp

lemma of_char_tolower: "of_char (c_tolower c) =
   (if 65 \<le> (of_char c :: nat) \<and> (of_char c :: nat) \<le> 90 then of_char c + 32 else (of_char c :: nat))"
  by (simp add: c_tolower_def)

lemma hex_digit_eq:
  "hex_digit x = (if is_xdigit x then Some (of_nat (hval x)) else None)"
proof -
  obtain n :: nat where n: "of_char x = n" "n < 256" using nat_of_char_less_256 by blast
  have a: "sint (cval x - 48) < 0 \<longleftrightarrow> n < 48 \<or> 176 \<le> n"
    "sint (cval x - 48) \<le> 9 \<longleftrightarrow> n \<le> 57 \<or> 176 \<le> n"
    using n(2) by (auto simp: sint_u8 unat_sub48 n(1))
  have b: "sint (cval (c_tolower x) - 97) < 0 \<or> sint (cval (c_tolower x) - 97) > 5 \<longleftrightarrow>
     \<not> (65 \<le> n \<and> n \<le> 70 \<or> 97 \<le> n \<and> n \<le> 102)"
    using n(2) by (auto simp: sint_u8 unat_sub97 of_char_tolower n(1))
  have c: "cval x - 48 = of_nat (hval x)" if "is_digit x"
  proof -
    have "unat (cval x - 48) = hval x" using that by (simp add: unat_sub48 is_digit_def hval_def)
    then have "of_nat (unat (cval x - 48)) = (of_nat (hval x) :: u8)" by simp
    then show ?thesis by simp
  qed
  have d: "cval (c_tolower x) - 97 + 10 = of_nat (hval x)" if "is_xdigit x" "\<not> is_digit x"
  proof -
    obtain w where w: "w = cval (c_tolower x) - 97" by simp
    have "unat w + 10 = hval x"
      using that n(2)
      by (auto simp: w n(1) unat_sub97 of_char_tolower is_xdigit_def is_digit_def hval_def)
    then have "of_nat (unat w + 10) = (of_nat (hval x) :: u8)" by simp
    then show ?thesis unfolding w [symmetric] by simp
  qed
  show ?thesis using n(2) c d
    unfolding hex_digit_def Let_def a b
    by (auto simp: is_xdigit_def is_digit_def n(1))
qed

section \<open>scan_hex\<close>

text \<open>The digits it accepts, and the value they add to the variable behind \<open>n\<close>.\<close>

definition hex_prefix :: "cstr \<Rightarrow> nat \<Rightarrow> string" where
  "hex_prefix s l = takeWhile is_xdigit (take l s)"

definition hex_shift :: "string \<Rightarrow> 'w::len word \<Rightarrow> 'w word" where
  "hex_shift ds n = foldl (\<lambda>v c. v * 16 + of_nat (hval c)) n ds"

lemma hex_shift_Nil [simp]: "hex_shift [] = id"
  by (simp add: fun_eq_iff hex_shift_def)

lemma hex_shift_Cons: "hex_shift (c # ds) = (\<lambda>v. hex_shift ds (v * 16 + of_nat (hval c)))"
  by (simp add: fun_eq_iff hex_shift_def)

lemma ucast_hval: "is_xdigit c \<Longrightarrow> ucast (of_nat (hval c) :: u8) = (of_nat (hval c) :: 'w::len word)"
proof -
  assume "is_xdigit c"
  then have "hval c < 2 ^ 8" using hval_less [of c] by simp
  then show ?thesis by (simp add: unsigned_of_nat take_bit_nat_eq_self)
qed

lemma scan_hex_loop_eq:
  "scan_hex_loop s l i n = (let ds = hex_prefix (drop i s) (l - i) in
     if i + length ds < length s \<or> l \<le> i + length ds
     then Some (i + length ds, map_option (hex_shift ds) n) else None)"
proof (induction s l i n rule: scan_hex_loop.induct)
  case (1 s l i n)
  show ?case
  proof (cases "i < l \<and> i < length s")
    case False
    then show ?thesis
      by (subst scan_hex_loop.simps) (auto simp: hex_prefix_def rd_def option.map_id0)
  next
    case True
    then have pre: "hex_prefix (drop i s) (l - i) = (if is_xdigit (s ! i)
        then s ! i # hex_prefix (drop (Suc i) s) (l - Suc i) else [])"
      by (simp add: hex_prefix_def Cons_nth_drop_Suc [symmetric] take_Cons')
    show ?thesis
    proof (cases "is_xdigit (s ! i)")
      case False
      with True show ?thesis
        by (subst scan_hex_loop.simps)
          (simp add: pre rd_def hex_digit_eq option.map_id0)
    next
      case d: True
      have "(push_bit 4 m + ucast (of_nat (hval (s ! i)) :: u8) :: 'a word) = m * 16 + of_nat (hval (s ! i))" for m
        by (simp add: ucast_hval [OF d] push_bit_eq_mult)
      with True d "1.IH" [of "s ! i" "of_nat (hval (s ! i))"] show ?thesis
        by (subst scan_hex_loop.simps)
          (simp add: pre rd_def hex_digit_eq Let_def option.map_comp comp_def hex_shift_Cons)
    qed
  qed
qed

lemma scan_hex_eq:
  "scan_hex s l n = (let ds = hex_prefix s l in
     if length ds < length s \<or> l \<le> length ds
     then Some (length ds, map_option (hex_shift ds) n) else None)"
  by (simp add: scan_hex_def scan_hex_loop_eq Let_def)

section \<open>os_getenv_or_def and first_n_fields\<close>

lemma os_getenv_or_def_eq:
  assumes "is_text d" and "\<And>e. env = Some e \<Longrightarrow> terminated e"
  shows "os_getenv_or_def env (cstring d) =
    (case env of
       Some e \<Rightarrow> if ctext e = [] then Some (cstring d, length d) else Some (e, length (ctext e))
     | None \<Rightarrow> Some (cstring d, length d))"
  using assms by (cases env) (auto simp: os_getenv_or_def_def str_len_eq)

lemma sys_read_1_clean:
  assumes "clean cs"
  shows "(cs = [] \<and> sys_read 1 cs = (0, [], [])) \<or>
    (\<exists>c cs'. sys_read 1 cs = (1, [c], cs') \<and> clean cs' \<and> content cs = c # content cs')"
proof (cases cs rule: clean.cases)
  case (3 s cs')
  with assms obtain c t where s: "s = c # t" by (cases s) auto
  with 3 assms show ?thesis by (cases t) auto
qed (use assms in auto)

text \<open>
  What the copied text is: the whole input when it has fewer than \<open>n\<close> separators, and
  otherwise what comes before the \<open>n\<close>th.
\<close>

definition fields_before :: "char \<Rightarrow> int \<Rightarrow> string \<Rightarrow> string \<Rightarrow> bool" where
  "fields_before sep n s out \<longleftrightarrow>
     (if n \<le> 0 then out = []
      else out = s \<and> int (count_list s sep) < n
        \<or> prefix (out @ [sep]) s \<and> int (count_list out sep) = n - 1)"

lemma fields_before_first_n:
  "clean cs \<Longrightarrow>
    fields_before sep n (content cs) (written fd (first_n_fields_loop fd cs sep n))"
proof (induction fd cs sep n rule: first_n_fields_loop.induct)
  case (1 fd cs sep n)
  from sys_read_1_clean [OF "1.prems"] show ?case
  proof
    assume "cs = [] \<and> sys_read 1 cs = (0, [], [])"
    then show ?thesis by (subst first_n_fields_loop.simps) (simp add: fields_before_def)
  next
    assume "\<exists>c cs'. sys_read 1 cs = (1, [c], cs') \<and> clean cs' \<and> content cs = c # content cs'"
    then obtain c cs' where c: "sys_read 1 cs = (1, [c], cs')" "clean cs'"
      "content cs = c # content cs'" by blast
    define m where "m = (if c = sep then n - 1 else n)"
    define rest where "rest = written fd (first_n_fields_loop fd cs' sep m)"
    have w: "written fd (first_n_fields_loop fd cs sep n) = (if m \<le> 0 then [] else c # rest)"
      by (subst first_n_fields_loop.simps) (use c in \<open>simp add: m_def rest_def Let_def\<close>)
    have "0 < m \<Longrightarrow> fields_before sep m (content cs') rest"
      unfolding rest_def m_def using c by (intro "1.IH") auto
    then show ?thesis unfolding w c(3) by (auto simp: m_def fields_before_def)
  qed
qed

section \<open>write_double with two decimals\<close>

definition pad2 :: "nat \<Rightarrow> string" where
  "pad2 f = replicate (2 - length (dec f)) (CHR ''0'') @ dec f"

lemma length_pad2: "f < 100 \<Longrightarrow> length (pad2 f) = 2"
  using length_dec_le [of 2 f] by (simp add: pad2_def)

lemma d_of_int_100: "d_of_int 100 = Fin 100"
  using d_of_int_exact [of 100] by simp

lemma scale10_2: "scale10 2 1 = Some 100"
  by (simp add: numeral_2_eq_2)

lemma unat_mod_100: "unat (w mod word_of_int 100 :: u64) = unat w mod 100"
  by (simp add: unat_mod)

lemma write_double_2:
  "write_double fd v 2 = do {
     u \<leftarrow> d_to_u64 v;
     w \<leftarrow> d_to_u64 (d_add (d_mul v (Fin 100)) (Fin (1 / 2)));
     Some ((if d_neg v then [(fd, ''-'')] else []) @
       [(fd, dec (unat u)), (fd, ''.'')] @
       replicate (2 - length (dec (unat w mod 100))) (fd, ''0'') @
       [(fd, dec (unat w mod 100))], 1) }"
proof -
  have "nat (2 - int l) = 2 - l" for l by simp
  then show ?thesis
    by (simp add: write_double_def djb_fmt.fixed_20 scale10_2 d_of_int_100 unat_mod Let_def)
qed

lemma written_zeros: "written fd (replicate k (fd, ''0'')) = replicate k (CHR ''0'')"
  by (induction k) auto

text \<open>The value, in hundredths, that the code rounds to.\<close>

definition hundredths :: "rat \<Rightarrow> int" where
  "hundredths r = \<lfloor>rnd_rat (rnd_rat (r * 100) + 1 / 2)\<rfloor>"

lemma rnd_rat_bounds:
  assumes "0 \<le> x" and "x \<le> 2 ^ k" and "k < 1024"
  shows "rnd x = Fin (rnd_rat x)" and "0 \<le> rnd_rat x" and "rnd_rat x \<le> 2 ^ k"
proof -
  show r: "0 \<le> rnd_rat x" "rnd_rat x \<le> 2 ^ k"
    using rnd_rat_ge [of 0 x] rnd_rat_le [of x "2 ^ k"] repr_int [of 0] repr_pow2 [of k] assms by auto
  have "(2 :: rat) ^ k < 2 ^ 1024" using assms(3) by (intro power_strict_increasing) auto
  with r show "rnd x = Fin (rnd_rat x)" by (simp add: rnd_def)
qed

lemma write_double_2_Fin:
  assumes "0 \<le> r" and "r \<le> 2 ^ 55"
  shows "\<exists>ws. write_double fd (Fin r) 2 = Some (ws, 1) \<and>
    written fd ws = dec (nat \<lfloor>r\<rfloor>) @ ''.'' @ pad2 (nat (hundredths r mod 100))"
proof -
  define a where "a = rnd_rat (r * 100)"
  have a: "rnd (r * 100) = Fin a" "0 \<le> a" "a \<le> 2 ^ 62"
    using rnd_rat_bounds [of "r * 100" 62] assms by (auto simp: a_def)
  define b where "b = rnd_rat (a + 1 / 2)"
  have b: "rnd (a + 1 / 2) = Fin b" "0 \<le> b" "b \<le> 2 ^ 63"
    using rnd_rat_bounds [of "a + 1 / 2" 63] a by (auto simp: b_def)
  have h: "hundredths r = \<lfloor>b\<rfloor>" by (simp add: hundredths_def a_def b_def)
  have u: "d_to_u64 (Fin r) = Some (word_of_int \<lfloor>r\<rfloor>)" "unat (word_of_int \<lfloor>r\<rfloor> :: u64) = nat \<lfloor>r\<rfloor>"
    using assms d_to_u64_nonneg [of r] uint_word_of_floor [of r] by (auto simp flip: nat_uint_eq)
  have w: "d_to_u64 (Fin b) = Some (word_of_int \<lfloor>b\<rfloor>)" "unat (word_of_int \<lfloor>b\<rfloor> :: u64) = nat \<lfloor>b\<rfloor>"
    using b d_to_u64_nonneg [of b] uint_word_of_floor [of b] by (auto simp flip: nat_uint_eq)
  have m: "nat \<lfloor>b\<rfloor> mod 100 = nat (hundredths r mod 100)"
    using b(2) by (simp add: h nat_mod_distrib)
  show ?thesis
    using assms(1) by (simp add: write_double_2 a(1) b(1) u w m pad2_def written_zeros del: d_to_u64.simps)
qed

lemma hundredths_bounds:
  assumes "0 \<le> r" and "r < 2 ^ 45"
  shows "100 * \<lfloor>r\<rfloor> \<le> hundredths r" and "hundredths r \<le> 100 * \<lfloor>r\<rfloor> + 100"
proof -
  obtain n where n: "n = \<lfloor>r\<rfloor>" by simp
  then have nr: "of_int n \<le> r" "r < of_int n + 1" "0 \<le> n" using assms(1) by linarith+
  have "of_int n < (of_int (2 ^ 45) :: rat)" using nr(1) assms(2) by simp
  then have n45: "n < 2 ^ 45" by (simp only: of_int_less_iff)
  then have rep: "repr (of_int (100 * n))" "repr (of_int (100 * n + 100))"
    using nr(3) by (intro repr_int; simp)+
  have half: "repr (of_int (100 * n + 100) + 1 / 2)"
    unfolding repr_def
    by (rule exI [of _ "200 * n + 201"], rule exI [of _ "-1"]) (use nr(3) n45 in \<open>simp add: field_simps\<close>)
  define a where "a = rnd_rat (r * 100)"
  have a: "of_int (100 * n) \<le> a" "a \<le> of_int (100 * n + 100)"
    unfolding a_def using nr rep by (intro rnd_rat_ge rnd_rat_le; simp)+
  define b where "b = rnd_rat (a + 1 / 2)"
  have b: "of_int (100 * n) \<le> b" "b \<le> of_int (100 * n + 100) + 1 / 2"
    unfolding b_def using a nr(3) rep half by (intro rnd_rat_ge rnd_rat_le; simp)+
  have h: "hundredths r = \<lfloor>b\<rfloor>" by (simp add: hundredths_def a_def b_def)
  show "100 * \<lfloor>r\<rfloor> \<le> hundredths r" "hundredths r \<le> 100 * \<lfloor>r\<rfloor> + 100"
    using b unfolding h n [symmetric] by linarith+
qed

section \<open>write_uint64_human\<close>

text \<open>How often the loop divides by 1000, for the minimum 1 that every caller passes.\<close>

fun units :: "nat \<Rightarrow> nat" where
  "units v = (if v div 1000 > 1 then Suc (units (v div 1000)) else 0)"

declare units.simps [simp del]

lemma units_le: "units v \<le> i \<longleftrightarrow> v < 2000 * 1000 ^ i"
proof (induction v arbitrary: i rule: units.induct)
  case (1 v)
  show ?case
  proof (cases "v div 1000 > 1")
    case False
    have "2000 * 1 \<le> (2000 * 1000 ^ i :: nat)" by (intro mult_le_mono) auto
    moreover have "v < 2000" using False by linarith
    ultimately have "v < 2000 * 1000 ^ i" by linarith
    with False show ?thesis by (subst units.simps) simp
  next
    case True
    show ?thesis
    proof (cases i)
      case 0
      with True show ?thesis by (subst units.simps) auto
    next
      case (Suc j)
      have "units v \<le> i \<longleftrightarrow> v div 1000 < 2000 * 1000 ^ j"
        using True Suc "1.IH" [of j] by (subst units.simps) simp
      also have "\<dots> \<longleftrightarrow> v < 2000 * 1000 ^ i"
        by (simp add: Suc div_less_iff_less_mult mult.commute mult.left_commute)
      finally show ?thesis .
    qed
  qed
qed

lemma units_u64: "units (unat (v :: u64)) \<le> 6"
proof -
  have "unat v < 2 ^ 64" using unsigned_less [of v, where 'a = nat] by simp
  then show ?thesis by (simp add: units_le)
qed

lemma last_suf_6: "last_suf = 6"
  by (simp add: last_suf_def human_suf_def)

lemma human_loop_eq:
  "suf + units (unat v) \<le> 7 \<Longrightarrow>
    human_loop 1 v scale suf = (scale * 1000 ^ units (unat v), suf + units (unat v))"
proof (induction "unat v" arbitrary: v scale suf rule: units.induct)
  case 1
  have d: "unat (v div 1000) = unat v div 1000" by (simp add: unat_div)
  have c: "v div 1000 > 1 \<longleftrightarrow> unat v div 1000 > 1" by (simp add: word_less_nat_alt d)
  show ?case
  proof (cases "unat v div 1000 > 1")
    case True
    then have u: "units (unat v) = Suc (units (unat (v div 1000)))"
      by (subst units.simps) (simp add: d)
    have IH: "human_loop 1 (v div 1000) (scale * 1000) (suf + 1) =
        (scale * 1000 * 1000 ^ units (unat (v div 1000)), suf + 1 + units (unat (v div 1000)))"
      using "1.prems" u True by (intro "1.hyps") (simp_all add: d)
    show ?thesis
      by (subst human_loop.simps) (use True c u IH "1.prems" in \<open>simp add: last_suf_6 mult.assoc\<close>)
  next
    case False
    then have "units (unat v) = 0" by (subst units.simps) simp
    then show ?thesis by (subst human_loop.simps) (use False c in simp)
  qed
qed

text \<open>The quotient the function prints.\<close>

definition human_quotient :: "nat \<Rightarrow> rat" where
  "human_quotient v = rnd_rat (rnd_rat (of_nat v) / 1000 ^ units v)"

lemma repr_1000_pow: "i \<le> 7 \<Longrightarrow> j \<le> 11 \<Longrightarrow> repr (2 ^ j * 1000 ^ i)"
proof -
  assume i: "i \<le> 7" and j: "j \<le> 11"
  have "(125::int) ^ i \<le> 125 ^ 7" using i by (intro power_increasing) auto
  then have "\<bar>125 ^ i :: int\<bar> < 2 ^ 53" by simp
  moreover have "2 ^ j * 1000 ^ i = of_int (125 ^ i) * p2 (int (j + 3 * i))"
    by (simp add: power_add power_mult flip: power_mult_distrib del: of_nat_add of_nat_mult)
  ultimately show ?thesis unfolding repr_def by (metis le_add_same_cancel1 of_nat_0_le_iff order_trans neg_le_0_iff_le zero_le_numeral)
qed

lemma unat_pow_1000: "i \<le> 6 \<Longrightarrow> unat (1000 ^ i :: u64) = 1000 ^ i"
proof -
  assume "i \<le> 6"
  then have "(1000::nat) ^ i \<le> 1000 ^ 6" by (intro power_increasing) auto
  then have "(1000::nat) ^ i < 2 ^ 64" by simp
  moreover have "(1000 ^ i :: u64) = of_nat (1000 ^ i)" by simp
  ultimately show ?thesis by (simp only: unat_of_nat) simp
qed

lemma d_of_u64_eq: "d_of_u64 v = Fin (rnd_rat (of_nat (unat v)))"
proof -
  have "unat v < 2 ^ 64" using unsigned_less [of v, where 'a = nat] by simp
  then have "(of_nat (unat v) :: rat) \<le> of_nat (2 ^ 64)" by (simp only: of_nat_le_iff)
  moreover have "(0 :: rat) \<le> of_nat (unat v)" by (rule of_nat_0_le_iff)
  ultimately show ?thesis
    using rnd_rat_bounds(1) [of "of_nat (unat v)" 64] by (simp add: d_of_u64_def d_of_int_def)
qed

lemma human_quotient_bounds:
  assumes "units v \<le> 6"
  shows "0 \<le> human_quotient v" and "human_quotient v \<le> 2048"
    and "rnd (rnd_rat (of_nat v) / 1000 ^ units v) = Fin (human_quotient v)"
proof -
  have "v < 2000 * 1000 ^ units v" using units_le [of v "units v"] by simp
  also have "\<dots> \<le> 2 ^ 11 * 1000 ^ units v" by simp
  finally have "of_nat v \<le> (of_nat (2 ^ 11 * 1000 ^ units v) :: rat)"
    by (simp only: of_nat_le_iff less_imp_le)
  then have "0 \<le> rnd_rat (of_nat v)" "rnd_rat (of_nat v) \<le> 2 ^ 11 * 1000 ^ units v"
    using rnd_rat_ge [of 0 "of_nat v"] rnd_rat_le [of "of_nat v" "2 ^ 11 * 1000 ^ units v"]
      repr_1000_pow [of "units v" 11] repr_int [of 0] assms by auto
  then have "0 \<le> rnd_rat (of_nat v) / 1000 ^ units v" "rnd_rat (of_nat v) / 1000 ^ units v \<le> 2 ^ 11"
    by (simp_all add: pos_divide_le_eq)
  from rnd_rat_bounds [OF this] show "0 \<le> human_quotient v" "human_quotient v \<le> 2048"
    "rnd (rnd_rat (of_nat v) / 1000 ^ units v) = Fin (human_quotient v)"
    by (simp_all add: human_quotient_def)
qed

lemma d_of_u64_scale: "i \<le> 6 \<Longrightarrow> d_of_u64 (1000 ^ i) = Fin (1000 ^ i)"
  using rnd_rat_repr [OF repr_1000_pow [of i 0]] by (simp add: d_of_u64_eq unat_pow_1000)

text \<open>The unit character that is read for a number of divisions, if it is within the array.\<close>

lemma write_uint64_human_1:
  fixes v :: u64
  defines "i \<equiv> units (unat v)" and "q \<equiv> human_quotient (unat v)"
  shows "if i \<le> 5
    then \<exists>ws. write_uint64_human fd 1 v = Some (ws, 1) \<and>
      written fd ws = dec (nat \<lfloor>q\<rfloor>) @ ''.'' @ pad2 (nat (hundredths q mod 100)) @
        (if i = 0 then [] else [human_suf ! i])
    else write_uint64_human fd 1 v = None"
proof -
  have i: "i \<le> 6" using units_u64 by (simp add: i_def)
  have loop: "human_loop 1 v 1 0 = (1000 ^ i, i)"
    using human_loop_eq [of 0 v 1] i by (simp add: i_def)
  have q: "0 \<le> q" "q \<le> 2048" using human_quotient_bounds i by (simp_all add: i_def q_def)
  have div: "d_div (d_of_u64 v) (d_of_u64 (1000 ^ i)) = Fin q"
    unfolding d_of_u64_scale [OF i] unfolding d_of_u64_eq
    using human_quotient_bounds(3) [of "unat v"] i by (simp add: i_def q_def)
  have "q \<le> 2 ^ 55" using q(2) by simp
  from write_double_2_Fin [OF q(1) this] obtain ws where
    ws: "write_double fd (Fin q) 2 = Some (ws, 1)"
      "written fd ws = dec (nat \<lfloor>q\<rfloor>) @ ''.'' @ pad2 (nat (hundredths q mod 100))" by blast
  have suf: "rd human_suf i = (if i \<le> 5 then Some (human_suf ! i) else None)"
    by (auto simp: rd_def human_suf_def)
  show ?thesis
    using ws by (auto simp: write_uint64_human_def loop div suf)
qed

text \<open>Exact multiples of a unit print exactly.\<close>

lemma human_quotient_exact:
  assumes "n < 2000" and "i \<le> 4" and "i = 0 \<or> 2 \<le> n"
  shows "units (n * 1000 ^ i) = i" and "human_quotient (n * 1000 ^ i) = of_nat n"
proof -
  show u: "units (n * 1000 ^ i) = i"
  proof (rule antisym)
    show "units (n * 1000 ^ i) \<le> i" using assms(1) by (simp add: units_le)
    show "i \<le> units (n * 1000 ^ i)"
    proof (cases i)
      case (Suc j)
      then have "\<not> n * 1000 ^ i < 2000 * 1000 ^ j" using assms(3) by simp
      then have "\<not> units (n * 1000 ^ i) \<le> j" by (simp only: units_le) simp
      then show ?thesis using Suc by simp
    qed simp
  qed
  have "n * 1000 ^ i \<le> 2000 * 1000 ^ 4"
    using assms by (intro mult_le_mono power_increasing) auto
  then have "n * 1000 ^ i < 2 ^ 53" by simp
  then have "int (n * 1000 ^ i) < int (2 ^ 53)" by (simp only: of_nat_less_iff)
  then have "\<bar>int (n * 1000 ^ i)\<bar> < 2 ^ 53" by simp
  from rnd_rat_repr [OF repr_int [OF this]] have "rnd_rat (of_nat (n * 1000 ^ i)) = of_nat n * 1000 ^ i"
    by simp
  moreover have "rnd_rat (of_nat n) = of_nat n"
    using rnd_rat_repr [OF repr_int [of "int n"]] assms(1) by simp
  ultimately show "human_quotient (n * 1000 ^ i) = of_nat n"
    by (simp add: human_quotient_def u)
qed

lemma hundredths_nat:
  assumes "n < 2 ^ 32"
  shows "hundredths (of_nat n) = 100 * int n"
proof -
  have "rnd_rat (of_nat n * 100) = of_nat n * 100"
    using rnd_rat_repr [OF repr_int [of "int n * 100"]] assms by simp
  moreover have "repr (of_nat n * 100 + 1 / 2)"
    unfolding repr_def
    by (rule exI [of _ "200 * int n + 1"], rule exI [of _ "-1"]) (use assms in \<open>simp add: field_simps\<close>)
  then have "rnd_rat (of_nat n * 100 + 1 / 2) = of_nat n * 100 + 1 / 2" by (rule rnd_rat_repr)
  moreover have "\<lfloor>of_nat n * 100 + 1 / 2 :: rat\<rfloor> = 100 * int n"
    by (rule floor_unique) simp_all
  ultimately show ?thesis by (simp add: hundredths_def)
qed

section \<open>read_double_from_fd\<close>

lemma neg_char_eq: "neg_char c \<longleftrightarrow> 128 \<le> (of_char c :: nat)"
  by (auto simp: neg_char_def sint_u8)

lemma digit_not_neg: "is_digit c \<Longrightarrow> \<not> neg_char c"
  by (simp add: neg_char_eq is_digit_def)

lemma read1_Cons:
  assumes "clean cs" and "content cs = c # s"
  shows "\<exists>cs'. read1 x pos cs = (c, pos + 1, cs') \<and> clean cs' \<and> content cs' = s"
  using sys_read_1_clean [OF assms(1)] assms(2) by (auto simp: read1_def)

lemma read1_Nil: "read1 c pos [] = (c, pos, [])"
  by (simp add: read1_def)

text \<open>At the end of the file the last byte is seen again and again.\<close>

lemma rd_decimal_eof:
  assumes "is_digit c"
  shows "rd_decimal c pos n [] = None"
proof (rule ccontr)
  assume "rd_decimal c pos n [] \<noteq> None"
  then obtain r where "rd_decimal c pos n [] = Some r" by auto
  then have "\<not> (is_digit c \<and> [] = ([] :: stream))"
    by (rule rd_decimal.raw_induct [where P = "\<lambda>c pos n cs r. \<not> (is_digit c \<and> cs = [])", rotated])
      (auto simp: read1_Nil digit_not_neg split: if_splits, blast)
  with assms show False by simp
qed

lemma rd_fraction_eof:
  assumes "is_digit c"
  shows "rd_fraction c pos n l [] = None"
proof (rule ccontr)
  assume "rd_fraction c pos n l [] \<noteq> None"
  then obtain r where "rd_fraction c pos n l [] = Some r" by auto
  then have "\<not> (is_digit c \<and> [] = ([] :: stream))"
    by (rule rd_fraction.raw_induct [where P = "\<lambda>c pos n l cs r. \<not> (is_digit c \<and> cs = [])", rotated])
      (auto simp: read1_Nil digit_not_neg split: if_splits, blast)
  with assms show False by simp
qed

definition dshift :: "string \<Rightarrow> u64 \<Rightarrow> u64" where
  "dshift ds n = foldl (\<lambda>v c. v * 10 + digit_val c) n ds"

lemma dshift_0: "\<forall>c \<in> set ds. is_digit c \<Longrightarrow> dshift ds 0 = of_nat (undec ds)"
proof -
  assume d: "\<forall>c \<in> set ds. is_digit c"
  then have "foldl (\<lambda>v c. v * 10 + digit_val c) n ds = foldl (\<lambda>v c. v * 10 + of_nat (dval c)) n ds" for n
    by (intro foldl_cong) (auto simp: digit_val_digit)
  then show ?thesis using foldl_digits_word [of 0 ds] by (simp add: dshift_def undec_def)
qed

lemma rd_decimal_digits:
  assumes "is_digit c" and "\<forall>d \<in> set ds. is_digit d" and "clean cs" and "content cs = ds @ x # s"
  shows "\<exists>cs' pos'. clean cs' \<and> content cs' = s \<and>
    rd_decimal c pos n cs = rd_decimal x pos' (dshift (c # ds) n) cs' \<and> pos' = pos + of_nat (Suc (length ds))"
  using assms
proof (induction ds arbitrary: c pos n cs)
  case Nil
  then obtain cs' where "read1 c pos cs = (x, pos + 1, cs')" "clean cs'" "content cs' = s"
    using read1_Cons [of cs x s c pos] by auto
  with Nil show ?case
    by (subst rd_decimal.simps) (auto simp: digit_not_neg dshift_def)
next
  case (Cons d ds)
  then obtain cs' where cs': "read1 c pos cs = (d, pos + 1, cs')" "clean cs'" "content cs' = ds @ x # s"
    using read1_Cons [of cs d "ds @ x # s" c pos] by auto
  with Cons obtain cs'' where "clean cs''" "content cs'' = s"
    "rd_decimal d (pos + 1) (n * 10 + digit_val c) cs' =
      rd_decimal x (pos + 1 + of_nat (Suc (length ds))) (dshift (d # ds) (n * 10 + digit_val c)) cs''"
    using Cons.IH [of d cs' "pos + 1" "n * 10 + digit_val c"] by auto
  with Cons.prems cs' show ?case
    by (subst rd_decimal.simps) (auto simp: digit_not_neg dshift_def add.assoc intro!: exI [of _ cs''])
qed

lemma rd_decimal_digits_eof:
  assumes "is_digit c" and "\<forall>d \<in> set ds. is_digit d" and "clean cs" and "content cs = ds"
  shows "rd_decimal c pos n cs = None"
  using assms
proof (induction ds arbitrary: c pos n cs)
  case Nil
  then show ?case by (simp add: clean_content_Nil rd_decimal_eof)
next
  case (Cons d ds)
  then obtain cs' where cs': "read1 c pos cs = (d, pos + 1, cs')" "clean cs'" "content cs' = ds"
    using read1_Cons [of cs d ds c pos] by auto
  with Cons show ?case by (subst rd_decimal.simps) (simp add: digit_not_neg)
qed

lemma rd_fraction_digits:
  assumes "is_digit c" and "\<forall>d \<in> set ds. is_digit d" and "clean cs" and "content cs = ds @ x # s"
    and "\<not> is_digit x"
  shows "rd_fraction c pos n l cs =
    Some (pos + of_nat (Suc (length ds)), dshift (c # ds) n, l * 10 ^ Suc (length ds))"
  using assms
proof (induction ds arbitrary: c pos n l cs)
  case Nil
  then obtain cs' where "read1 c pos cs = (x, pos + 1, cs')" "clean cs'" "content cs' = s"
    using read1_Cons [of cs x s c pos] by auto
  moreover have "rd_fraction x (pos + 1) (n * 10 + digit_val c) (l * 10) cs' =
      Some (pos + 1, n * 10 + digit_val c, l * 10)"
    using Nil by (subst rd_fraction.simps) simp
  ultimately show ?case
    using Nil by (subst rd_fraction.simps) (simp add: digit_not_neg dshift_def)
next
  case (Cons d ds)
  then obtain cs' where cs': "read1 c pos cs = (d, pos + 1, cs')" "clean cs'" "content cs' = ds @ x # s"
    using read1_Cons [of cs d "ds @ x # s" c pos] by auto
  with Cons show ?case
    by (subst rd_fraction.simps) (simp add: digit_not_neg dshift_def add.assoc mult.assoc)
qed

lemma rd_spaces_other: "c \<noteq> CHR '' '' \<Longrightarrow> c \<noteq> TAB \<Longrightarrow> rd_spaces c pos cs = Some (c, pos, cs)"
  by (subst rd_spaces.simps) simp

lemma digit_chars:
  assumes "is_digit c"
  shows "c \<noteq> CHR '' ''" and "c \<noteq> TAB" and "c \<noteq> CHR ''-''" and "c \<noteq> CHR ''.''" and "c \<noteq> LF"
  using assms by (auto simp: is_digit_def)

lemma dot_not_digit [simp]: "\<not> is_digit (CHR ''.'')" "\<not> neg_char (CHR ''.'')"
  by (simp_all add: is_digit_def neg_char_eq)

text \<open>A number that ends with the file: the call never returns.\<close>

lemma read_double_hangs:
  assumes "clean cs" and "content cs = c # ds" and "\<forall>d \<in> set (c # ds). is_digit d"
  shows "read_double_from_fd cs = None"
proof -
  from assms obtain cs' where r: "read1 NUL 0 cs = (c, 1, cs')" "clean cs'" "content cs' = ds"
    using read1_Cons [of cs c ds NUL 0] by auto
  from assms(3) have c: "is_digit c" by simp
  have "rd_decimal c 1 0 cs' = None"
    using r assms(3) by (intro rd_decimal_digits_eof) auto
  then show ?thesis
    using digit_chars [OF c] by (simp add: read_double_from_fd_def r rd_spaces_other Let_def)
qed

text \<open>An integer before another byte: the call returns, and nothing is stored.\<close>

lemma read_double_integer:
  assumes "clean cs" and "content cs = c # ds @ x # s" and "\<forall>d \<in> set (c # ds). is_digit d"
    and "\<not> is_digit x" and "x \<noteq> CHR ''.''" and "\<not> neg_char x"
  shows "read_double_from_fd cs = Some (of_nat (length ds + 2), None)"
proof -
  from assms obtain cs' where r: "read1 NUL 0 cs = (c, 1, cs')" "clean cs'" "content cs' = ds @ x # s"
    using read1_Cons [of cs c "ds @ x # s" NUL 0] by auto
  from assms(3) have c: "is_digit c" by simp
  obtain cs'' where "rd_decimal c 1 0 cs' =
      rd_decimal x (1 + of_nat (Suc (length ds))) (dshift (c # ds) 0) cs''"
    using rd_decimal_digits [OF c _ r(2,3)] assms(3) by fastforce
  also have "\<dots> = Some (Inl (1 + of_nat (Suc (length ds))))"
    using assms by (subst rd_decimal.simps) simp
  finally show ?thesis
    using digit_chars [OF c] by (simp add: read_double_from_fd_def r rd_spaces_other Let_def)
qed

text \<open>Digits, a point, digits and another byte: the value is stored.\<close>

lemma read_double_fraction:
  assumes "clean cs" and "content cs = c # ds @ CHR ''.'' # f # fs @ x # s"
    and "\<forall>d \<in> set (c # ds). is_digit d" and "\<forall>d \<in> set (f # fs). is_digit d" and "\<not> is_digit x"
  shows "read_double_from_fd cs =
    Some (of_nat (length ds + length fs + 4),
      Some (d_mul (d_add (d_of_u64 (of_nat (undec (c # ds))))
        (d_mul (d_of_u64 (of_nat (undec (f # fs))))
          (d_div (Fin 1) (d_of_u64 (10 ^ Suc (length fs)))))) (d_of_int 1)))"
proof -
  from assms obtain cs1 where r: "read1 NUL 0 cs = (c, 1, cs1)" "clean cs1"
      "content cs1 = ds @ CHR ''.'' # f # fs @ x # s"
    using read1_Cons [of cs c "ds @ CHR ''.'' # f # fs @ x # s" NUL 0] by auto
  from assms(3,4) have c: "is_digit c" "is_digit f" by simp_all
  define p :: u64 where "p = 1 + of_nat (Suc (length ds))"
  obtain cs2 where cs2: "clean cs2" "content cs2 = f # fs @ x # s" "rd_decimal c 1 0 cs1 =
      rd_decimal (CHR ''.'') p (dshift (c # ds) 0) cs2"
    unfolding p_def using rd_decimal_digits [OF c(1) _ r(2,3)] assms(3) by fastforce
  obtain cs3 where cs3: "read1 (CHR ''.'') p cs2 = (f, p + 1, cs3)" "clean cs3" "content cs3 = fs @ x # s"
    using read1_Cons [OF cs2(1,2)] by blast
  have dec: "rd_decimal c 1 0 cs1 = Some (Inr (f, p + 1, dshift (c # ds) 0, cs3))"
    unfolding cs2(3) by (subst rd_decimal.simps) (simp add: cs3(1))
  have frac: "rd_fraction f (p + 1) 0 1 cs3 =
      Some (p + 1 + of_nat (Suc (length fs)), dshift (f # fs) 0, 10 ^ Suc (length fs))"
    using rd_fraction_digits [OF c(2) _ cs3(2,3) assms(5)] assms(4) by simp
  have len: "p + 1 + of_nat (Suc (length fs)) = of_nat (length ds + length fs + 4)"
    by (simp add: p_def)
  show ?thesis
    using digit_chars [OF c(1)] frac dshift_0 [OF assms(3)] dshift_0 [OF assms(4)] unfolding len
    by (simp add: read_double_from_fd_def r rd_spaces_other dec Let_def)
qed

lemma hundredths_round:
  assumes "0 \<le> r" and "r < 2 ^ 45"
  shows "\<lfloor>100 * r + 1 / 2\<rfloor> \<le> hundredths r" and "hundredths r \<le> \<lfloor>100 * r + 1 / 2\<rfloor> + 1"
proof -
  define k where "k = \<lfloor>100 * r + 1 / 2\<rfloor>"
  have k: "of_int k \<le> 100 * r + 1 / 2" "100 * r + 1 / 2 < of_int k + 1" "0 \<le> k"
    using assms(1) unfolding k_def by linarith+
  have "of_int k < (of_int (2 ^ 52) :: rat)" using k(1) assms(2) by simp
  then have k52: "k < 2 ^ 52" by (simp only: of_int_less_iff)
  have half: "repr (of_int j + 1 / 2)" if "-1 \<le> j" "j < 2 ^ 52" for j
  proof -
    have "\<bar>2 * j + 1\<bar> < 2 ^ 53" using that by simp
    then show ?thesis
      unfolding repr_def by (intro exI [of _ "2 * j + 1"] exI [of _ "-1"]) (simp add: field_simps)
  qed
  have int: "repr (of_int j)" if "0 \<le> j" "j \<le> 2 ^ 52" for j
    using that by (intro repr_int) auto
  define a where "a = rnd_rat (r * 100)"
  define b where "b = rnd_rat (a + 1 / 2)"
  have h: "hundredths r = \<lfloor>b\<rfloor>" by (simp add: hundredths_def a_def b_def)
  have a0: "0 \<le> a" unfolding a_def using assms(1) repr_int [of 0] by (intro rnd_rat_ge) simp_all
  have "a \<le> of_int k + 1 / 2"
    unfolding a_def using k half [of k] k52 assms(1) by (intro rnd_rat_le) simp_all
  then have "b \<le> of_int (k + 1)"
    unfolding b_def using a0 int [of "k + 1"] k k52 by (intro rnd_rat_le) simp_all
  then show "hundredths r \<le> \<lfloor>100 * r + 1 / 2\<rfloor> + 1" unfolding h k_def [symmetric] by linarith
  show "\<lfloor>100 * r + 1 / 2\<rfloor> \<le> hundredths r"
  proof (cases "k = 0")
    case True
    have "0 \<le> \<lfloor>r\<rfloor>" using assms(1) by simp
    then have "0 \<le> hundredths r" using hundredths_bounds(1) [OF assms] by linarith
    with True show ?thesis by (simp add: k_def)
  next
    case False
    have "of_int (k - 1) + 1 / 2 \<le> a"
      unfolding a_def using False k half [of "k - 1"] k52 assms(1) by (intro rnd_rat_ge) simp_all
    then have "of_int k \<le> b"
      unfolding b_def using int [of k] k k52 by (intro rnd_rat_ge) simp_all
    then show ?thesis unfolding h k_def [symmetric] by linarith
  qed
qed

lemma hundredths_carry:
  assumes "0 \<le> r" and "r < 2 ^ 45" and "of_int \<lfloor>r\<rfloor> + 199 / 200 \<le> r"
  shows "hundredths r = 100 * \<lfloor>r\<rfloor> + 100"
proof -
  have "of_int (100 * \<lfloor>r\<rfloor> + 100) \<le> 100 * r + 1 / 2" using assms(3) by simp
  then have "100 * \<lfloor>r\<rfloor> + 100 \<le> \<lfloor>100 * r + 1 / 2\<rfloor>" by (simp only: le_floor_iff)
  then show ?thesis
    using hundredths_round(1) [OF assms(1,2)] hundredths_bounds(2) [OF assms(1,2)] by linarith
qed

section \<open>Ratios\<close>

lemma ratio_quotient:
  assumes "a \<le> b" and "0 < b"
  shows "d_div (Fin (of_nat a)) (Fin (of_nat b)) = Fin (rnd_rat (of_nat a / of_nat b))"
    and "0 \<le> rnd_rat (of_nat a / of_nat b)" and "rnd_rat (of_nat a / of_nat b) \<le> 1"
proof -
  have "0 \<le> (of_nat a / of_nat b :: rat)" "(of_nat a / of_nat b :: rat) \<le> 2 ^ 0"
    using assms by (simp_all add: pos_divide_le_eq)
  from rnd_rat_bounds [OF this] assms(2)
  show "d_div (Fin (of_nat a)) (Fin (of_nat b)) = Fin (rnd_rat (of_nat a / of_nat b))"
    "0 \<le> rnd_rat (of_nat a / of_nat b)" "rnd_rat (of_nat a / of_nat b) \<le> 1"
    by simp_all
qed

lemma ratio_quotient_less:
  assumes "a < b" and "b < 2 ^ 53"
  shows "rnd_rat (of_nat a / of_nat b) < 1"
proof -
  define u :: rat where "u = p2 (-53)"
  have "p2 53 = 9007199254740992" by simp
  moreover have "p2 53 * u = 1" unfolding u_def p2_add [symmetric] by simp
  ultimately have u: "0 < u" "9007199254740992 * u = 1" by (simp_all add: u_def)
  define z where "z = 9007199254740991 * u"
  have z: "repr z"
  proof -
    have "z = of_int 9007199254740991 * p2 (-53)" by (simp only: z_def u_def of_int_numeral)
    moreover have "\<bar>9007199254740991 :: int\<bar> < 2 ^ 53" "-1074 \<le> (-53 :: int)" by simp_all
    ultimately show ?thesis unfolding repr_def by blast
  qed
  have z1: "z = 1 - u" using u(2) by (simp add: z_def)
  have "2 ^ 53 * a + b \<le> 2 ^ 53 * b"
  proof -
    have "2 ^ 53 * (a + 1) \<le> 2 ^ 53 * b" using assms(1) by (intro mult_le_mono) auto
    with assms(2) show ?thesis by simp
  qed
  then have "of_nat (2 ^ 53 * a + b) \<le> (of_nat (2 ^ 53 * b) :: rat)" by (simp only: of_nat_le_iff)
  then have "9007199254740992 * of_nat a + of_nat b \<le> 9007199254740992 * (of_nat b :: rat)" by simp
  then have "u * (9007199254740992 * of_nat a + of_nat b) \<le> u * (9007199254740992 * (of_nat b :: rat))"
    using u(1) by (intro mult_left_mono) simp_all
  then have "(9007199254740992 * u) * of_nat a + u * of_nat b \<le> (9007199254740992 * u) * (of_nat b :: rat)"
    by (simp only: distrib_left mult.assoc mult.left_commute)
  then have "of_nat a + u * of_nat b \<le> (of_nat b :: rat)" unfolding u(2) by simp
  then have "of_nat a \<le> z * (of_nat b :: rat)" by (simp add: z1 left_diff_distrib)
  then have "of_nat a / of_nat b \<le> z"
    using assms(1) by (simp add: pos_divide_le_eq)
  then have "rnd_rat (of_nat a / of_nat b) \<le> z" using z by (intro rnd_rat_le) simp_all
  also have "z < 1" using u(1) by (simp add: z1)
  finally show ?thesis .
qed

text \<open>A ratio below 1 prints with the integer part 0.\<close>

lemma ratio_output:
  assumes "a < b" and "b < 2 ^ 53"
  shows "\<exists>ws. write_double fd (d_div (Fin (of_nat a)) (Fin (of_nat b))) 2 = Some (ws, 1) \<and>
    written fd ws = ''0.'' @ pad2 (nat (hundredths (rnd_rat (of_nat a / of_nat b)) mod 100))"
proof -
  let ?q = "rnd_rat (of_nat a / of_nat b)"
  have b: "a \<le> b" "0 < b" using assms(1) by simp_all
  note q = ratio_quotient [OF b] ratio_quotient_less [OF assms]
  have "?q \<le> 2 ^ 55" using q(3) by (rule order_trans) simp
  moreover have "\<lfloor>?q\<rfloor> = 0" using q by (simp add: floor_eq_iff)
  moreover have "dec 0 = ''0''" by code_simp
  ultimately show ?thesis unfolding q(1) using write_double_2_Fin [OF q(2)] by simp
qed

lemma ratio_hundredths:
  assumes "a < b" and "b < 2 ^ 53"
  defines "h \<equiv> hundredths (rnd_rat (of_nat a / of_nat b))"
  shows "0 \<le> h" and "h \<le> 100" and "996 * b \<le> 1000 * a \<Longrightarrow> h = 100"
proof -
  let ?q = "rnd_rat (of_nat a / of_nat b)"
  have b: "a \<le> b" "0 < b" using assms(1) by simp_all
  note q = ratio_quotient [OF b] ratio_quotient_less [OF assms(1,2)]
  have f: "\<lfloor>?q\<rfloor> = 0" using q by (simp add: floor_eq_iff)
  have lim: "?q < 2 ^ 45" using q(3) by (rule le_less_trans) simp
  show "0 \<le> h" "h \<le> 100" using hundredths_bounds [OF q(2) lim] f by (simp_all add: h_def)
  assume "996 * b \<le> 1000 * a"
  then have "of_nat (996 * b) \<le> (of_nat (1000 * a) :: rat)" by (simp only: of_nat_le_iff)
  then have "1019 / 1024 \<le> of_nat a / (of_nat b :: rat)" using b(2) by (simp add: field_simps)
  moreover have "repr (1019 / 1024)"
    unfolding repr_def by (intro exI [of _ 1019] exI [of _ "-10"]) (simp add: power_int_minus)
  ultimately have "1019 / 1024 \<le> ?q" by (intro rnd_rat_ge) simp_all
  then show "h = 100" using hundredths_carry [OF q(2) lim] f by (simp add: h_def)
qed

section \<open>Properties\<close>

text \<open>
  \<open>fmt_uint64\<close>, written independently of djb's \<open>fmt_ulong\<close>, is the same function: on every
  buffer, value and null pointer, with the same out of bounds cases.
\<close>

theorem fmt_uint64_is_fmt_ulong: "fmt_uint64 s val = fmt_ulong s val"
  by (simp add: fmt_uint64_fmt_ulong)

text \<open>
  \<open>scan_hex\<close> consumes the longest prefix of hexadecimal digits among the first \<open>l\<close> bytes
  and shifts each into the variable behind \<open>n\<close>, 4 bits at a time and at the width of the
  variable; it never reads past the first byte that is not a digit.
\<close>

theorem scan_hex_spec:
  fixes n :: "'w::len word option"
  assumes "ds = takeWhile is_xdigit (take l s)" and "length ds < length s \<or> l \<le> length ds"
  shows "scan_hex s l n =
    Some (length ds, map_option (\<lambda>v. foldl (\<lambda>v c. v * 16 + of_nat (hval c)) v ds) n)"
  using assms by (simp add: scan_hex_eq hex_prefix_def hex_shift_def [abs_def] Let_def)

theorem scan_hex_spec_witness:
  "scan_hex (cstring ''fFz'') 3 (Some (0 :: u32)) = Some (2, Some 255)"
proof -
  have d: "''fF'' = takeWhile is_xdigit (take 3 (cstring ''fFz''))" by code_simp
  have v: "foldl (\<lambda>v c. v * 16 + of_nat (hval c)) (0 :: u32) ''fF'' = 255" by code_simp
  show ?thesis using scan_hex_spec [OF d, of "Some (0 :: u32)"] v by simp
qed

text \<open>
  The two widths of \<open>scan_hex\<close>: the caller of a \<open>uint32_t\<close> variable finds in it the low
  half of what the definition, which works on \<open>unsigned long\<close>, stores, when the variable and
  the next 4 bytes of memory are read as one 64-bit number.
\<close>

lemma scan_hex_width:
  assumes "scan_hex s l (Some (v :: u64)) = Some (i, Some w)"
  shows "scan_hex s l (Some (ucast v :: u32)) = Some (i, Some (ucast w))"
proof -
  let ?ds = "hex_prefix s l"
  have low: "(ucast (v * 16 + of_nat n) :: u32) = ucast v * 16 + of_nat n" for v :: u64 and n
  proof -
    have m: "(of_nat (x mod 2 ^ 64) :: u32) = of_nat x" for x :: nat
      by (simp add: word_of_nat_eq_iff take_bit_eq_mod mod_mod_cancel)
    have "(v * 16 + of_nat n :: u64) = of_nat (unat v * 16 + n)" by simp
    then have "unat (v * 16 + of_nat n) = (unat v * 16 + n) mod 2 ^ 64"
      by (simp only: unat_of_nat) simp
    moreover have "ucast w = (of_nat (unat w) :: u32)" for w :: u64 by simp
    ultimately have "(ucast (v * 16 + of_nat n) :: u32) = of_nat (unat v * 16 + n)" by (metis m)
    then show ?thesis by simp
  qed
  have "hex_shift ds (ucast v :: u32) = ucast (hex_shift ds v)" for ds and v :: u64
    by (induction ds arbitrary: v) (simp_all add: hex_shift_Cons low [symmetric])
  with assms show ?thesis by (auto simp: scan_hex_eq Let_def split: if_splits)
qed

text \<open>
  \<open>first_n_fields\<close> copies what comes before the \<open>n\<close>th separator, or the whole input when it
  has fewer separators, whatever the chunks in which the input arrives.
\<close>

theorem first_n_fields_spec:
  assumes "clean in_fd" and "0 < n"
    and "first_n_fields out_fd in_fd sep n = (ws, rc)"
  shows "rc = 1 \<and>
    (if int (count_list (content in_fd) sep) < n then written out_fd ws = content in_fd
     else prefix (written out_fd ws @ [sep]) (content in_fd) \<and>
       int (count_list (written out_fd ws) sep) = n - 1)"
proof -
  have w: "ws = first_n_fields_loop out_fd in_fd sep n" "rc = 1"
    using assms(3) by (auto simp: first_n_fields_def)
  have f: "fields_before sep n (content in_fd) (written out_fd ws)"
    unfolding w by (rule fields_before_first_n [OF assms(1)])
  have "\<not> (prefix (out @ [sep]) s \<and> int (count_list out sep) = n - 1 \<and> int (count_list s sep) < n)" for out s
    by (auto simp: prefix_def)
  with f show ?thesis using assms(2) w(2) unfolding fields_before_def by auto
qed

theorem first_n_fields_spec_witness:
  "written 1 (fst (first_n_fields 1 [Bytes ''a b'', Bytes '' c''] (CHR '' '') 2)) = ''a b''"
proof -
  obtain ws rc where f: "first_n_fields 1 [Bytes ''a b'', Bytes '' c''] (CHR '' '') 2 = (ws, rc)"
    by (cases "first_n_fields 1 [Bytes ''a b'', Bytes '' c''] (CHR '' '') 2")
  from first_n_fields_spec [OF _ _ f]
  have p: "prefix (written 1 ws @ '' '') ''a b c''" "count_list (written 1 ws) (CHR '' '') = 1"
    by (auto split: if_splits)
  then have "written 1 ws @ '' '' \<in> set (prefixes ''a b c'')" by (simp only: in_set_prefixes)
  with p(2) f show ?thesis by auto
qed

text \<open>
  C17. With two decimals \<open>write_double\<close> returns and prints the integer part, a point and two
  digits, whose number of hundredths is the value rounded half up or the next one; the excess
  of a whole unit is dropped from the digits without reaching the integer part.
\<close>

theorem write_double_output:
  assumes "0 \<le> r" and "r < 2 ^ 45"
  shows "\<exists>ws h. write_double fd (Fin r) 2 = Some (ws, 1) \<and>
    written fd ws = dec (nat \<lfloor>r\<rfloor>) @ ''.'' @ pad2 (nat (h mod 100)) \<and>
    \<lfloor>100 * r + 1 / 2\<rfloor> \<le> h \<and> h \<le> \<lfloor>100 * r + 1 / 2\<rfloor> + 1 \<and> h \<le> 100 * \<lfloor>r\<rfloor> + 100"
proof -
  have "(2::rat) ^ 45 \<le> 2 ^ 55" by (intro power_increasing) auto
  then have "r \<le> 2 ^ 55" using assms(2) by linarith
  from write_double_2_Fin [OF assms(1) this] hundredths_round [OF assms] hundredths_bounds(2) [OF assms]
  show ?thesis by blast
qed

theorem write_double_output_witness:
  "\<exists>ws h. write_double 1 (Fin (5 / 2)) 2 = Some (ws, 1) \<and>
    written 1 ws = ''2.'' @ pad2 (nat (h mod 100)) \<and> 250 \<le> h \<and> h \<le> 251"
proof -
  have "dec 2 = ''2''" by code_simp
  moreover have "\<lfloor>5 / 2 :: rat\<rfloor> = 2" "\<lfloor>100 * (5 / 2) + 1 / 2 :: rat\<rfloor> = 250"
    by (simp_all add: floor_eq_iff)
  ultimately show ?thesis using write_double_output [of "5 / 2" 1] by auto
qed

text \<open>
  C39. A value in the last half hundredth before the next integer prints with the fraction \<open>.00\<close>
  and the smaller integer: the carry is lost, 1.999 prints as 1.00.
\<close>

theorem write_double_lost_carry:
  assumes "0 \<le> r" and "r < 2 ^ 45" and "of_int \<lfloor>r\<rfloor> + 199 / 200 \<le> r"
  shows "\<exists>ws. write_double fd (Fin r) 2 = Some (ws, 1) \<and> written fd ws = dec (nat \<lfloor>r\<rfloor>) @ ''.00''"
proof -
  have "(2::rat) ^ 45 \<le> 2 ^ 55" by (intro power_increasing) auto
  then have "r \<le> 2 ^ 55" using assms(2) by linarith
  moreover have "pad2 0 = ''00''" by code_simp
  ultimately show ?thesis
    using write_double_2_Fin [OF assms(1), of fd] hundredths_carry [OF assms] by simp
qed

theorem write_double_lost_carry_witness:
  "\<exists>ws. write_double 1 (Fin (1999 / 1000)) 2 = Some (ws, 1) \<and> written 1 ws = ''1.00''"
proof -
  have "dec 1 = ''1''" by code_simp
  moreover have "\<lfloor>1999 / 1000 :: rat\<rfloor> = 1" by (simp add: floor_eq_iff)
  ultimately show ?thesis using write_double_lost_carry [of "1999 / 1000" 1] by simp
qed

text \<open>
  \<open>write_uint64_human\<close> on every value: the number of divisions by 1000 is the number of
  units; below 2 * 10^18 the quotient and its unit character are printed, and from there on the
  unit is read past the array of units.
\<close>

theorem write_uint64_human_total:
  fixes v :: u64
  shows "if unat v < 2000 * 1000 ^ 5
    then \<exists>ws. write_uint64_human fd 1 v = Some (ws, 1) \<and>
      (let q = human_quotient (unat v); i = units (unat v) in
       written fd ws = dec (nat \<lfloor>q\<rfloor>) @ ''.'' @ pad2 (nat (hundredths q mod 100)) @
         (if i = 0 then [] else [human_suf ! i]))
    else write_uint64_human fd 1 v = None"
  unfolding Let_def units_le [of "unat v" 5, symmetric] by (rule write_uint64_human_1)

text \<open>
  Exact multiples of a unit print exactly: 7 * 10^9 bytes are \<open>7.00g\<close>. A unit is used once
  there are at least two of it.
\<close>

lemma write_uint64_human_exact:
  assumes "n < 2000" and "i \<le> 4" and "i = 0 \<or> 2 \<le> n"
  shows "\<exists>ws. write_uint64_human fd 1 (of_nat (n * 1000 ^ i)) = Some (ws, 1) \<and>
    written fd ws = dec n @ ''.00'' @ take (if i = 0 then 0 else 1) (drop i ''_kmgt'')"
proof -
  have i: "i \<in> {0, 1, 2, 3, 4}" using assms(2) by auto
  have "n * 1000 ^ i < 2000 * 1000 ^ 4"
    using assms by (intro mult_less_le_imp_less power_increasing) auto
  then have "n * 1000 ^ i < 2 ^ 64" by simp
  then have u: "unat (of_nat (n * 1000 ^ i) :: u64) = n * 1000 ^ i"
    by (simp only: unat_of_nat) simp
  have q: "human_quotient (n * 1000 ^ i) = of_nat n" "units (n * 1000 ^ i) = i"
    using human_quotient_exact [OF assms] by simp_all
  have h: "hundredths (of_nat n) mod 100 = 0" using assms(1) hundredths_nat [of n] by simp
  have "pad2 0 = ''00''" by code_simp
  moreover have "i = 0 \<or> [human_suf ! i] = take 1 (drop i ''_kmgt'')"
    using i by (auto simp: human_suf_def cstring_def eval_nat_numeral)
  ultimately show ?thesis
    using write_uint64_human_1 [where v = "of_nat (n * 1000 ^ i)" and fd = fd] assms(2)
    unfolding u q h by auto
qed

text \<open>
  Between 2 * 10^15 and 2 * 10^18 the unit is the NUL that ends the array: it is printed as a
  byte.
\<close>

lemma write_uint64_human_nul:
  fixes v :: u64
  assumes "2000 * 1000 ^ 4 \<le> unat v" and "unat v < 2000 * 1000 ^ 5"
  shows "\<exists>ws t. write_uint64_human fd 1 v = Some (ws, 1) \<and> written fd ws = t @ [NUL]"
proof -
  have "units (unat v) \<le> 5" "\<not> units (unat v) \<le> 4" using assms by (simp_all only: units_le)
  then have "units (unat v) = 5" by simp
  moreover have "human_suf ! 5 = NUL" by code_simp
  ultimately show ?thesis using write_uint64_human_1 [where v = v and fd = fd] by auto
qed

text \<open>
  \<open>read_double_from_fd\<close> never returns on an input that consists of digits only: at the end of
  the file the last digit is processed again and again.
\<close>

theorem read_double_from_fd_hangs:
  assumes "clean fd" and "content fd = c # ds" and "list_all is_digit (c # ds)"
  shows "read_double_from_fd fd = None"
  using assms by (intro read_double_hangs) (auto simp: list_all_iff)

theorem read_double_from_fd_hangs_witness: "read_double_from_fd [Bytes ''42''] = None"
  using read_double_from_fd_hangs [of "[Bytes ''42'']" "CHR ''4''" "''2''"] by (simp add: is_digit_def)

text \<open>
  For digits, a point, digits and a further byte \<open>read_double_from_fd\<close> stores the sum of the
  two parts and returns the number of bytes read.
\<close>

lemma read_double_from_fd_fraction:
  assumes "clean fd" and "content fd = c # ds @ CHR ''.'' # f # fs @ x # s"
    and "list_all is_digit (c # ds)" and "list_all is_digit (f # fs)" and "\<not> is_digit x"
  shows "read_double_from_fd fd =
    Some (of_nat (length ds + length fs + 4),
      Some (d_mul (d_add (d_of_u64 (of_nat (undec (c # ds))))
        (d_mul (d_of_u64 (of_nat (undec (f # fs))))
          (d_div (Fin 1) (d_of_u64 (10 ^ Suc (length fs)))))) (d_of_int 1)))"
  using assms by (intro read_double_fraction) (auto simp: list_all_iff)

text \<open>
  An integer without a point is read and counted by \<open>read_double_from_fd\<close>, but no value is
  stored for the caller.
\<close>

lemma read_double_from_fd_integer:
  assumes "clean fd" and "content fd = c # ds @ x # s" and "list_all is_digit (c # ds)"
    and "\<not> is_digit x" and "x \<noteq> CHR ''.''" and "\<not> neg_char x"
  shows "read_double_from_fd fd = Some (of_nat (length ds + 2), None)"
  using assms by (intro read_double_integer) (auto simp: list_all_iff)

end
