(* ===== verification/Module.thy ===== *)
theory Module
  imports Helpers
begin

text \<open>
  The interface of the modules, \<^verbatim>\<open>ustat.h\<close>: \<open>struct ustat_module\<close> with its two function
  pointers, whose possible targets are the functions that the table in \<^verbatim>\<open>ustat.c\<close> names.
  The root theory maps each of them to its definition.
\<close>

datatype init_fn =
  No_init | Load_init | Uptime_init | Nusers_init | Bat_init | Mem_init | Fs_init | Tcp_init

datatype print_fn =
  Pass_print | Nl_print | Load_print | Uptime_print_human | Uptime_print
| Date_print | Uid_print | User_print | Nusers_print | Nproc_print | Ncpus_print
| Bat_level_print | Bat_charging_human_print | Bat_charging_print
| Mem_free_human_print | Mem_free_print | Mem_ratio_print | Mem_total_human_print | Mem_total_print
| Fs_total_human_print | Fs_total_print | Fs_ratio_print | Fs_free_human_print | Fs_free_print
| Fs_used_human_print | Fs_used_print
| Ntcp6_established_print | Ntcp6_listen_print | Ntcp6_closing_print | Ntcp6_all_print
| Ntcp4_established_print | Ntcp4_listen_print | Ntcp4_closing_print | Ntcp4_all_print
| Ntcp_print | Ntcp_established_print | Ntcp_listen_print | Ntcp_closing_print | Ntcp_all_print
| Color_off | Color8_fg_normal_print | Color8_fg_bright_print | Color8_bg_normal_print
| Color8_bg_bright_print | Xterm256_fg_print | Xterm256_bg_print | Rgb_fg_print | Rgb_bg_print

text \<open>\<open>ready\<close> only ever holds 0 and 1; \<open>dlen\<close> and \<open>data\<close> are 0 in every entry.\<close>

record ustat_module =
  mod_name :: cstr
  mod_descr :: cstr
  mod_ready :: bool
  mod_dlen :: u64
  mod_data :: "cstr option"
  mod_init :: init_fn
  mod_print :: print_fn

text \<open>An entry \<open>{name, descr, 0, 0, 0, init, print}\<close> of the table.\<close>

definition entry :: "string \<Rightarrow> string \<Rightarrow> init_fn \<Rightarrow> print_fn \<Rightarrow> ustat_module" where
  "entry name descr ini prt = \<lparr>mod_name = cstring name, mod_descr = cstring descr, mod_ready = False,
     mod_dlen = 0, mod_data = None, mod_init = ini, mod_print = prt\<rparr>"

lemma entry_simps [simp]:
  "mod_name (entry n d i p) = cstring n" "mod_descr (entry n d i p) = cstring d"
  "mod_ready (entry n d i p) = False" "mod_init (entry n d i p) = i" "mod_print (entry n d i p) = p"
  by (simp_all add: entry_def)

text \<open>The writes of a \<open>print\<close> function and its result.\<close>

type_synonym printed = "(out \<times> int) option"

text \<open>\<open>pass_print\<close> writes to descriptor 1, whatever its argument \<open>fd\<close>.\<close>

definition pass_print :: "nat \<Rightarrow> ustat_module \<Rightarrow> cstr \<Rightarrow> nat \<Rightarrow> printed" where
  "pass_print fd m s len = do {
     off \<leftarrow> str_len (mod_name m);
     if off \<le> len \<and> len \<le> length s
     then Some ([(1, take (len - off) (drop off s))], 1) else None }"

definition nl_print :: "nat \<Rightarrow> ustat_module \<Rightarrow> cstr \<Rightarrow> nat \<Rightarrow> printed" where
  "nl_print fd m s len = Some ([(1, [LF])], 1)"

end
