(* ===== verification/Color.thy ===== *)
theory Color
  imports Module
begin

text \<open>
  \<^verbatim>\<open>ustat_color.c\<close>: the ANSI escape sequences for 8 colours, for the 256 xterm colours and for
  24-bit colours.
\<close>

definition color_off :: "nat \<Rightarrow> ustat_module \<Rightarrow> cstr \<Rightarrow> nat \<Rightarrow> printed" where
  "color_off fd m s l = Some ([(fd, ESC # ''[0m'')], 1)"

section \<open>8 colours\<close>

definition color8 :: "cstr list" where
  "color8 = map (\<lambda>t. cstring (ESC # t))
    [''[30m'', ''[30;1m'', ''[40m'', ''[40;1m'', ''[31m'',
     ''[31;1m'', ''[41m'', ''[41;1m'', ''[32m'', ''[32;1m'',
     ''[42m'', ''[42;1m'', ''[33m'', ''[33;1m'', ''[43m'',
     ''[43;1m'', ''[34m'', ''[34;1m'', ''[44m'', ''[44;1m'',
     ''[35m'', ''[35;1m'', ''[45m'', ''[45;1m'', ''[36m'',
     ''[36;1m'', ''[46m'', ''[46;1m'', ''[37m'', ''[37;1m'',
     ''[47m'', ''[47;1m'']"

definition color8_print :: "nat \<Rightarrow> char \<Rightarrow> int \<Rightarrow> printed" where
  "color8_print fd c offset = (let i = sint (cval c) - 48 in
     if i < 0 \<or> i > 8 then Some ([], 0)
     else let i = i * 4 + offset in
       if 0 \<le> i \<and> i < int (length color8) then do {
         n \<leftarrow> str_len (color8 ! nat i);
         Some ([(fd, take n (color8 ! nat i))], 1) }
       else None)"

text \<open>\<open>s[l - 1]\<close>, with an unsigned \<open>l\<close>\<close>

definition last_char :: "cstr \<Rightarrow> nat \<Rightarrow> char option" where
  "last_char s l = (if l = 0 then None else rd s (l - 1))"

definition color8_fg_normal_print :: "nat \<Rightarrow> ustat_module \<Rightarrow> cstr \<Rightarrow> nat \<Rightarrow> printed" where
  "color8_fg_normal_print fd m s l = do { c \<leftarrow> last_char s l; color8_print fd c 0 }"

definition color8_fg_bright_print :: "nat \<Rightarrow> ustat_module \<Rightarrow> cstr \<Rightarrow> nat \<Rightarrow> printed" where
  "color8_fg_bright_print fd m s l = do { c \<leftarrow> last_char s l; color8_print fd c 1 }"

definition color8_bg_normal_print :: "nat \<Rightarrow> ustat_module \<Rightarrow> cstr \<Rightarrow> nat \<Rightarrow> printed" where
  "color8_bg_normal_print fd m s l = do { c \<leftarrow> last_char s l; color8_print fd c 2 }"

definition color8_bg_bright_print :: "nat \<Rightarrow> ustat_module \<Rightarrow> cstr \<Rightarrow> nat \<Rightarrow> printed" where
  "color8_bg_bright_print fd m s l = do { c \<leftarrow> last_char s l; color8_print fd c 3 }"

section \<open>256 colours\<close>

definition XTERM256_FG :: string where
  "XTERM256_FG = ESC # ''[38;5;''"

definition XTERM256_BG :: string where
  "XTERM256_BG = ESC # ''[48;5;''"

definition xterm256_print :: "nat \<Rightarrow> ustat_module \<Rightarrow> cstr \<Rightarrow> nat \<Rightarrow> string \<Rightarrow> printed" where
  "xterm256_print fd m s l mode = do {
     off \<leftarrow> str_len (mod_name m);
     (n, color) \<leftarrow> scan_ulong (drop off s);
     if n = 0 \<or> color \<ge> 256 then Some ([], 0)
     else Some ([(fd, mode), (fd, take n (drop off s)), (fd, ''m'')], 1) }"

definition xterm256_fg_print :: "nat \<Rightarrow> ustat_module \<Rightarrow> cstr \<Rightarrow> nat \<Rightarrow> printed" where
  "xterm256_fg_print fd m s l = xterm256_print fd m s l XTERM256_FG"

definition xterm256_bg_print :: "nat \<Rightarrow> ustat_module \<Rightarrow> cstr \<Rightarrow> nat \<Rightarrow> printed" where
  "xterm256_bg_print fd m s l = xterm256_print fd m s l XTERM256_BG"

section \<open>24-bit colours\<close>

definition XTERM_RGB_FG :: string where
  "XTERM_RGB_FG = ESC # ''[38;2;''"

definition XTERM_RGB_BG :: string where
  "XTERM_RGB_BG = ESC # ''[48;2;''"

text \<open>
  \<open>scan_hex(&s[k], l, &x)\<close> with a \<open>uint32_t\<close> variable \<open>x\<close>, as the prototype in
  \<^verbatim>\<open>ustat.h\<close> has it.
\<close>

definition scan_hex_u32 :: "cstr \<Rightarrow> nat \<Rightarrow> u32 \<Rightarrow> (nat \<times> u32) option" where
  "scan_hex_u32 s l x = do { (i, n) \<leftarrow> scan_hex s l (Some x); n \<leftarrow> n; Some (i, n) }"

text \<open>The two cases of the \<open>switch\<close>: the digits read, and the three components.\<close>

definition rgb_scan3 :: "cstr \<Rightarrow> (nat \<times> u32 \<times> u32 \<times> u32) option" where
  "rgb_scan3 s = do {
     (i, r) \<leftarrow> scan_hex_u32 s 1 0;
     (j, g) \<leftarrow> scan_hex_u32 (drop 1 s) 1 0;
     (k, b) \<leftarrow> scan_hex_u32 (drop 2 s) 1 0;
     Some (i + j + k, push_bit 4 r + r, push_bit 4 g + g, push_bit 4 b + b) }"

definition rgb_scan6 :: "cstr \<Rightarrow> (nat \<times> u32 \<times> u32 \<times> u32) option" where
  "rgb_scan6 s = do {
     (i, r) \<leftarrow> scan_hex_u32 s 2 0;
     (j, g) \<leftarrow> scan_hex_u32 (drop 2 s) 2 0;
     (k, b) \<leftarrow> scan_hex_u32 (drop 4 s) 2 0;
     Some (i + j + k, r, g, b) }"

text \<open>The three numbers are written from the same variable \<open>r\<close>, as in the source.\<close>

definition rgb_write :: "nat \<Rightarrow> string \<Rightarrow> u32 \<Rightarrow> u32 \<Rightarrow> u32 \<Rightarrow> printed" where
  "rgb_write fd mode r g b = do {
     n1 \<leftarrow> fmt_fixed fmt_ulong 3 (ucast r);
     n2 \<leftarrow> fmt_fixed fmt_ulong 3 (ucast r);
     n3 \<leftarrow> fmt_fixed fmt_ulong 3 (ucast r);
     Some ([(fd, mode), (fd, n1), (fd, '';''), (fd, n2), (fd, '';''), (fd, n3), (fd, '';''),
       (fd, ''m'')], 1) }"

definition rgb_print :: "nat \<Rightarrow> ustat_module \<Rightarrow> cstr \<Rightarrow> nat \<Rightarrow> string \<Rightarrow> printed" where
  "rgb_print fd m s l mode = do {
     off \<leftarrow> str_len (mod_name m);
     let n = l - off;
     if n \<noteq> 3 \<and> n \<noteq> 6 then Some ([], 0) else do {
     (i, r, g, b) \<leftarrow> (if n = 3 then rgb_scan3 (drop off s) else rgb_scan6 (drop off s));
     if i \<noteq> n then Some ([], 0) else rgb_write fd mode r g b }}"

definition rgb_fg_print :: "nat \<Rightarrow> ustat_module \<Rightarrow> cstr \<Rightarrow> nat \<Rightarrow> printed" where
  "rgb_fg_print fd m s l = rgb_print fd m s l XTERM_RGB_FG"

definition rgb_bg_print :: "nat \<Rightarrow> ustat_module \<Rightarrow> cstr \<Rightarrow> nat \<Rightarrow> printed" where
  "rgb_bg_print fd m s l = rgb_print fd m s l XTERM_RGB_BG"

section \<open>The colour table\<close>

text \<open>The sequence for a colour: foreground or background, normal or bright.\<close>

definition color8_seq :: "nat \<Rightarrow> nat \<Rightarrow> string" where
  "color8_seq i k = ESC # ''['' @ (if k < 2 then ''3'' else ''4'') @ [char_of (48 + i)] @
     (if odd k then '';1'' else '''') @ ''m''"

lemma length_color8: "length color8 = 32"
  by (simp add: color8_def)

lemma color8_nth:
  assumes "i < 8" and "k < 4"
  shows "color8 ! (4 * i + k) = cstring (color8_seq i k)"
proof -
  have "list_all (\<lambda>i. list_all (\<lambda>k. color8 ! (4 * i + k) = cstring (color8_seq i k)) [0,1,2,3]) [0,1,2,3,4,5,6,7]"
    by code_simp
  moreover have "i \<in> set [0,1,2,3,4,5,6,7]" "k \<in> set [0,1,2,3]" using assms by auto
  ultimately show ?thesis unfolding list_all_iff by blast
qed

lemma is_text_color8_seq: "i < 8 \<Longrightarrow> is_text (color8_seq i k)"
proof -
  assume "i < 8"
  then have "is_digit (char_of (48 + i))" by simp
  moreover have "\<not> is_digit NUL" by (simp add: is_digit_def)
  ultimately have "char_of (48 + i) \<noteq> NUL" by metis
  then show ?thesis by (simp add: color8_seq_def)
qed

lemma sint_cval:
  "sint (cval c) = (if of_char c < (128::nat) then int (of_char c) else int (of_char c) - 256)"
  by (simp add: sint_u8)

lemma color8_print_eq:
  assumes "k < 4"
  shows "color8_print fd c (int k) =
    (if is_digit c \<and> dval c < 8 then Some ([(fd, color8_seq (dval c) k)], 1)
     else if c = CHR ''8'' then None else Some ([], 0))"
proof -
  obtain n :: nat where n: "of_char c = n" "n < 256" using nat_of_char_less_256 by blast
  have i: "sint (cval c) - 48 = (if n < 128 then int n - 48 else int n - 304)"
    using n by (simp add: sint_cval)
  have c8: "c = CHR ''8'' \<longleftrightarrow> n = 56"
  proof -
    have "c = CHR ''8'' \<longleftrightarrow> (of_char c :: nat) = of_char (CHR ''8'')" by (simp only: of_char_eq_iff)
    then show ?thesis by (simp add: n)
  qed
  consider "48 \<le> n" "n \<le> 55" | "n = 56" | "n < 48 \<or> 56 < n" by linarith
  then show ?thesis
  proof cases
    case 1
    then have d: "is_digit c" "int n - 48 = int (dval c)" "dval c < 8"
      by (auto simp: is_digit_def dval_def n)
    have i': "sint (cval c) - 48 = int (dval c)" using 1 i d(2) by simp
    have idx: "int (dval c) * 4 + int k = int (4 * dval c + k)" by simp
    have "4 * dval c + k < 32" using d(3) assms by linarith
    then have "color8_print fd c (int k) = do {
        n \<leftarrow> str_len (color8 ! (4 * dval c + k));
        Some ([(fd, take n (color8 ! (4 * dval c + k)))], 1) }"
      using d(3) unfolding color8_print_def i' Let_def idx length_color8 nat_int by simp
    then show ?thesis
      using d(1,3) is_text_color8_seq [OF d(3)]
      by (simp add: color8_nth [OF d(3) assms]) (simp add: cstring_def)
  next
    case 2
    then show ?thesis by (simp add: color8_print_def i length_color8 c8 is_digit_def dval_def n Let_def)
  next
    case 3
    then show ?thesis using n(2)
      by (auto simp: color8_print_def i c8 is_digit_def dval_def n(1) Let_def)
  qed
qed

section \<open>The 256 and 24-bit colours\<close>

lemma takeWhile_digit_cstring [simp]:
  "takeWhile is_digit (cstring s) = takeWhile is_digit s"
  by (induction s) (simp_all add: cstring_def is_digit_def)

lemma xterm256_print_eq:
  assumes "mod_name m = cstring nm" and "is_text nm"
  shows "xterm256_print fd m (cstring (nm @ t)) l mode = (let ds = takeWhile is_digit t in
    if ds \<noteq> [] \<and> undec ds mod 2 ^ 64 < 256
    then Some ([(fd, mode), (fd, ds), (fd, ''m'')], 1) else Some ([], 0))"
proof -
  let ?ds = "takeWhile is_digit t"
  have dr: "drop (length nm) (cstring (nm @ t)) = cstring t" by (simp add: cstring_def)
  have len: "length ?ds < length (cstring t)" by (simp add: le_imp_less_Suc length_takeWhile_le)
  have tk: "take (length ?ds) (cstring t) = ?ds"
    by (metis takeWhile_digit_cstring takeWhile_eq_take)
  have val: "(of_nat (undec ?ds) :: u64) < 256 \<longleftrightarrow> undec ?ds mod 2 ^ 64 < 256"
    by (simp add: word_less_nat_alt unat_of_nat)
  show ?thesis
    using assms len tk val by (auto simp: xterm256_print_def dr scan_ulong_eq Let_def not_less)
qed

lemma is_xdigit_NUL [simp]: "\<not> is_xdigit NUL"
  by (simp add: is_xdigit_def is_digit_def)

lemma scan_hex_u32_1:
  "scan_hex_u32 (a # s) 1 0 =
    Some (if is_xdigit a then (1, of_nat (hval a)) else (0, 0))"
  by (simp add: scan_hex_u32_def scan_hex_eq hex_prefix_def hex_shift_def)

lemma scan_hex_u32_2:
  "scan_hex_u32 (a # b # s) 2 0 =
    Some (if is_xdigit a then if is_xdigit b then (2, of_nat (hval a) * 16 + of_nat (hval b))
      else (1, of_nat (hval a)) else (0, 0))"
  by (simp add: scan_hex_u32_def scan_hex_eq hex_prefix_def hex_shift_def numeral_2_eq_2)

text \<open>The first component of a colour text, and the text that is written for it.\<close>

definition rgb_red :: "string \<Rightarrow> nat" where
  "rgb_red h = (if length h = 3 then 17 * hval (h ! 0) else 16 * hval (h ! 0) + hval (h ! 1))"

definition rgb_valid :: "string \<Rightarrow> bool" where
  "rgb_valid h \<longleftrightarrow> (length h = 3 \<or> length h = 6) \<and> list_all is_xdigit h"

definition rgb_writes :: "nat \<Rightarrow> string \<Rightarrow> nat \<Rightarrow> out" where
  "rgb_writes fd mode r = [(fd, mode), (fd, dec r), (fd, '';''), (fd, dec r), (fd, '';''),
     (fd, dec r), (fd, '';''), (fd, ''m'')]"

lemma unat_ucast_u32: "n < 2 ^ 32 \<Longrightarrow> unat (ucast (of_nat n :: u32) :: u64) = n"
  by (simp add: unsigned_ucast_eq unat_of_nat take_bit_nat_eq_self)

lemma rgb_write_eq:
  assumes "n < 256"
  shows "rgb_write fd mode (of_nat n) g b = Some (rgb_writes fd mode n, 1)"
proof -
  have "length (dec n) \<le> 3" using assms by (simp add: length_dec_le)
  then show ?thesis
    using assms by (simp add: rgb_write_def djb_fmt.fixed unat_ucast_u32 rgb_writes_def del: of_nat_numeral)
qed

lemma rgb_print_eq:
  assumes "mod_name m = cstring nm" and "is_text nm"
  shows "rgb_print fd m (cstring (nm @ h)) (length (nm @ h)) mode =
    (if rgb_valid h then Some (rgb_writes fd mode (rgb_red h), 1) else Some ([], 0))"
proof -
  have dr: "drop (length nm) (cstring (nm @ h)) = cstring h" by (simp add: cstring_def)
  have run: "rgb_print fd m (cstring (nm @ h)) (length (nm @ h)) mode =
    (if length h \<noteq> 3 \<and> length h \<noteq> 6 then Some ([], 0) else do {
     (i, r, g, b) \<leftarrow> (if length h = 3 then rgb_scan3 (cstring h) else rgb_scan6 (cstring h));
     if i \<noteq> length h then Some ([], 0) else rgb_write fd mode r g b })"
    using assms by (simp add: rgb_print_def dr Let_def)
  consider "length h = 3" | "length h = 6" | "length h \<noteq> 3 \<and> length h \<noteq> 6" by blast
  then show ?thesis
  proof cases
    case 1
    then obtain a b c where h: "h = [a, b, c]" by (auto simp: numeral_3_eq_3 length_Suc_conv)
    have "push_bit 4 (of_nat (hval a)) + of_nat (hval a) = (of_nat (17 * hval a) :: u32)"
      by (simp add: push_bit_eq_mult algebra_simps)
    moreover have "17 * hval a < 256" if "is_xdigit a" using hval_less [OF that] by simp
    ultimately show ?thesis
      unfolding run rgb_scan3_def
      by (auto simp: h cstring_def scan_hex_u32_1 [unfolded One_nat_def] rgb_valid_def rgb_red_def
          rgb_write_eq [of "17 * hval a", simplified])
  next
    case 2
    then obtain a b c d e f where h: "h = [a, b, c, d, e, f]"
      by (auto simp: eval_nat_numeral length_Suc_conv)
    have "of_nat (hval a) * 16 + of_nat (hval b) = (of_nat (16 * hval a + hval b) :: u32)" by simp
    moreover have "16 * hval a + hval b < 256" if "is_xdigit a" "is_xdigit b"
      using hval_less [OF that(1)] hval_less [OF that(2)] by simp
    ultimately show ?thesis
      unfolding run rgb_scan6_def
      by (auto simp: h cstring_def scan_hex_u32_2 rgb_valid_def rgb_red_def rgb_write_eq
          simp del: of_nat_add of_nat_mult)
  next
    case 3
    then show ?thesis unfolding run by (simp add: rgb_valid_def)
  qed
qed

section \<open>Properties\<close>

lemma last_char_snoc [simp]: "last_char (cstring (t @ [c])) (length (t @ [c])) = Some c"
  by (simp add: last_char_def rd_def cstring_def)

text \<open>
  C32. The modules for 8 colours take the last character of their argument: a digit from 0 to 7
  gives the escape sequence of its colour, foreground or background, normal or bright, any other
  character writes nothing, and the digit 8 reads past the end of the table.
\<close>

theorem color8_prints:
  shows "list_all (\<lambda>(k, f). f fd m (cstring (t @ [c])) (length (t @ [c])) =
    (if is_digit c \<and> dval c < 8 then Some ([(fd, color8_seq (dval c) k)], 1)
     else if c = CHR ''8'' then None else Some ([], 0)))
    [(0, color8_fg_normal_print), (1, color8_fg_bright_print), (2, color8_bg_normal_print),
     (3, color8_bg_bright_print)]"
  using color8_print_eq [of 0 fd c] color8_print_eq [of 1 fd c] color8_print_eq [of 2 fd c]
    color8_print_eq [of 3 fd c]
  by (simp add: color8_fg_normal_print_def color8_fg_bright_print_def color8_bg_normal_print_def
      color8_bg_bright_print_def del: length_append)

text \<open>
  The modules for 256 colours accept the digits after their name, of any number and followed
  by any text, when their value modulo 2^64 is below 256, and write them between the introducer
  and \<open>m\<close> as they stand; every other argument writes nothing.
\<close>

theorem xterm256_prints:
  assumes "mod_name m = cstring nm" and "is_text nm"
  shows "let ds = takeWhile is_digit t;
      out = (\<lambda>mode. if ds \<noteq> [] \<and> undec ds mod 2 ^ 64 < 256
        then Some ([(fd, mode), (fd, ds), (fd, ''m'')], 1) else Some ([], 0)) in
    xterm256_fg_print fd m (cstring (nm @ t)) l = out XTERM256_FG \<and>
    xterm256_bg_print fd m (cstring (nm @ t)) l = out XTERM256_BG"
  using xterm256_print_eq [OF assms]
  by (simp add: xterm256_fg_print_def xterm256_bg_print_def Let_def)

theorem xterm256_prints_witness:
  "xterm256_fg_print 1 (entry ''256#'' '''' No_init Xterm256_fg_print)
     (cstring (''256#'' @ ''18446744073709551617'')) 24 =
   Some ([(1, ESC # ''[38;5;''), (1, ''18446744073709551617''), (1, ''m'')], 1)"
proof -
  define ds where "ds = ''18446744073709551617''"
  have "takeWhile is_digit ds = ds" "ds \<noteq> []" unfolding ds_def by code_simp+
  moreover have "undec ds = 18446744073709551617" by (simp add: ds_def undec_def dval_def)
  then have "undec ds mod 2 ^ 64 < 256" by simp
  ultimately have ds: "takeWhile is_digit ds = ds" "ds \<noteq> []" "undec ds mod 2 ^ 64 < 256" .
  show ?thesis
    using xterm256_prints [of "entry ''256#'' '''' No_init Xterm256_fg_print" "''256#''" ds 1 24] ds
    unfolding XTERM256_FG_def ds_def [symmetric] by (simp add: Let_def del: append.simps)
qed



end
