(* ===== verification/Tcp.thy ===== *)
theory Tcp
  imports Module
begin

text \<open>
  \<^verbatim>\<open>ustat_tcp.c\<close> and \<^verbatim>\<open>ustat_tcp_linux.c\<close>: counters of TCP sockets by state. The counters are
  filled from \<^verbatim>\<open>/proc/net/tcp\<close> and \<^verbatim>\<open>/proc/net/tcp6\<close>, read through a 16k buffer and parsed by a
  routine of three loops connected by \<open>goto\<close>.
\<close>

section \<open>States and counters\<close>

text \<open>The numbers of the enumeration for Linux; index 0 holds the total.\<close>

definition TCP_ESTABLISHED :: nat where "TCP_ESTABLISHED = 1"
definition TCP_SYN_SENT :: nat where "TCP_SYN_SENT = TCP_ESTABLISHED + 1"
definition TCP_SYN_RECV :: nat where "TCP_SYN_RECV = TCP_SYN_SENT + 1"
definition TCP_FIN_WAIT1 :: nat where "TCP_FIN_WAIT1 = TCP_SYN_RECV + 1"
definition TCP_FIN_WAIT2 :: nat where "TCP_FIN_WAIT2 = TCP_FIN_WAIT1 + 1"
definition TCP_TIME_WAIT :: nat where "TCP_TIME_WAIT = TCP_FIN_WAIT2 + 1"
definition TCP_CLOSE :: nat where "TCP_CLOSE = TCP_TIME_WAIT + 1"
definition TCP_CLOSE_WAIT :: nat where "TCP_CLOSE_WAIT = TCP_CLOSE + 1"
definition TCP_LAST_ACK :: nat where "TCP_LAST_ACK = TCP_CLOSE_WAIT + 1"
definition TCP_LISTEN :: nat where "TCP_LISTEN = 10"
definition TCP_CLOSING :: nat where "TCP_CLOSING = 11"
definition TCP_STATE_FIRST :: nat where "TCP_STATE_FIRST = TCP_ESTABLISHED"
definition TCP_STATE_LAST :: nat where "TCP_STATE_LAST = TCP_CLOSING"
definition INDEX_TOTAL :: nat where "INDEX_TOTAL = 0"
definition n_tcp_states :: nat where "n_tcp_states = 12"

lemmas tcp_enum = TCP_ESTABLISHED_def TCP_SYN_SENT_def TCP_SYN_RECV_def TCP_FIN_WAIT1_def TCP_FIN_WAIT2_def
  TCP_TIME_WAIT_def TCP_CLOSE_def TCP_CLOSE_WAIT_def TCP_LAST_ACK_def TCP_LISTEN_def TCP_CLOSING_def
  TCP_STATE_FIRST_def TCP_STATE_LAST_def INDEX_TOTAL_def

text \<open>Every counter but the total is that of exactly one enumerator, in the order of the source.\<close>

lemma tcp_enum_complete:
  "[TCP_ESTABLISHED, TCP_SYN_SENT, TCP_SYN_RECV, TCP_FIN_WAIT1, TCP_FIN_WAIT2, TCP_TIME_WAIT, TCP_CLOSE,
     TCP_CLOSE_WAIT, TCP_LAST_ACK, TCP_LISTEN, TCP_CLOSING] = [TCP_STATE_FIRST..<Suc TCP_STATE_LAST]"
  "TCP_LISTEN = TCP_LAST_ACK + 1" "TCP_CLOSING = TCP_LISTEN + 1" "Suc TCP_STATE_LAST = n_tcp_states"
  by (simp_all add: tcp_enum n_tcp_states_def upt_rec)

record tcp_state =
  tcp_counters :: "u64 list"
  tcp4_counters :: "u64 list"
  tcp6_counters :: "u64 list"
  tcp_inited :: bool

definition tcp_initial :: tcp_state where
  "tcp_initial = \<lparr>tcp_counters = replicate n_tcp_states 0, tcp4_counters = replicate n_tcp_states 0,
     tcp6_counters = replicate n_tcp_states 0, tcp_inited = False\<rparr>"

text \<open>Tables with the length of the arrays.\<close>

definition tables_12 :: "tcp_state \<Rightarrow> bool" where
  "tables_12 st \<longleftrightarrow> length (tcp_counters st) = n_tcp_states \<and> length (tcp4_counters st) = n_tcp_states \<and>
     length (tcp6_counters st) = n_tcp_states"

text \<open>\<open>a[i]\<close> and \<open>a[i] += v\<close>\<close>

definition arr_get :: "u64 list \<Rightarrow> nat \<Rightarrow> u64 option" where
  "arr_get a i = (if i < length a then Some (a ! i) else None)"

definition arr_add :: "u64 list \<Rightarrow> nat \<Rightarrow> u64 \<Rightarrow> u64 list option" where
  "arr_add a i v = (if i < length a then Some (a[i := a ! i + v]) else None)"

function sum_counters_loop ::
  "nat \<Rightarrow> nat \<Rightarrow> nat \<Rightarrow> u64 list \<Rightarrow> u64 list \<Rightarrow> (u64 list \<times> u64 list) option" where
  "sum_counters_loop i final tot to from = (if i < final + 1 then do {
     v \<leftarrow> arr_get from i;
     from \<leftarrow> arr_add from tot v;
     v \<leftarrow> arr_get from i;
     to \<leftarrow> arr_add to i v;
     sum_counters_loop (i + 1) final tot to from }
     else Some (to, from))"
  by pat_completeness auto
termination
  by (relation "measure (\<lambda>(i, final, tot, to, from). final + 1 - i)") auto

declare sum_counters_loop.simps [simp del]

text \<open>Both arrays after the call: \<open>from\<close> gets its total, \<open>to\<close> the sums.\<close>

definition sum_counters ::
  "nat \<Rightarrow> nat \<Rightarrow> nat \<Rightarrow> u64 list \<Rightarrow> u64 list \<Rightarrow> (u64 list \<times> u64 list) option" where
  "sum_counters first final tot to from = do {
     (to, from) \<leftarrow> sum_counters_loop first final tot to from;
     v \<leftarrow> arr_get from tot;
     to \<leftarrow> arr_add to tot v;
     Some (to, from) }"

section \<open>The buffered reader\<close>

record reader =
  br_prev :: char
  br_cur :: char
  br_field :: int
  br_pos :: int
  br_end :: int
  br_consumed :: nat
  br_err :: int
  br_buf :: "char list"

definition BR_SIZE :: nat where
  "BR_SIZE = 16 * 1024"

text \<open>\<open>{.pos = 0, .end = 0}\<close>, the other members are zero.\<close>

definition br_init :: reader where
  "br_init = \<lparr>br_prev = NUL, br_cur = NUL, br_field = 0, br_pos = 0, br_end = 0, br_consumed = 0,
     br_err = 0, br_buf = replicate BR_SIZE NUL\<rparr>"

definition br_fill :: "stream \<Rightarrow> reader \<Rightarrow> stream \<times> reader" where
  "br_fill fd br = (case sys_read (length (br_buf br)) fd of (r, s, fd') \<Rightarrow>
     (fd', br\<lparr>br_end := r, br_pos := 0, br_buf := s @ drop (length s) (br_buf br)\<rparr>))"

definition read_byte :: "stream \<Rightarrow> reader \<Rightarrow> (bool \<times> stream \<times> reader) option" where
  "read_byte fd br = (
     let br = br\<lparr>br_pos := br_pos br + 1\<rparr>;
         (fd, br) = (if br_pos br \<ge> br_end br then br_fill fd br else (fd, br))
     in if br_end br > 0
        then (if 0 \<le> br_pos br \<and> br_pos br < int (length (br_buf br))
              then Some (True, fd, br\<lparr>br_consumed := br_consumed br + 1,
                br_cur := br_buf br ! nat (br_pos br)\<rparr>)
              else None)
        else Some (False, fd, br\<lparr>br_err := br_end br\<rparr>))"

text \<open>The bytes that are still to come bound the number of successful calls.\<close>

definition br_left :: "stream \<Rightarrow> reader \<Rightarrow> nat" where
  "br_left fd br = stream_size fd + nat (br_end br - br_pos br - 1)"

lemma nat_int_minus_1: "nat (int n - 1) = n - 1"
  by simp

lemma br_fill_left:
  "br_fill fd br = (fd', br') \<Longrightarrow> 0 < br_end br' \<Longrightarrow> 0 < length (br_buf br) \<Longrightarrow>
    br_left fd' br' < stream_size fd"
  by (cases "(length (br_buf br), fd)" rule: sys_read.cases)
    (auto simp: br_fill_def br_left_def stream_size_def nat_int_minus_1
      simp del: length_greater_0_conv split: if_splits)

lemma read_byte_left:
  assumes "read_byte fd br = Some (True, fd', br')"
  shows "br_left fd' br' < br_left fd br"
proof (cases "br_pos br + 1 \<ge> br_end br")
  case True
  obtain fd2 br2 where f: "br_fill fd (br\<lparr>br_pos := br_pos br + 1\<rparr>) = (fd2, br2)"
    by (cases "br_fill fd (br\<lparr>br_pos := br_pos br + 1\<rparr>)")
  with True assms have e: "0 < br_end br2" "fd' = fd2" "br_end br' = br_end br2" "br_pos br' = br_pos br2"
      "0 \<le> br_pos br2" "br_pos br2 < int (length (br_buf br2))"
    by (auto simp: read_byte_def split: if_splits)
  have "0 < length (br_buf br)"
  proof (rule ccontr)
    assume "\<not> 0 < length (br_buf br)"
    with f e show False
      by (cases "(length (br_buf br), fd)" rule: sys_read.cases)
        (auto simp: br_fill_def split: if_splits)
  qed
  with br_fill_left [OF f e(1)] have "br_left fd2 br2 < stream_size fd" by simp
  with e show ?thesis by (simp add: br_left_def)
next
  case False
  with assms show ?thesis by (auto simp: read_byte_def br_left_def Let_def split: if_splits)
qed

section \<open>The parser\<close>

text \<open>\<open>isspace\<close> of the C locale\<close>

definition c_isspace :: "char \<Rightarrow> bool" where
  "c_isspace c \<longleftrightarrow> c = CHR '' '' \<or> 9 \<le> (of_char c :: nat) \<and> (of_char c :: nat) \<le> 13"

datatype label = Seek_to_eol | Skip_leading_ws | Skip_n_fields

text \<open>
  What follows the loops of a line: one more byte, the two hexadecimal digits, the check of the
  value and the count. \<open>prev\<close> and \<open>cur\<close> are neighbours in memory. \<^term>\<open>Inl\<close> is
  \<open>goto end\<close>, \<^term>\<open>Inr\<close> is \<open>goto seek_to_eol\<close> with the new counters.
\<close>

definition count_state ::
  "char \<Rightarrow> char \<Rightarrow> u64 list \<Rightarrow> nat \<Rightarrow> (unit + u64 list) option" where
  "count_state prev cur store lstore = do {
     (i, n) \<leftarrow> scan_hex [prev, cur] 2 (Some (0 :: u32));
     val \<leftarrow> n;
     if i \<noteq> 2 then Some (Inl ())
     else if unat val > lstore then Some (Inl ())
     else do { store \<leftarrow> arr_add store (unat val) 1; Some (Inr store) } }"

function proc_tcp ::
  "label \<Rightarrow> stream \<Rightarrow> reader \<Rightarrow> int \<Rightarrow> u64 list \<Rightarrow> nat \<Rightarrow> int \<Rightarrow> (u64 list \<times> int) option" where
  "proc_tcp Seek_to_eol fd r state_field store lstore rc = do {
     (ok, fd, r) \<leftarrow> read_byte fd r;
     if \<not> ok then Some (store, rc)
     else if br_err r \<noteq> 0 then Some (store, rc)
     else if br_cur r = LF then proc_tcp Skip_leading_ws fd r state_field store lstore rc
     else proc_tcp Seek_to_eol fd r state_field store lstore rc }"
| "proc_tcp Skip_leading_ws fd r state_field store lstore rc = do {
     (ok, fd, r) \<leftarrow> read_byte fd r;
     if \<not> ok then Some (store, rc)
     else if br_err r \<noteq> 0 then Some (store, rc)
     else if \<not> c_isspace (br_cur r)
     then proc_tcp Skip_n_fields fd (r\<lparr>br_field := 0, br_prev := br_cur r\<rparr>) state_field store lstore rc
     else proc_tcp Skip_leading_ws fd r state_field store lstore rc }"
| "proc_tcp Skip_n_fields fd r state_field store lstore rc =
     (if br_field r < state_field then do {
        (ok, fd, r) \<leftarrow> read_byte fd r;
        if \<not> ok then Some (store, rc)
        else if br_err r \<noteq> 0 then Some (store, rc)
        else let f = (if c_isspace (br_prev r) \<and> \<not> c_isspace (br_cur r)
                 then br_field r + 1 else br_field r)
             in proc_tcp Skip_n_fields fd (r\<lparr>br_field := f, br_prev := br_cur r\<rparr>)
                  state_field store lstore rc }
      else if br_field r \<noteq> state_field then Some (store, rc)
      else do {
        (ok, fd, r) \<leftarrow> read_byte fd r;
        if \<not> ok then Some (store, rc) else do {
        c \<leftarrow> count_state (br_prev r) (br_cur r) store lstore;
        (case c of
           Inl _ \<Rightarrow> Some (store, rc)
         | Inr store \<Rightarrow> proc_tcp Seek_to_eol fd r state_field store lstore 1) }})"
  by pat_completeness auto
termination
  by (relation "measure (\<lambda>(lab, fd, r, sf, store, lstore, rc). br_left fd r)")
    (auto simp: br_left_def dest!: read_byte_left)

declare proc_tcp.simps [simp del]

definition process_proc_tcp ::
  "stream \<Rightarrow> int \<Rightarrow> u64 list \<Rightarrow> nat \<Rightarrow> (u64 list \<times> int) option" where
  "process_proc_tcp fd state_field store lstore =
     proc_tcp Seek_to_eol fd br_init state_field store lstore 0"

section \<open>Initialisation\<close>

text \<open>
  The arguments are what opening \<^verbatim>\<open>/proc/net/tcp\<close> and \<^verbatim>\<open>/proc/net/tcp6\<close> gives, \<^term>\<open>None\<close>
  for a failed call. The result is the return value and the new state.
\<close>

definition init_tcp_stats_via_proc_net_tcp ::
  "stream option \<Rightarrow> stream option \<Rightarrow> tcp_state \<Rightarrow> (int \<times> tcp_state) option" where
  "init_tcp_stats_via_proc_net_tcp tcp4 tcp6 st = (case tcp4 of
     None \<Rightarrow> Some (0, st)
   | Some fd \<Rightarrow> do {
       let all = replicate n_tcp_states 0;
       let c4 = replicate n_tcp_states 0;
       let c6 = replicate n_tcp_states 0;
       (c4, _) \<leftarrow> process_proc_tcp fd 3 c4 n_tcp_states;
       (all, c4) \<leftarrow> sum_counters TCP_STATE_FIRST TCP_STATE_LAST INDEX_TOTAL all c4;
       (all, c6) \<leftarrow> (case tcp6 of
           None \<Rightarrow> Some (all, c6)
         | Some fd \<Rightarrow> do {
             (c6, _) \<leftarrow> process_proc_tcp fd 3 c6 n_tcp_states;
             sum_counters TCP_STATE_FIRST TCP_STATE_LAST INDEX_TOTAL all c6 });
       Some (1, st\<lparr>tcp_counters := all, tcp4_counters := c4, tcp6_counters := c6\<rparr>) })"

text \<open>Without \<open>USTAT_NETLINK\<close>, which no build defines.\<close>

definition init_tcp_stats ::
  "stream option \<Rightarrow> stream option \<Rightarrow> tcp_state \<Rightarrow> (int \<times> tcp_state) option" where
  "init_tcp_stats tcp4 tcp6 st = init_tcp_stats_via_proc_net_tcp tcp4 tcp6 st"

definition tcp_init ::
  "stream option \<Rightarrow> stream option \<Rightarrow> tcp_state \<Rightarrow> ustat_module \<Rightarrow>
     (int \<times> tcp_state \<times> ustat_module) option" where
  "tcp_init tcp4 tcp6 st m =
     (if tcp_inited st then Some (1, st, m\<lparr>mod_ready := True\<rparr>)
      else do {
        (rc, st) \<leftarrow> init_tcp_stats tcp4 tcp6 st;
        if rc = 0 then Some (0, st, m)
        else Some (1, st\<lparr>tcp_inited := True\<rparr>, m\<lparr>mod_ready := True\<rparr>) })"

section \<open>Output\<close>

definition tcp_print_num :: "nat \<Rightarrow> u64 \<Rightarrow> printed" where
  "tcp_print_num fd val = do { s \<leftarrow> fmt_exact fmt_uint64 val; Some ([(fd, s)], 1) }"

definition tcp_print_at :: "nat \<Rightarrow> u64 list \<Rightarrow> nat \<Rightarrow> printed" where
  "tcp_print_at fd counters i = do { v \<leftarrow> arr_get counters i; tcp_print_num fd v }"

definition ntcp_established_print :: "tcp_state \<Rightarrow> nat \<Rightarrow> printed" where
  "ntcp_established_print st fd = tcp_print_at fd (tcp_counters st) TCP_ESTABLISHED"
definition ntcp_all_print :: "tcp_state \<Rightarrow> nat \<Rightarrow> printed" where
  "ntcp_all_print st fd = tcp_print_at fd (tcp_counters st) INDEX_TOTAL"
definition ntcp_closing_print :: "tcp_state \<Rightarrow> nat \<Rightarrow> printed" where
  "ntcp_closing_print st fd = tcp_print_at fd (tcp_counters st) TCP_CLOSING"
definition ntcp_listen_print :: "tcp_state \<Rightarrow> nat \<Rightarrow> printed" where
  "ntcp_listen_print st fd = tcp_print_at fd (tcp_counters st) TCP_LISTEN"
definition ntcp6_established_print :: "tcp_state \<Rightarrow> nat \<Rightarrow> printed" where
  "ntcp6_established_print st fd = tcp_print_at fd (tcp6_counters st) TCP_ESTABLISHED"
definition ntcp6_all_print :: "tcp_state \<Rightarrow> nat \<Rightarrow> printed" where
  "ntcp6_all_print st fd = tcp_print_at fd (tcp6_counters st) INDEX_TOTAL"
definition ntcp6_closing_print :: "tcp_state \<Rightarrow> nat \<Rightarrow> printed" where
  "ntcp6_closing_print st fd = tcp_print_at fd (tcp6_counters st) TCP_CLOSING"
definition ntcp6_listen_print :: "tcp_state \<Rightarrow> nat \<Rightarrow> printed" where
  "ntcp6_listen_print st fd = tcp_print_at fd (tcp6_counters st) TCP_LISTEN"
definition ntcp4_established_print :: "tcp_state \<Rightarrow> nat \<Rightarrow> printed" where
  "ntcp4_established_print st fd = tcp_print_at fd (tcp4_counters st) TCP_ESTABLISHED"
definition ntcp4_all_print :: "tcp_state \<Rightarrow> nat \<Rightarrow> printed" where
  "ntcp4_all_print st fd = tcp_print_at fd (tcp4_counters st) INDEX_TOTAL"
definition ntcp4_closing_print :: "tcp_state \<Rightarrow> nat \<Rightarrow> printed" where
  "ntcp4_closing_print st fd = tcp_print_at fd (tcp4_counters st) TCP_CLOSING"
definition ntcp4_listen_print :: "tcp_state \<Rightarrow> nat \<Rightarrow> printed" where
  "ntcp4_listen_print st fd = tcp_print_at fd (tcp4_counters st) TCP_LISTEN"

function ntcp_print_loop :: "tcp_state \<Rightarrow> nat \<Rightarrow> nat \<Rightarrow> out option" where
  "ntcp_print_loop st fd i = (if i < n_tcp_states then do {
     (a, _) \<leftarrow> tcp_print_at fd (tcp_counters st) i;
     (b, _) \<leftarrow> tcp_print_at fd (tcp4_counters st) i;
     (c, _) \<leftarrow> tcp_print_at fd (tcp6_counters st) i;
     rest \<leftarrow> ntcp_print_loop st fd (i + 1);
     Some (a @ [(fd, ''.'')] @ b @ [(fd, ''.'')] @ c @ [(fd, '' '')] @ rest) }
     else Some [])"
  by pat_completeness auto
termination
  by (relation "measure (\<lambda>(st, fd, i). n_tcp_states - i)") auto

declare ntcp_print_loop.simps [simp del]

text \<open>The first number is the index of the total, as in the source.\<close>

definition ntcp_print :: "tcp_state \<Rightarrow> nat \<Rightarrow> printed" where
  "ntcp_print st fd = do {
     (a, _) \<leftarrow> tcp_print_num fd (of_nat INDEX_TOTAL);
     rest \<leftarrow> ntcp_print_loop st fd 0;
     Some (a @ [(fd, '':'')] @ rest, 1) }"

section \<open>sum_counters\<close>

lemma sum_counters_loop_eq:
  assumes "final < length from" and "final < length to" and "tot < length from"
    and "tot \<notin> {i..final}" and "i \<le> final + 1"
  shows "sum_counters_loop i final tot to from = Some
    (map (\<lambda>k. if i \<le> k \<and> k \<le> final then to ! k + from ! k else to ! k) [0..<length to],
     from[tot := from ! tot + sum_list (map ((!) from) [i..<final + 1])])"
  using assms
proof (induction "final + 1 - i" arbitrary: i to "from")
  case 0
  then have i: "i = final + 1" by simp
  have "map (\<lambda>k. if i \<le> k \<and> k \<le> final then to ! k + from ! k else to ! k) [0..<length to] = to"
    by (rule nth_equalityI) (auto simp: i)
  then show ?case by (subst sum_counters_loop.simps) (simp add: i)
next
  case (Suc n)
  then have i: "i \<le> final" "i \<noteq> tot" by auto
  let ?from = "from[tot := from ! tot + from ! i]" and ?to = "to[i := to ! i + from ! i]"
  have step: "sum_counters_loop i final tot to from = sum_counters_loop (i + 1) final tot ?to ?from"
    using Suc.prems i by (subst sum_counters_loop.simps) (simp add: arr_get_def arr_add_def)
  have IH: "sum_counters_loop (i + 1) final tot ?to ?from = Some
    (map (\<lambda>k. if i + 1 \<le> k \<and> k \<le> final then ?to ! k + ?from ! k else ?to ! k) [0..<length ?to],
     ?from[tot := ?from ! tot + sum_list (map ((!) ?from) [i + 1..<final + 1])])"
    using Suc.hyps(2) Suc.prems i by (intro Suc.hyps(1)) auto
  have sum: "sum_list (map ((!) ?from) [i + 1..<final + 1]) = sum_list (map ((!) from) [i + 1..<final + 1])"
    using Suc.prems i by (intro arg_cong [where f = sum_list] map_cong) auto
  have "[i..<final + 1] = i # [i + 1..<final + 1]" using i by (simp add: upt_conv_Cons)
  then have tot: "?from[tot := ?from ! tot + sum_list (map ((!) ?from) [i + 1..<final + 1])] =
      from[tot := from ! tot + sum_list (map ((!) from) [i..<final + 1])]"
    unfolding sum using Suc.prems by (simp add: add.assoc del: upt_Suc)
  have to: "map (\<lambda>k. if i + 1 \<le> k \<and> k \<le> final then ?to ! k + ?from ! k else ?to ! k) [0..<length ?to] =
      map (\<lambda>k. if i \<le> k \<and> k \<le> final then to ! k + from ! k else to ! k) [0..<length to]"
    using Suc.prems i by (intro map_cong) (auto simp: nth_list_update)
  show ?case unfolding step IH tot to ..
qed

lemma sum_counters_eq:
  assumes "final < length from" and "final < length to" and "tot < length from" and "tot < length to"
    and "tot \<notin> {first..final}" and "first \<le> final + 1"
  shows "sum_counters first final tot to from =
    (let t = from ! tot + sum_list (map ((!) from) [first..<final + 1]) in Some
      (map (\<lambda>k. if k = tot then to ! k + t
          else if first \<le> k \<and> k \<le> final then to ! k + from ! k else to ! k) [0..<length to],
       from[tot := t]))"
proof -
  have "(map (\<lambda>k. if first \<le> k \<and> k \<le> final then to ! k + from ! k else to ! k) [0..<length to])
      [tot := to ! tot + t] =
    map (\<lambda>k. if k = tot then to ! k + t
      else if first \<le> k \<and> k \<le> final then to ! k + from ! k else to ! k) [0..<length to]" for t
    by (rule nth_equalityI) (auto simp: nth_list_update)
  then show ?thesis
    using assms sum_counters_loop_eq [of final "from" to tot first]
    by (auto simp: sum_counters_def arr_get_def arr_add_def Let_def)
qed

section \<open>The buffered reader delivers the bytes of the file\<close>

definition br_pending :: "stream \<Rightarrow> reader \<Rightarrow> string" where
  "br_pending fd r = drop (nat (br_pos r + 1)) (take (nat (br_end r)) (br_buf r)) @ content fd"

definition br_ok :: "stream \<Rightarrow> reader \<Rightarrow> bool" where
  "br_ok fd r \<longleftrightarrow> clean fd \<and> 0 < length (br_buf r) \<and> 0 \<le> br_pos r \<and>
     0 \<le> br_end r \<and> br_end r \<le> int (length (br_buf r)) \<and> br_err r = 0"

lemma br_ok_init: "clean fd \<Longrightarrow> br_ok fd br_init"
  by (simp add: br_ok_def br_init_def BR_SIZE_def)

lemma br_pending_init: "br_pending fd br_init = content fd"
  by (simp add: br_pending_def br_init_def)

lemma br_frame [simp]:
  "br_pending fd (r\<lparr>br_field := f, br_prev := p\<rparr>) = br_pending fd r"
  "br_ok fd (r\<lparr>br_field := f, br_prev := p\<rparr>) = br_ok fd r"
  by (simp_all add: br_pending_def br_ok_def)

lemma read_byte_pending:
  assumes "br_ok fd r"
  shows "(br_pending fd r = [] \<and> (\<exists>fd' r'. read_byte fd r = Some (False, fd', r'))) \<or>
    (\<exists>c s fd' r'. br_pending fd r = c # s \<and> read_byte fd r = Some (True, fd', r') \<and>
      br_ok fd' r' \<and> br_pending fd' r' = s \<and> br_cur r' = c \<and> br_prev r' = br_prev r \<and>
      br_field r' = br_field r)"
proof (cases "br_pos r + 1 \<ge> br_end r")
  case False
  let ?p = "nat (br_pos r + 1)"
  have p: "?p < nat (br_end r)" "nat (br_end r) \<le> length (br_buf r)"
    using False assms by (auto simp: br_ok_def)
  then have "drop ?p (take (nat (br_end r)) (br_buf r)) =
      br_buf r ! ?p # drop (Suc ?p) (take (nat (br_end r)) (br_buf r))"
    by (simp add: Cons_nth_drop_Suc [symmetric])
  moreover have "Suc ?p = nat (br_pos r + 1 + 1)"
    using assms by (simp add: br_ok_def nat_add_distrib)
  moreover define r' where
    "r' = r\<lparr>br_pos := br_pos r + 1, br_consumed := br_consumed r + 1, br_cur := br_buf r ! ?p\<rparr>"
  ultimately have "br_pending fd r = br_cur r' # br_pending fd r'"
    by (simp add: br_pending_def)
  moreover have "read_byte fd r = Some (True, fd, r')"
    using False assms p by (simp add: read_byte_def br_ok_def r'_def Let_def)
  moreover have "br_ok fd r'" "br_prev r' = br_prev r" "br_field r' = br_field r"
    using assms by (simp_all add: br_ok_def r'_def)
  ultimately show ?thesis by blast
next
  case True
  then have pend: "br_pending fd r = content fd" by (simp add: br_pending_def)
  obtain k s fd' where rd: "sys_read (length (br_buf r)) fd = (k, s, fd')"
    by (metis prod_cases3)
  have pre: "clean fd" "0 < length (br_buf r)" using assms by (simp_all add: br_ok_def)
  from sys_read_clean [OF pre rd]
  have cl: "clean fd'" "content fd = s @ content fd'" "k = int (length s)"
    "length s \<le> length (br_buf r)" "s = [] \<longleftrightarrow> content fd = []"
    by blast+
  show ?thesis
  proof (cases s)
    case Nil
    with cl True show ?thesis by (simp add: pend read_byte_def br_fill_def rd Let_def)
  next
    case (Cons c t)
    define r' where "r' = r\<lparr>br_pos := 0, br_end := k,
      br_buf := s @ drop (length s) (br_buf r), br_consumed := br_consumed r + 1, br_cur := c\<rparr>"
    have len: "0 < length s" "length (br_buf r') = length (br_buf r)"
      using Cons cl by (simp_all add: r'_def)
    have "read_byte fd r = Some (True, fd', r')"
      using True cl(3,4) len pre(2) by (simp add: read_byte_def br_fill_def rd r'_def Cons Let_def)
    moreover have "nat k = length s" using cl(3) by simp
    then have "br_pending fd' r' = tl s @ content fd'"
      by (simp add: br_pending_def r'_def drop_Suc)
    then have "br_pending fd' r' = t @ content fd'" by (simp add: Cons)
    moreover have "br_cur r' = c" "br_prev r' = br_prev r" "br_field r' = br_field r"
      by (simp_all add: r'_def)
    moreover have "br_ok fd' r'"
      using assms cl len by (simp add: br_ok_def r'_def)
    ultimately show ?thesis using cl(2) Cons unfolding pend by simp
  qed
qed

section \<open>The parser on the whole text\<close>

text \<open>The same three loops on the text that is still to be read.\<close>

fun tcp_flat ::
  "label \<Rightarrow> string \<Rightarrow> char \<Rightarrow> int \<Rightarrow> int \<Rightarrow> u64 list \<Rightarrow> nat \<Rightarrow> int \<Rightarrow> (u64 list \<times> int) option" where
  "tcp_flat Seek_to_eol [] p f sf store l rc = Some (store, rc)"
| "tcp_flat Seek_to_eol (c # s) p f sf store l rc =
     (if c = LF then tcp_flat Skip_leading_ws s p f sf store l rc
      else tcp_flat Seek_to_eol s p f sf store l rc)"
| "tcp_flat Skip_leading_ws [] p f sf store l rc = Some (store, rc)"
| "tcp_flat Skip_leading_ws (c # s) p f sf store l rc =
     (if \<not> c_isspace c then tcp_flat Skip_n_fields s c 0 sf store l rc
      else tcp_flat Skip_leading_ws s p f sf store l rc)"
| "tcp_flat Skip_n_fields [] p f sf store l rc = Some (store, rc)"
| "tcp_flat Skip_n_fields (c # s) p f sf store l rc =
     (if f < sf
      then tcp_flat Skip_n_fields s c (if c_isspace p \<and> \<not> c_isspace c then f + 1 else f) sf store l rc
      else if f \<noteq> sf then Some (store, rc)
      else do {
        r \<leftarrow> count_state p c store l;
        (case r of Inl _ \<Rightarrow> Some (store, rc)
         | Inr store \<Rightarrow> tcp_flat Seek_to_eol s p f sf store l 1) })"

lemma read_byteE:
  assumes "br_ok fd r"
  obtains (eof) fd' r' where "br_pending fd r = []" "read_byte fd r = Some (False, fd', r')"
  | (byte) fd' r' where "br_pending fd r = br_cur r' # br_pending fd' r'"
      "read_byte fd r = Some (True, fd', r')" "br_ok fd' r'" "br_err r' = 0"
      "br_prev r' = br_prev r" "br_field r' = br_field r"
  using read_byte_pending [OF assms] that by (auto simp: br_ok_def)

lemma proc_tcp_flat:
  "br_ok fd r \<Longrightarrow> proc_tcp lab fd r sf store l rc =
    tcp_flat lab (br_pending fd r) (br_prev r) (br_field r) sf store l rc"
proof (induction lab fd r sf store l rc rule: proc_tcp.induct)
  case (1 fd r sf store l rc)
  from "1.prems" show ?case
  proof (cases rule: read_byteE)
    case eof
    then show ?thesis by (subst proc_tcp.simps) simp
  next
    case (byte fd' r')
    with "1.IH" show ?thesis by (subst proc_tcp.simps) simp
  qed
next
  case (2 fd r sf store l rc)
  from "2.prems" show ?case
  proof (cases rule: read_byteE)
    case eof
    then show ?thesis by (subst proc_tcp.simps) simp
  next
    case (byte fd' r')
    with "2.IH" show ?thesis by (subst proc_tcp.simps) simp
  qed
next
  case (3 fd r sf store l rc)
  from "3.prems" show ?case
  proof (cases rule: read_byteE)
    case eof
    then show ?thesis by (subst proc_tcp.simps) simp
  next
    case (byte fd' r')
    then show ?thesis
      using "3.IH" by (subst proc_tcp.simps)
        (auto simp: Let_def split: sum.split intro!: Option.bind_cong)
  qed
qed

lemma process_proc_tcp_flat:
  "clean fd \<Longrightarrow> process_proc_tcp fd sf store l =
    tcp_flat Seek_to_eol (content fd) NUL 0 sf store l 0"
  using proc_tcp_flat [OF br_ok_init]
  by (simp add: process_proc_tcp_def br_pending_init) (simp add: br_init_def)

section \<open>Lines of the proc files\<close>

text \<open>
  A line has leading blanks, three fields, the state in two hexadecimal digits, and a rest that
  the parser skips.
\<close>

record tcp_line =
  tl_blank :: string
  tl_field0 :: string
  tl_gap0 :: string
  tl_field1 :: string
  tl_gap1 :: string
  tl_field2 :: string
  tl_gap2 :: string
  tl_hi :: char
  tl_lo :: char
  tl_rest :: string

definition line_text :: "tcp_line \<Rightarrow> string" where
  "line_text x = tl_blank x @ tl_field0 x @ tl_gap0 x @ tl_field1 x @ tl_gap1 x @ tl_field2 x @
     tl_gap2 x @ [tl_hi x, tl_lo x] @ tl_rest x @ [LF]"

definition line_state :: "tcp_line \<Rightarrow> nat" where
  "line_state x = 16 * hval (tl_hi x) + hval (tl_lo x)"

definition is_field :: "string \<Rightarrow> bool" where
  "is_field f \<longleftrightarrow> f \<noteq> [] \<and> list_all (\<lambda>c. \<not> c_isspace c) f"

definition is_gap :: "string \<Rightarrow> bool" where
  "is_gap g \<longleftrightarrow> g \<noteq> [] \<and> list_all c_isspace g"

definition line_ok :: "tcp_line \<Rightarrow> bool" where
  "line_ok x \<longleftrightarrow> list_all c_isspace (tl_blank x) \<and>
     is_field (tl_field0 x) \<and> is_gap (tl_gap0 x) \<and> is_field (tl_field1 x) \<and> is_gap (tl_gap1 x) \<and>
     is_field (tl_field2 x) \<and> is_gap (tl_gap2 x) \<and>
     is_xdigit (tl_hi x) \<and> is_xdigit (tl_lo x) \<and> LF \<notin> set (tl_rest x)"

lemma flat_seek:
  "LF \<notin> set h \<Longrightarrow> tcp_flat Seek_to_eol (h @ LF # s) p f sf store l rc =
    tcp_flat Skip_leading_ws s p f sf store l rc"
  by (induction h) auto

lemma flat_blank:
  "list_all c_isspace b \<Longrightarrow> \<not> c_isspace c \<Longrightarrow>
    tcp_flat Skip_leading_ws (b @ c # s) p f sf store l rc =
    tcp_flat Skip_n_fields s c 0 sf store l rc"
  by (induction b) auto

lemma flat_field:
  "list_all (\<lambda>c. \<not> c_isspace c) t \<Longrightarrow> \<not> c_isspace p \<Longrightarrow> f < sf \<Longrightarrow>
    \<exists>q. \<not> c_isspace q \<and> tcp_flat Skip_n_fields (t @ s) p f sf store l rc =
      tcp_flat Skip_n_fields s q f sf store l rc"
  by (induction t arbitrary: p) auto

lemma flat_spaces:
  "list_all c_isspace g \<Longrightarrow> c_isspace p \<Longrightarrow> f < sf \<Longrightarrow> \<not> c_isspace c \<Longrightarrow>
    tcp_flat Skip_n_fields (g @ c # s) p f sf store l rc =
      tcp_flat Skip_n_fields s c (f + 1) sf store l rc"
  by (induction g arbitrary: p) auto

lemma flat_gap:
  "is_gap g \<Longrightarrow> \<not> c_isspace p \<Longrightarrow> f < sf \<Longrightarrow> \<not> c_isspace c \<Longrightarrow>
    tcp_flat Skip_n_fields (g @ c # s) p f sf store l rc =
      tcp_flat Skip_n_fields s c (f + 1) sf store l rc"
  by (cases g) (auto simp: is_gap_def flat_spaces)

text \<open>One field and the gap behind it, up to the first character of the next field.\<close>

lemma flat_field_gap:
  assumes "list_all (\<lambda>c. \<not> c_isspace c) t" and "is_gap g" and "\<not> c_isspace p" and "f < sf"
    and "\<not> c_isspace c"
  shows "tcp_flat Skip_n_fields (t @ g @ c # s) p f sf store l rc =
    tcp_flat Skip_n_fields s c (f + 1) sf store l rc"
proof -
  obtain q where "\<not> c_isspace q" "tcp_flat Skip_n_fields (t @ g @ c # s) p f sf store l rc =
      tcp_flat Skip_n_fields (g @ c # s) q f sf store l rc"
    using flat_field [OF assms(1,3,4)] by blast
  with assms show ?thesis by (simp add: flat_gap)
qed

lemma is_field_Cons: "is_field t \<Longrightarrow> \<exists>c u. t = c # u \<and> \<not> c_isspace c \<and> list_all (\<lambda>c. \<not> c_isspace c) u"
  by (cases t) (auto simp: is_field_def)

lemma xdigit_not_space: "is_xdigit c \<Longrightarrow> \<not> c_isspace c"
  by (auto simp: is_xdigit_def is_digit_def c_isspace_def)

lemma count_state_eq:
  assumes "is_xdigit a" and "is_xdigit b"
  shows "count_state a b store l = (let v = 16 * hval a + hval b in
    if v > l then Some (Inl ())
    else if v < length store then Some (Inr (store[v := store ! v + 1])) else None)"
proof -
  have v: "16 * hval a + hval b < 2 ^ 32"
    using hval_less [OF assms(1)] hval_less [OF assms(2)] by simp
  have "hex_shift [a, b] (0 :: u32) = of_nat (16 * hval a + hval b)"
    by (simp add: hex_shift_def)
  moreover have "unat (of_nat (16 * hval a + hval b) :: u32) = 16 * hval a + hval b"
    using v by (simp only: unat_of_nat) simp
  ultimately show ?thesis
    using assms by (simp add: count_state_def scan_hex_eq hex_prefix_def arr_add_def Let_def
        numeral_2_eq_2 del: of_nat_add of_nat_mult)
qed

text \<open>A line is read up to its state, which is then counted.\<close>

lemma flat_line:
  assumes "line_ok x"
  shows "tcp_flat Skip_leading_ws (line_text x @ s) p f 3 store l rc = do {
    r \<leftarrow> count_state (tl_hi x) (tl_lo x) store l;
    (case r of Inl _ \<Rightarrow> Some (store, rc)
     | Inr store \<Rightarrow> tcp_flat Seek_to_eol (tl_rest x @ LF # s) (tl_hi x) 3 3 store l 1) }"
proof -
  from assms obtain c0 u0 c1 u1 c2 u2 where
    f: "tl_field0 x = c0 # u0" "tl_field1 x = c1 # u1" "tl_field2 x = c2 # u2"
    and n: "\<not> c_isspace c0" "\<not> c_isspace c1" "\<not> c_isspace c2"
    and u: "list_all (\<lambda>c. \<not> c_isspace c) u0" "list_all (\<lambda>c. \<not> c_isspace c) u1"
      "list_all (\<lambda>c. \<not> c_isspace c) u2"
    unfolding line_ok_def by (metis is_field_Cons)
  have g: "is_gap (tl_gap0 x)" "is_gap (tl_gap1 x)" "is_gap (tl_gap2 x)" "\<not> c_isspace (tl_hi x)"
    "list_all c_isspace (tl_blank x)"
    using assms by (auto simp: line_ok_def xdigit_not_space)
  show ?thesis
    by (simp add: line_text_def f flat_blank [OF g(5) n(1)] flat_field_gap [OF u(1) g(1) n(1) _ n(2)]
        flat_field_gap [OF u(2) g(2) n(2) _ n(3)] flat_field_gap [OF u(3) g(3) n(3) _ g(4)])
qed

definition bump :: "u64 list \<Rightarrow> nat \<Rightarrow> u64 list" where
  "bump store v = store[v := store ! v + 1]"

lemma length_foldl_bump [simp]: "length (foldl bump store vs) = length store"
  by (induction vs arbitrary: store) (simp_all add: bump_def)

lemma foldl_bump_nth:
  "i < length store \<Longrightarrow> \<forall>v \<in> set vs. v < length store \<Longrightarrow>
    foldl bump store vs ! i = store ! i + of_nat (count_list vs i)"
  by (induction vs arbitrary: store) (auto simp: bump_def nth_list_update)

lemma flat_lines:
  assumes "list_all line_ok xs" and "\<forall>x \<in> set xs. line_state x < length store"
    and "length store \<le> l"
  shows "tcp_flat Skip_leading_ws (concat (map line_text xs) @ t) p f 3 store l rc =
    (if xs = [] then tcp_flat Skip_leading_ws t p f 3 store l rc
     else tcp_flat Skip_leading_ws t (tl_hi (last xs)) 3 3 (foldl bump store (map line_state xs)) l 1)"
  using assms
proof (induction xs arbitrary: p f store rc)
  case Nil
  then show ?case by simp
next
  case (Cons x xs)
  then have x: "line_ok x" "line_state x < length store" "\<not> line_state x > l" by auto
  then have c: "count_state (tl_hi x) (tl_lo x) store l = Some (Inr (bump store (line_state x)))"
    by (simp add: count_state_eq line_ok_def Let_def bump_def line_state_def)
  have "tcp_flat Skip_leading_ws (concat (map line_text (x # xs)) @ t) p f 3 store l rc =
    tcp_flat Skip_leading_ws (concat (map line_text xs) @ t) (tl_hi x) 3 3 (bump store (line_state x)) l 1"
    using x flat_line [OF x(1), of "concat (map line_text xs) @ t"]
    by (simp add: c flat_seek line_ok_def)
  also have "\<dots> = (if xs = [] then tcp_flat Skip_leading_ws t (tl_hi x) 3 3 (bump store (line_state x)) l 1
     else tcp_flat Skip_leading_ws t (tl_hi (last xs)) 3 3
       (foldl bump (bump store (line_state x)) (map line_state xs)) l 1)"
    using Cons.prems by (cases "xs = []") (simp, subst Cons.IH, auto simp: bump_def)
  finally show ?case by auto
qed

text \<open>The counters of one file: a heading line, then one line per socket.\<close>

definition tally :: "tcp_line list \<Rightarrow> u64 list" where
  "tally xs = map (\<lambda>i. of_nat (count_list (map line_state xs) i)) [0..<n_tcp_states]"

definition proc_text :: "string \<Rightarrow> tcp_line list \<Rightarrow> string" where
  "proc_text h xs = h @ LF # concat (map line_text xs)"

lemma length_tally [simp]: "length (tally xs) = n_tcp_states"
  by (simp add: tally_def)

lemma process_lines:
  assumes "clean fd" and "content fd = proc_text h xs" and "LF \<notin> set h" and "list_all line_ok xs"
    and "\<forall>x \<in> set xs. line_state x < n_tcp_states"
  shows "process_proc_tcp fd 3 (replicate n_tcp_states 0) n_tcp_states =
    Some (tally xs, if xs = [] then 0 else 1)"
proof -
  have "foldl bump (replicate n_tcp_states 0) (map line_state xs) = tally xs"
    using assms(5) by (intro nth_equalityI) (auto simp: foldl_bump_nth tally_def)
  moreover have "tally [] = replicate n_tcp_states 0"
    by (simp add: tally_def map_replicate_const)
  ultimately show ?thesis
    using assms flat_lines [of xs "replicate n_tcp_states 0" n_tcp_states "[]"]
    by (simp add: process_proc_tcp_flat proc_text_def flat_seek)
qed

text \<open>A socket in the first state the table has no room for is written past the table.\<close>

lemma process_state_12:
  assumes "clean fd" and "content fd = proc_text h (xs @ x # ys)" and "LF \<notin> set h"
    and "list_all line_ok xs" and "\<forall>x \<in> set xs. line_state x < n_tcp_states"
    and "line_ok x" and "line_state x = n_tcp_states"
  shows "process_proc_tcp fd 3 (replicate n_tcp_states 0) n_tcp_states = None"
proof -
  have c: "count_state (tl_hi x) (tl_lo x) store n_tcp_states = None"
    if "length store = n_tcp_states" for store
    using assms(6,7) that by (simp add: count_state_eq line_ok_def line_state_def)
  have "tcp_flat Skip_leading_ws (line_text x @ s) p f 3 store n_tcp_states rc = None"
    if "length store = n_tcp_states" for s p f store rc
    using that by (simp add: flat_line assms(6) c)
  with assms flat_lines [of xs "replicate n_tcp_states 0" n_tcp_states "line_text x @ concat (map line_text ys)"]
  show ?thesis by (simp add: process_proc_tcp_flat proc_text_def flat_seek)
qed

section \<open>The three tables\<close>

text \<open>The sockets in the states the tables name, and the invariant that initialisation leaves.\<close>

definition with_total :: "u64 list \<Rightarrow> u64 list" where
  "with_total c = c[INDEX_TOTAL := c ! INDEX_TOTAL + sum_list (map ((!) c) [1..<n_tcp_states])]"

definition table_ok :: "tcp_state \<Rightarrow> bool" where
  "table_ok st \<longleftrightarrow>
     length (tcp_counters st) = n_tcp_states \<and> length (tcp4_counters st) = n_tcp_states \<and>
     length (tcp6_counters st) = n_tcp_states \<and>
     list_all (\<lambda>i. tcp_counters st ! i = tcp4_counters st ! i + tcp6_counters st ! i) [0..<n_tcp_states] \<and>
     list_all (\<lambda>c. c ! INDEX_TOTAL = sum_list (map ((!) c) [1..<n_tcp_states]))
       [tcp_counters st, tcp4_counters st, tcp6_counters st]"

lemma sum_counters_table:
  assumes "length to = n_tcp_states" and "length from = n_tcp_states"
  shows "sum_counters TCP_STATE_FIRST TCP_STATE_LAST INDEX_TOTAL to from =
    Some (map2 (+) to (with_total from), with_total from)"
proof -
  have maps: "map (\<lambda>k. if k = 0 then to ! k + w
          else if 1 \<le> k \<and> k \<le> 11 then to ! k + from ! k else to ! k) [0..<length to] =
     map2 (+) to (from[0 := w])" for w
    using assms by (intro nth_equalityI) (auto simp: n_tcp_states_def nth_list_update)
  have "sum_counters 1 11 0 to from =
    (let t = from ! 0 + sum_list (map ((!) from) [1..<12]) in Some
      (map2 (+) to (from[0 := t]), from[0 := t]))"
    using assms sum_counters_eq [of 11 "from" to 0 1]
    unfolding maps by (simp add: n_tcp_states_def)
  then show ?thesis
    by (simp add: TCP_STATE_FIRST_def TCP_STATE_LAST_def TCP_ESTABLISHED_def TCP_CLOSING_def
        with_total_def INDEX_TOTAL_def n_tcp_states_def Let_def)
qed

lemma tcp_init_tables:
  assumes "\<not> tcp_inited st"
    and "process_proc_tcp fd4 3 (replicate n_tcp_states 0) n_tcp_states = Some (c4, k4)"
    and "length c4 = n_tcp_states"
    and "\<And>fd6. tcp6 = Some fd6 \<Longrightarrow>
      process_proc_tcp fd6 3 (replicate n_tcp_states 0) n_tcp_states = Some (c6, k6)"
    and "length c6 = n_tcp_states" and "tcp6 = None \<Longrightarrow> c6 = replicate n_tcp_states 0"
  shows "tcp_init (Some fd4) tcp6 st m = Some (1,
    \<lparr>tcp_counters = map2 (+) (with_total c4) (with_total c6), tcp4_counters = with_total c4,
     tcp6_counters = with_total c6, tcp_inited = True\<rparr>, m\<lparr>mod_ready := True\<rparr>)"
proof -
  have z: "map2 (+) (replicate n_tcp_states 0) (with_total c4) = with_total c4"
    using assms(3) by (intro nth_equalityI) (auto simp: with_total_def)
  have e: "with_total (replicate n_tcp_states 0) = replicate n_tcp_states 0"
    by (code_simp)
  have r: "map2 (+) (with_total c4) (replicate n_tcp_states 0) = with_total c4"
    using assms(3) by (intro nth_equalityI) (auto simp: with_total_def)
  have len: "length (with_total c4) = n_tcp_states" using assms(3) by (simp add: with_total_def)
  show ?thesis
  proof (cases tcp6)
    case None
    with assms show ?thesis
      by (simp add: tcp_init_def init_tcp_stats_def init_tcp_stats_via_proc_net_tcp_def
          sum_counters_table z e r)
  next
    case (Some fd6')
    with assms show ?thesis
      by (simp add: tcp_init_def init_tcp_stats_def init_tcp_stats_via_proc_net_tcp_def
          sum_counters_table z len)
  qed
qed

lemma sum_counts:
  assumes "set vs \<subseteq> {i..<n}"
  shows "sum_list (map (\<lambda>i. of_nat (count_list vs i)) [i..<n]) = (of_nat (length vs) :: u64)"
  using assms
proof (induction vs)
  case Nil
  show ?case by (simp add: sum_list_triv)
next
  case (Cons v vs)
  have one: "sum_list (map (\<lambda>i. if i = v then 1 else 0) [i..<n]) = (1 :: u64)"
    using Cons.prems by (simp add: interv_sum_list_conv_sum_set_nat)
  have "(\<lambda>i. of_nat (count_list (v # vs) i)) = (\<lambda>i. of_nat (count_list vs i) + (if i = v then 1 else 0 :: u64))"
    by auto
  then show ?case using Cons one by (simp add: sum_list_addf)
qed

text \<open>The lines of both protocols whose states the kernel documents.\<close>

definition known_lines :: "tcp_line list \<Rightarrow> bool" where
  "known_lines xs \<longleftrightarrow> list_all (\<lambda>x. line_ok x \<and> TCP_STATE_FIRST \<le> line_state x \<and> line_state x \<le> TCP_STATE_LAST) xs"

lemma known_states: "known_lines xs \<Longrightarrow> set (map line_state xs) \<subseteq> {1..<n_tcp_states}"
  by (auto simp: known_lines_def list_all_iff TCP_STATE_FIRST_def TCP_STATE_LAST_def
      TCP_ESTABLISHED_def TCP_CLOSING_def n_tcp_states_def)

lemma with_total_tally:
  assumes "known_lines xs"
  shows "with_total (tally xs) = (tally xs)[INDEX_TOTAL := of_nat (length xs)]"
proof -
  have "0 \<notin> set (map line_state xs)" using known_states [OF assms] by fastforce
  then have z: "tally xs ! 0 = 0" by (simp add: tally_def n_tcp_states_def count_list_0_iff)
  have "map ((!) (tally xs)) [1..<n_tcp_states] =
      map (\<lambda>i. of_nat (count_list (map line_state xs) i)) [1..<n_tcp_states]"
    by (intro map_cong) (auto simp: tally_def)
  then have "sum_list (map ((!) (tally xs)) [1..<n_tcp_states]) = of_nat (length (map line_state xs))"
    by (simp only: sum_counts [OF known_states [OF assms]])
  then show ?thesis by (simp add: with_total_def z INDEX_TOTAL_def)
qed

lemma ntcp_print_loop_eq:
  assumes "length (tcp_counters st) = n_tcp_states" and "length (tcp4_counters st) = n_tcp_states"
    and "length (tcp6_counters st) = n_tcp_states" and "i \<le> n_tcp_states"
  shows "\<exists>ws. ntcp_print_loop st fd i = Some ws \<and> written fd ws =
    concat (map (\<lambda>i. dec (unat (tcp_counters st ! i)) @ ''.'' @ dec (unat (tcp4_counters st ! i)) @
      ''.'' @ dec (unat (tcp6_counters st ! i)) @ '' '') [i..<n_tcp_states])"
  using assms
proof (induction "n_tcp_states - i" arbitrary: i)
  case 0
  then have "\<not> i < n_tcp_states" by simp
  then show ?case by (subst ntcp_print_loop.simps) (simp only: if_False, simp)
next
  case (Suc n)
  then have i: "i < n_tcp_states" by simp
  have n: "n = n_tcp_states - (i + 1)" "i + 1 \<le> n_tcp_states" using i Suc.hyps(2) by arith+
  obtain ws where ws: "ntcp_print_loop st fd (i + 1) = Some ws" "written fd ws =
    concat (map (\<lambda>i. dec (unat (tcp_counters st ! i)) @ ''.'' @ dec (unat (tcp4_counters st ! i)) @
      ''.'' @ dec (unat (tcp6_counters st ! i)) @ '' '') [i + 1..<n_tcp_states])"
    using Suc.hyps(1) [OF n(1) Suc.prems(1-3) n(2)] by blast
  let ?a = "\<lambda>c. [(fd, dec (unat (c st ! i)))] :: out"
  have run: "ntcp_print_loop st fd i = Some (?a tcp_counters @ [(fd, ''.'')] @ ?a tcp4_counters @
      [(fd, ''.'')] @ ?a tcp6_counters @ [(fd, '' '')] @ ws)"
    using Suc.prems i
    by (subst ntcp_print_loop.simps)
      (simp add: tcp_print_at_def tcp_print_num_def arr_get_def u64_fmt.exact ws(1) [simplified] del: bind_eq_Some)
  have upt: "[i..<n_tcp_states] = i # [i + 1..<n_tcp_states]" using i by (simp add: upt_conv_Cons)
  show ?case unfolding run upt by (simp add: ws(2) del: upt_Suc)
qed

lemma tcp_init_lines:
  assumes "\<not> tcp_inited st"
    and "clean fd4" and "content fd4 = proc_text h4 xs4" and "LF \<notin> set h4" and "known_lines xs4"
    and "clean fd6" and "content fd6 = proc_text h6 xs6" and "LF \<notin> set h6" and "known_lines xs6"
  shows "tcp_init (Some fd4) (Some fd6) st m = Some (1,
    \<lparr>tcp_counters = map2 (+) ((tally xs4)[INDEX_TOTAL := of_nat (length xs4)])
       ((tally xs6)[INDEX_TOTAL := of_nat (length xs6)]),
     tcp4_counters = (tally xs4)[INDEX_TOTAL := of_nat (length xs4)],
     tcp6_counters = (tally xs6)[INDEX_TOTAL := of_nat (length xs6)], tcp_inited = True\<rparr>,
     m\<lparr>mod_ready := True\<rparr>)"
proof -
  have ok: "list_all line_ok xs" "\<forall>x \<in> set xs. line_state x < n_tcp_states" if "known_lines xs" for xs
    using that known_states [OF that] by (auto simp: known_lines_def list_all_iff)
  note c4 = process_lines [OF assms(2-4) ok [OF assms(5)]]
  note c6 = process_lines [OF assms(6-8) ok [OF assms(9)]]
  have "tcp_init (Some fd4) (Some fd6) st m = Some (1,
    \<lparr>tcp_counters = map2 (+) (with_total (tally xs4)) (with_total (tally xs6)),
     tcp4_counters = with_total (tally xs4), tcp6_counters = with_total (tally xs6),
     tcp_inited = True\<rparr>, m\<lparr>mod_ready := True\<rparr>)"
    by (rule tcp_init_tables [OF assms(1) c4 length_tally]) (use c6 in auto)
  then show ?thesis unfolding with_total_tally [OF assms(5)] with_total_tally [OF assms(9)] .
qed

lemma tally_nth: "i < n_tcp_states \<Longrightarrow> tally xs ! i = of_nat (count_list (map line_state xs) i)"
  by (simp add: tally_def)

section \<open>Properties\<close>

text \<open>Two lines of the files, for examples: a listening and an established socket.\<close>

definition listening_line :: tcp_line where
  "listening_line = \<lparr>tl_blank = ''   '', tl_field0 = ''0:'', tl_gap0 = '' '',
     tl_field1 = ''0100007F:0277'', tl_gap1 = '' '', tl_field2 = ''00000000:0000'', tl_gap2 = '' '',
     tl_hi = CHR ''0'', tl_lo = CHR ''A'', tl_rest = '' 00000000:00000000 00:00000000''\<rparr>"

definition established_line :: tcp_line where
  "established_line = listening_line\<lparr>tl_field0 := ''1:'', tl_lo := CHR ''1''\<rparr>"

definition proc_head :: string where
  "proc_head = ''  sl  local_address rem_address   st''"

lemma examples_ok: "known_lines [listening_line, established_line]" "LF \<notin> set proc_head"
  by code_simp+

text \<open>
  C12. The counting does not depend on how the system splits the file into reads: two descriptors
  that deliver the same bytes give the same counters and the same result, whatever the chunks.
\<close>

theorem process_proc_tcp_chunks:
  assumes "clean fd" and "clean fd'" and "content fd = content fd'"
  shows "process_proc_tcp fd state_field store lstore = process_proc_tcp fd' state_field store lstore"
  using assms by (simp add: process_proc_tcp_flat)

theorem process_proc_tcp_chunks_witness:
  "process_proc_tcp [Bytes proc_head, Bytes [LF]] 3 [0] 1 = process_proc_tcp [Bytes (proc_head @ [LF])] 3 [0] 1"
  by (rule process_proc_tcp_chunks) (simp_all add: proc_head_def)



lemma tcp_init_prints:
  assumes "\<not> tcp_inited st"
    and "clean fd4" and "content fd4 = proc_text h4 xs4" and "LF \<notin> set h4" and "known_lines xs4"
    and "clean fd6" and "content fd6 = proc_text h6 xs6" and "LF \<notin> set h6" and "known_lines xs6"
    and "length xs4 + length xs6 < 2 ^ 64"
  shows "\<exists>st' m'. tcp_init (Some fd4) (Some fd6) st m = Some (1, st', m') \<and>
    tcp_inited st' \<and> m' = m\<lparr>mod_ready := True\<rparr> \<and> (
    let n4 = count_list (map line_state xs4); n6 = count_list (map line_state xs6);
      num = (\<lambda>n. Some ([(fd, dec n)], 1)) in
    ntcp_all_print st' fd = num (length xs4 + length xs6) \<and>
    ntcp4_all_print st' fd = num (length xs4) \<and>
    ntcp6_all_print st' fd = num (length xs6) \<and>
    ntcp_established_print st' fd = num (n4 1 + n6 1) \<and>
    ntcp4_established_print st' fd = num (n4 1) \<and>
    ntcp6_established_print st' fd = num (n6 1) \<and>
    ntcp_listen_print st' fd = num (n4 10 + n6 10) \<and>
    ntcp4_listen_print st' fd = num (n4 10) \<and>
    ntcp6_listen_print st' fd = num (n6 10) \<and>
    ntcp_closing_print st' fd = num (n4 11 + n6 11) \<and>
    ntcp4_closing_print st' fd = num (n4 11) \<and>
    ntcp6_closing_print st' fd = num (n6 11))"
proof -
  have lim: "unat (of_nat n + of_nat k :: u64) = n + k" "unat (of_nat n :: u64) = n"
    if "n \<le> length xs4" "k \<le> length xs6" for n k
  proof -
    have "n + k < 2 ^ 64" "n < 2 ^ 64" using that assms(10) by linarith+
    then have "unat (of_nat (n + k) :: u64) = n + k" "unat (of_nat n :: u64) = n"
      by (simp_all only: unat_of_nat) simp_all
    then show "unat (of_nat n + of_nat k :: u64) = n + k" "unat (of_nat n :: u64) = n" by simp_all
  qed
  have lim6: "unat (of_nat k :: u64) = k" if "k \<le> length xs6" for k
    using lim(1) [of 0 k] that by simp
  have lim4: "unat (of_nat n :: u64) = n" if "n \<le> length xs4" for n
    using lim(2) [of n 0] that by simp
  have cnt: "count_list (map f xs) i \<le> length xs" for f :: "tcp_line \<Rightarrow> nat" and xs i
    using count_le_length [of "map f xs" i] by simp
  have num: "tcp_print_at fd c i = Some ([(fd, dec n)], 1)" if "i < length c" "unat (c ! i) = n" for c i n
    using that by (simp add: tcp_print_at_def tcp_print_num_def arr_get_def u64_fmt.exact)
  show ?thesis
    unfolding tcp_init_lines [OF assms(1-9)]
    by (simp add: Let_def ntcp_all_print_def ntcp4_all_print_def ntcp6_all_print_def
        ntcp_established_print_def ntcp4_established_print_def ntcp6_established_print_def
        ntcp_listen_print_def ntcp4_listen_print_def ntcp6_listen_print_def
        ntcp_closing_print_def ntcp4_closing_print_def ntcp6_closing_print_def)
      (intro conjI num; simp add: tally_nth INDEX_TOTAL_def TCP_ESTABLISHED_def TCP_LISTEN_def
        TCP_CLOSING_def n_tcp_states_def lim(1) lim4 lim6 cnt)
qed



text \<open>
  C37. The check of the state lets the value 12 pass although the tables have 12 entries: a socket
  in this state (\<open>TCP_NEW_SYN_RECV\<close>) makes the parser increment a cell past the end.
\<close>

theorem process_proc_tcp_state_12:
  assumes "clean fd" and "content fd = proc_text h (xs @ x # ys)" and "LF \<notin> set h"
    and "known_lines xs" and "line_ok x" and "line_state x = n_tcp_states"
  shows "process_proc_tcp fd 3 (replicate n_tcp_states 0) n_tcp_states = None"
proof (rule process_state_12 [OF assms(1-3) _ _ assms(5,6)])
  show "list_all line_ok xs" using assms(4) by (auto simp: known_lines_def list_all_iff)
  show "\<forall>x \<in> set xs. line_state x < n_tcp_states" using known_states [OF assms(4)] by auto
qed

theorem process_proc_tcp_state_12_witness:
  "process_proc_tcp [Bytes (proc_text proc_head [listening_line, established_line\<lparr>tl_lo := CHR ''C''\<rparr>])]
     3 (replicate n_tcp_states 0) n_tcp_states = None"
proof (rule process_proc_tcp_state_12 [where xs = "[listening_line]" and ys = "[]"])
  show "line_ok (established_line\<lparr>tl_lo := CHR ''C''\<rparr>)" by code_simp
  show "line_state (established_line\<lparr>tl_lo := CHR ''C''\<rparr>) = n_tcp_states" by code_simp
qed (use examples_ok in \<open>simp_all add: known_lines_def proc_text_def\<close>)

text \<open>
  \<open>tcpdump\<close> prints the text \<open>0:\<close>, the index of the total and not its value, and then the
  three counters of every index, the total included.
\<close>

theorem ntcp_print_output:
  assumes "table_ok st"
  shows "\<exists>ws. ntcp_print st fd = Some (ws, 1) \<and> written fd ws = ''0:'' @
    concat (map (\<lambda>i. dec (unat (tcp_counters st ! i)) @ ''.'' @ dec (unat (tcp4_counters st ! i)) @
      ''.'' @ dec (unat (tcp6_counters st ! i)) @ '' '') [0..<12])"
proof -
  obtain ws where ws: "ntcp_print_loop st fd 0 = Some ws" "written fd ws =
    concat (map (\<lambda>i. dec (unat (tcp_counters st ! i)) @ ''.'' @ dec (unat (tcp4_counters st ! i)) @
      ''.'' @ dec (unat (tcp6_counters st ! i)) @ '' '') [0..<n_tcp_states])"
    using ntcp_print_loop_eq [of st 0 fd] assms by (auto simp: table_ok_def)
  have "dec 0 = ''0''" by code_simp
  then show ?thesis
    using ws by (simp add: ntcp_print_def tcp_print_num_def u64_fmt.exact INDEX_TOTAL_def n_tcp_states_def)
qed

theorem ntcp_print_output_witness:
  "\<exists>ws. ntcp_print tcp_initial 1 = Some (ws, 1) \<and>
    written 1 ws = ''0:'' @ concat (replicate 12 ''0.0.0 '')"
proof -
  have "table_ok tcp_initial" by code_simp
  moreover have "concat (map (\<lambda>i. dec (unat (tcp_counters tcp_initial ! i)) @ ''.'' @
      dec (unat (tcp4_counters tcp_initial ! i)) @ ''.'' @
      dec (unat (tcp6_counters tcp_initial ! i)) @ '' '') [0..<12]) = concat (replicate 12 ''0.0.0 '')"
    by code_simp
  ultimately show ?thesis using ntcp_print_output [of tcp_initial 1] by metis
qed

section \<open>The tables keep their lengths\<close>

lemma count_state_length:
  "count_state p c store l = Some (Inr store') \<Longrightarrow> length store' = length store"
  by (auto simp: count_state_def arr_add_def split: if_splits)

lemma proc_tcp_length:
  "proc_tcp lab fd r sf store l rc = Some (store', rc') \<Longrightarrow> length store' = length store"
proof (induction lab fd r sf store l rc rule: proc_tcp.induct)
  case (1 fd r sf store l rc)
  from "1.prems" show ?case
    by (subst (asm) proc_tcp.simps) (auto dest: "1.IH" split: if_splits)
next
  case (2 fd r sf store l rc)
  from "2.prems" show ?case
    by (subst (asm) proc_tcp.simps) (auto dest: "2.IH" split: if_splits)
next
  case (3 fd r sf store l rc)
  show ?case
  proof (cases "br_field r = sf")
    case False
    show ?thesis
    proof (cases "br_field r < sf")
      case False
      with \<open>br_field r \<noteq> sf\<close> "3.prems" show ?thesis by (subst (asm) proc_tcp.simps) simp
    next
      case lt: True
      with "3.prems" obtain ok fd' r' where rd: "read_byte fd r = Some (ok, fd', r')"
        by (subst (asm) proc_tcp.simps) auto
      let ?f = "if c_isspace (br_prev r') \<and> \<not> c_isspace (br_cur r') then br_field r' + 1 else br_field r'"
      show ?thesis
      proof (cases "ok \<and> br_err r' = 0")
        case False
        with lt rd "3.prems" show ?thesis by (subst (asm) proc_tcp.simps) (auto split: if_splits)
      next
        case True
        with lt rd "3.prems" have "proc_tcp Skip_n_fields fd' (r'\<lparr>br_field := ?f, br_prev := br_cur r'\<rparr>) sf store l rc =
            Some (store', rc')"
          by (subst (asm) proc_tcp.simps) (simp add: Let_def)
        with lt rd True show ?thesis by (intro "3.IH"(1)) auto
      qed
    qed
  next
    case True
    with "3.prems" obtain ok fd' r' where rd: "read_byte fd r = Some (ok, fd', r')"
      by (subst (asm) proc_tcp.simps) auto
    show ?thesis
    proof (cases ok)
      case False
      with True rd "3.prems" show ?thesis by (subst (asm) proc_tcp.simps) auto
    next
      case ok: True
      with True rd "3.prems" obtain c where c: "count_state (br_prev r') (br_cur r') store l = Some c"
        by (subst (asm) proc_tcp.simps) auto
      show ?thesis
      proof (cases c)
        case (Inl e)
        with True rd ok c "3.prems" show ?thesis by (subst (asm) proc_tcp.simps) auto
      next
        case (Inr store1)
        with True rd ok c "3.prems" have "proc_tcp Seek_to_eol fd' r' sf store1 l 1 = Some (store', rc')"
          by (subst (asm) proc_tcp.simps) auto
        with True rd ok c Inr have "length store' = length store1"
          by (intro "3.IH"(2)) auto
        with c Inr show ?thesis by (simp add: count_state_length)
      qed
    qed
  qed
qed

lemma arr_add_length: "arr_add a i v = Some b \<Longrightarrow> length b = length a"
  by (auto simp: arr_add_def split: if_splits)

lemma sum_counters_loop_length:
  "sum_counters_loop i final tot to from = Some (to', from') \<Longrightarrow>
    length to' = length to \<and> length from' = length from"
proof (induction i final tot to "from" rule: sum_counters_loop.induct)
  case (1 i final tot to "from")
  show ?case
  proof (cases "i < final + 1")
    case False
    with "1.prems" show ?thesis by (subst (asm) sum_counters_loop.simps) simp
  next
    case True
    with "1.prems" obtain v from1 w to1 where c: "arr_get from i = Some v" "arr_add from tot v = Some from1"
      "arr_get from1 i = Some w" "arr_add to i w = Some to1"
      "sum_counters_loop (i + 1) final tot to1 from1 = Some (to', from')"
      by (subst (asm) sum_counters_loop.simps) auto
    from "1.IH" [OF True c] arr_add_length [OF c(2)] arr_add_length [OF c(4)] show ?thesis by simp
  qed
qed

lemma sum_counters_length:
  "sum_counters first final tot to from = Some (to', from') \<Longrightarrow>
    length to' = length to \<and> length from' = length from"
  by (auto simp: sum_counters_def arr_get_def arr_add_def dest: sum_counters_loop_length split: if_splits)

lemma tcp_init_length:
  assumes "tcp_init tcp4 tcp6 st m = Some (rc, st', m')"
    and "length (tcp_counters st) = n" and "length (tcp4_counters st) = n" and "length (tcp6_counters st) = n"
    and "n = n_tcp_states"
  shows "length (tcp_counters st') = n \<and> length (tcp4_counters st') = n \<and> length (tcp6_counters st') = n"
  using assms
  by (auto simp: tcp_init_def init_tcp_stats_def init_tcp_stats_via_proc_net_tcp_def process_proc_tcp_def Let_def
      dest!: proc_tcp_length sum_counters_length split: option.splits if_splits)

lemma via_proc_length:
  assumes "init_tcp_stats_via_proc_net_tcp tcp4 tcp6 st = Some (rc, st')"
  shows "(tables_12 st \<longrightarrow> tables_12 st') \<and> tcp_inited st' = tcp_inited st"
  using assms
  by (auto simp: tables_12_def init_tcp_stats_via_proc_net_tcp_def process_proc_tcp_def Let_def
      dest!: proc_tcp_length sum_counters_length split: option.splits if_splits)

end
