(* ===== verification/Fs.thy ===== *)
theory Fs
  imports Module
begin

text \<open>
  \<^verbatim>\<open>ustat_fs.h\<close>, \<^verbatim>\<open>ustat_fs.c\<close>, \<^verbatim>\<open>ustat_fs_linux.c\<close> and \<^verbatim>\<open>ustat_fs_other.c\<close>: the table of mounted
  file systems, its construction from \<^verbatim>\<open>/proc/self/mountinfo\<close> or \<open>getmntinfo\<close>, the selection
  of an entry by the argument of a module, and the numbers that are printed for it.
\<close>

section \<open>The table\<close>

text \<open>\<open>n_free\<close> and \<open>n_total\<close> are signed in the source: they are read with \<^const>\<open>sint\<close>.\<close>

record ustat_fs =
  fs_id :: buf
  fs_id_l :: nat
  fs_n_free :: u64
  fs_n_total :: u64

text \<open>\<open>_fs\<close> and \<open>_fs_n\<close>: a null pointer, or an array and its length.\<close>

type_synonym fs_table = "ustat_fs list option"

section \<open>Linux\<close>

text \<open>
  \<open>statvfs\<close> is an argument: for a path its members \<open>f_blocks\<close>, \<open>f_bfree\<close> and \<open>f_frsize\<close>, or
  \<^term>\<open>None\<close> when the call fails.
\<close>

type_synonym statvfs = "string \<Rightarrow> (u64 \<times> u64 \<times> u64) option"

definition get_total_free :: "statvfs \<Rightarrow> cstr \<Rightarrow> u64 \<times> u64 \<Rightarrow> u64 \<times> u64" where
  "get_total_free stat p = (\<lambda>(n_total, n_free). case stat (ctext p) of
     None \<Rightarrow> (n_total, n_free)
   | Some (f_blocks, f_bfree, f_frsize) \<Rightarrow> (f_blocks * f_frsize, f_bfree * f_frsize))"

text \<open>The entries of the array that \<open>realloc\<close> keeps.\<close>

definition fs_entries :: "fs_table \<Rightarrow> ustat_fs list" where
  "fs_entries fs = (case fs of None \<Rightarrow> [] | Some es \<Rightarrow> es)"

definition add_mount_entry :: "statvfs \<Rightarrow> fs_table \<Rightarrow> cstr \<Rightarrow> nat \<Rightarrow> fs_table option" where
  "add_mount_entry stat fs mnt l = do {
     proc \<leftarrow> str_start mnt (cstring ''/proc'');
     if proc = 1 then Some fs else do {
     sys \<leftarrow> str_start mnt (cstring ''/sys'');
     if sys = 1 then Some fs else do {
     dev \<leftarrow> str_start mnt (cstring ''/dev'');
     if dev = 1 then Some fs else do {
     let (n_total, n_free) = get_total_free stat mnt (0, 0);
     if n_total \<noteq> 0 then do {
       id \<leftarrow> byte_copy (buf_new (l + 1)) (l + 1) mnt;
       Some (Some (fs_entries fs @ [\<lparr>fs_id = id, fs_id_l = l, fs_n_free = n_free,
         fs_n_total = n_total\<rparr>])) }
     else Some fs }}}}"

lemma sys_read_progress:
  assumes "sys_read i fd = (r, s, fd')" and "r \<noteq> 0" and "r \<noteq> -1"
  shows "stream_size fd' < stream_size fd"
proof -
  have "0 < i \<and> 0 < r" using assms by (cases "(i, fd)" rule: sys_read.cases) (auto split: if_splits)
  with assms(1) show ?thesis by (simp add: sys_read_size)
qed

text \<open>
  Phase 1 reads the file with a buffer that doubles; an error, \<^term>\<open>None\<close> here, ends the
  function with the result 0.
\<close>

function mountinfo_size :: "stream \<Rightarrow> nat \<Rightarrow> nat \<Rightarrow> nat option" where
  "mountinfo_size fd i n = (case sys_read i fd of (r, s, fd') \<Rightarrow>
     if r = 0 then Some n
     else if r = -1 then None
     else mountinfo_size fd' (i * 2) (n + nat r))"
  by pat_completeness auto
termination
  by (relation "measure (\<lambda>(fd, i, n). stream_size fd)") (auto intro!: sys_read_progress [OF sym])

declare mountinfo_size.simps [simp del]

text \<open>
  Phase 3: \<open>mnt\<close> is a position in the buffer, \<^term>\<open>None\<close> for the null pointer. The loop
  overwrites most separators by NUL.
\<close>

definition FIELD_MOUNT_ROOT :: nat where "FIELD_MOUNT_ROOT = 4"
definition FIELD_MOUNT_POINT :: nat where "FIELD_MOUNT_POINT = 5"

function mountinfo_loop ::
  "statvfs \<Rightarrow> nat \<Rightarrow> nat \<Rightarrow> buf \<Rightarrow> nat option \<Rightarrow> nat \<Rightarrow> fs_table \<Rightarrow> fs_table option" where
  "mountinfo_loop stat n i buf mnt field fs = (if i < n then do {
     b \<leftarrow> (if i < length buf then buf ! i else None);
     if (b = CHR '' '' \<or> b = TAB) \<and> field + 1 = FIELD_MOUNT_ROOT
     then mountinfo_loop stat n (i + 1) buf mnt (field + 1) fs
     else do {
     (field, buf, fs) \<leftarrow> (if b = CHR '' '' \<or> b = TAB then do {
         buf \<leftarrow> buf_set buf i NUL;
         fs \<leftarrow> (if field + 1 = FIELD_MOUNT_POINT then do {
             k \<leftarrow> mnt;
             add_mount_entry stat fs (buf_str (drop k buf)) (i - k) }
           else Some fs);
         Some (field + 1, buf, fs) }
       else Some (field, buf, fs));
     if b = LF then mountinfo_loop stat n (i + 1) buf None 0 fs
     else if field = FIELD_MOUNT_ROOT
     then mountinfo_loop stat n (i + 1) buf (case mnt of None \<Rightarrow> Some i | Some k \<Rightarrow> Some k) field fs
     else mountinfo_loop stat n (i + 1) buf mnt field fs }}
     else Some fs)"
  by pat_completeness auto
termination
  by (relation "measure (\<lambda>(stat, n, i, buf, mnt, field, fs). n - i)") auto

declare mountinfo_loop.simps [simp del]

text \<open>
  The argument is \<^term>\<open>None\<close> when the file cannot be opened, and otherwise what the descriptor
  delivers from its opening and what it delivers after \<open>lseek\<close>. An error of the last \<open>read\<close>
  becomes a huge \<open>n\<close>; an array of length 0 is undefined.
\<close>

definition fs_init_platform ::
  "statvfs \<Rightarrow> (stream \<times> stream) option \<Rightarrow> fs_table \<Rightarrow> (int \<times> fs_table) option" where
  "fs_init_platform stat mountinfo fs = (case mountinfo of
     None \<Rightarrow> Some (0, fs)
   | Some (fd, fd') \<Rightarrow> (case mountinfo_size fd 1024 0 of
       None \<Rightarrow> Some (0, fs)
     | Some n \<Rightarrow> if n = 0 then None else
         (case sys_read (2 * n) fd' of (r, s, _) \<Rightarrow> do {
           let buf = map Some s @ replicate (2 * n - length s) None;
           let n = (if r < 0 then 2 ^ 64 - 1 else nat r);
           fs \<leftarrow> mountinfo_loop stat n 0 buf None 0 fs;
           Some (1, fs) })))"

section \<open>Other platforms\<close>

text \<open>
  An entry of \<open>getmntinfo\<close> as the code reads it: \<open>f_mntonname\<close>, \<open>f_bfree\<close>, \<open>f_blocks\<close> and
  \<open>f_bsize\<close>. The allocation has \<open>l\<close> bytes and the copy \<open>l + 1\<close>.
\<close>

record statfs =
  f_mntonname :: cstr
  f_bfree :: u64
  f_blocks :: u64
  f_bsize :: u64

definition other_entry :: "statfs \<Rightarrow> ustat_fs option" where
  "other_entry sf = do {
     l \<leftarrow> str_len (f_mntonname sf);
     s \<leftarrow> byte_copy (buf_new l) (l + 1) (f_mntonname sf);
     Some \<lparr>fs_id = s, fs_id_l = l, fs_n_free = f_bfree sf * f_bsize sf,
       fs_n_total = f_blocks sf * f_bsize sf\<rparr> }"

fun other_loop :: "statfs list \<Rightarrow> ustat_fs list \<Rightarrow> ustat_fs list option" where
  "other_loop [] f = Some f"
| "other_loop (sf # sfs) f = do { e \<leftarrow> other_entry sf; other_loop sfs (f @ [e]) }"

definition fs_init_platform_other :: "statfs list \<Rightarrow> fs_table \<Rightarrow> (int \<times> fs_table) option" where
  "fs_init_platform_other mnts fs =
     (if mnts = [] then Some (-1, fs)
      else do { f \<leftarrow> other_loop mnts []; Some (1, Some f) })"

section \<open>Initialisation\<close>

definition error_no_fs_entries :: cstr where
  "error_no_fs_entries = cstring ''can't get a fs entry via getfsent(3)''"

text \<open>The first argument is the platform's \<open>_fs_init_platform\<close>.\<close>

definition fs_init ::
  "(fs_table \<Rightarrow> (int \<times> fs_table) option) \<Rightarrow> fs_table \<Rightarrow> ustat_module \<Rightarrow>
     (out \<times> int \<times> fs_table \<times> ustat_module) option" where
  "fs_init platform fs m =
     (if fs \<noteq> None \<or> mod_ready m then Some ([], 1, fs, m)
      else do {
        (_, fs) \<leftarrow> platform fs;
        if fs = None then Some ([(STDERR_FILENO, error_no_fs_entries)], 0, fs, m)
        else Some ([], 1, fs, m\<lparr>mod_ready := True\<rparr>) })"

section \<open>Selection and output\<close>

function fs_select_loop :: "ustat_fs list \<Rightarrow> cstr \<Rightarrow> nat \<Rightarrow> nat \<Rightarrow> ustat_fs option \<Rightarrow> ustat_fs option" where
  "fs_select_loop fs ident id_l i f = (if i < length fs then
     (if id_l \<noteq> fs_id_l (fs ! i) then fs_select_loop fs ident id_l (i + 1) f
      else do {
        d \<leftarrow> str_diffn ident (buf_str (fs_id (fs ! i))) id_l;
        if d = 0 then Some (fs ! i) else fs_select_loop fs ident id_l (i + 1) f })
     else f)"
  by pat_completeness auto
termination
  by (relation "measure (\<lambda>(fs, id, id_l, i, f). length fs - i)") auto

declare fs_select_loop.simps [simp del]

text \<open>\<open>&fs[0]\<close> cannot be used when there is no array.\<close>

definition fs_select :: "ustat_module \<Rightarrow> fs_table \<Rightarrow> cstr \<Rightarrow> nat \<Rightarrow> ustat_fs option" where
  "fs_select m fs s l = (let f = (case fs_entries fs of [] \<Rightarrow> None | e # _ \<Rightarrow> Some e) in do {
     off \<leftarrow> str_len (mod_name m);
     if off = l then f
     else fs_select_loop (fs_entries fs) (drop off s) (l - off) 0 f })"

text \<open>Subtraction of \<open>int64_t\<close> values, whose overflow is undefined.\<close>

definition i64_sub :: "u64 \<Rightarrow> u64 \<Rightarrow> u64 option" where
  "i64_sub a b = (let d = sint a - sint b in
     if - (2 ^ 63) \<le> d \<and> d < 2 ^ 63 then Some (word_of_int d) else None)"

definition fs_total_print :: "fs_table \<Rightarrow> nat \<Rightarrow> ustat_module \<Rightarrow> cstr \<Rightarrow> nat \<Rightarrow> printed" where
  "fs_total_print tab fd m s l = do { fs \<leftarrow> fs_select m tab s l; write_uint64 fd (fs_n_total fs) }"

definition fs_total_human_print :: "fs_table \<Rightarrow> nat \<Rightarrow> ustat_module \<Rightarrow> cstr \<Rightarrow> nat \<Rightarrow> printed" where
  "fs_total_human_print tab fd m s l =
     do { fs \<leftarrow> fs_select m tab s l; write_uint64_human fd 1 (fs_n_total fs) }"

definition fs_free_print :: "fs_table \<Rightarrow> nat \<Rightarrow> ustat_module \<Rightarrow> cstr \<Rightarrow> nat \<Rightarrow> printed" where
  "fs_free_print tab fd m s l = do { fs \<leftarrow> fs_select m tab s l; write_uint64 fd (fs_n_free fs) }"

definition fs_free_human_print :: "fs_table \<Rightarrow> nat \<Rightarrow> ustat_module \<Rightarrow> cstr \<Rightarrow> nat \<Rightarrow> printed" where
  "fs_free_human_print tab fd m s l =
     do { fs \<leftarrow> fs_select m tab s l; write_uint64_human fd 1 (fs_n_free fs) }"

definition fs_used_print :: "fs_table \<Rightarrow> nat \<Rightarrow> ustat_module \<Rightarrow> cstr \<Rightarrow> nat \<Rightarrow> printed" where
  "fs_used_print tab fd m s l = do {
     fs \<leftarrow> fs_select m tab s l;
     used \<leftarrow> i64_sub (fs_n_total fs) (fs_n_free fs);
     write_uint64 fd used }"

definition fs_used_human_print :: "fs_table \<Rightarrow> nat \<Rightarrow> ustat_module \<Rightarrow> cstr \<Rightarrow> nat \<Rightarrow> printed" where
  "fs_used_human_print tab fd m s l = do {
     fs \<leftarrow> fs_select m tab s l;
     used \<leftarrow> i64_sub (fs_n_total fs) (fs_n_free fs);
     write_uint64_human fd 1 used }"

definition fs_ratio_print :: "fs_table \<Rightarrow> nat \<Rightarrow> ustat_module \<Rightarrow> cstr \<Rightarrow> nat \<Rightarrow> printed" where
  "fs_ratio_print tab fd m s l = do {
     fs \<leftarrow> fs_select m tab s l;
     if fs_n_total fs = 0 then write_double fd (Fin 0) 2
     else write_double fd (d_div (d_of_int (sint (fs_n_free fs))) (d_of_int (sint (fs_n_total fs)))) 2 }"

lemma i64_sub_le:
  assumes "b \<le> a" and "unat a < 2 ^ 63"
  shows "i64_sub a b = Some (a - b)"
proof -
  have le: "unat b \<le> unat a" using assms(1) by (simp add: word_le_nat_alt)
  have "sint a - sint b = int (unat a - unat b)"
    using le assms(2) by (simp add: sint_u64 of_nat_diff)
  moreover have "(word_of_int (int (unat a - unat b)) :: u64) = a - b"
    using le by (simp add: of_nat_diff)
  moreover have "int (unat a - unat b) < 2 ^ 63" using assms(2) by simp
  ultimately show ?thesis by (simp add: i64_sub_def Let_def)
qed

section \<open>Entries and selection\<close>

text \<open>An entry whose identifier is a text, stored with its NUL.\<close>

definition fs_entry :: "string \<Rightarrow> u64 \<Rightarrow> u64 \<Rightarrow> ustat_fs" where
  "fs_entry p tot free = \<lparr>fs_id = map Some (cstring p), fs_id_l = length p, fs_n_free = free,
     fs_n_total = tot\<rparr>"

definition fs_name :: "ustat_fs \<Rightarrow> string" where
  "fs_name e = ctext (buf_str (fs_id e))"

definition entry_ok :: "ustat_fs \<Rightarrow> bool" where
  "entry_ok e \<longleftrightarrow> fs_id e = map Some (cstring (fs_name e)) \<and> fs_id_l e = length (fs_name e)"

lemma buf_str_all [mem_simps]: "buf_str (map Some s) = s"
  using buf_str_map_Some [of s 0] by simp

lemma fs_entry_simps [simp]:
  "is_text p \<Longrightarrow> fs_name (fs_entry p tot free) = p" "is_text p \<Longrightarrow> entry_ok (fs_entry p tot free)"
  "fs_n_free (fs_entry p tot free) = free" "fs_n_total (fs_entry p tot free) = tot"
  by (simp_all add: fs_entry_def fs_name_def entry_ok_def mem_simps)

text \<open>The entry the documentation promises: the named one, and the first one otherwise.\<close>

definition named_entry :: "ustat_fs list \<Rightarrow> string \<Rightarrow> ustat_fs" where
  "named_entry es t = (case filter (\<lambda>e. fs_name e = t) es of [] \<Rightarrow> hd es | e # _ \<Rightarrow> e)"

lemma str_diffn_id:
  assumes "is_text t" and "entry_ok e" and "length t = fs_id_l e"
  shows "\<exists>d. str_diffn (cstring t) (buf_str (fs_id e)) (length t) = Some d \<and> (d = 0 \<longleftrightarrow> t = fs_name e)"
proof -
  have n: "is_text (fs_name e)" by (simp add: fs_name_def)
  show ?thesis
    using str_diffn_zero [of "cstring t" "cstring (fs_name e)" "length t"] assms n
    by (simp add: entry_ok_def mem_simps)
qed

lemma fs_select_loop_eq:
  assumes "is_text t" and "list_all entry_ok es"
  shows "fs_select_loop es (cstring t) (length t) i f =
    (case filter (\<lambda>e. fs_name e = t) (drop i es) of [] \<Rightarrow> f | e # _ \<Rightarrow> Some e)"
proof (induction "length es - i" arbitrary: i)
  case 0
  then show ?case by (subst fs_select_loop.simps) simp
next
  case (Suc n)
  then have i: "i < length es" by simp
  with assms have ok: "entry_ok (es ! i)" by (simp add: list_all_length)
  have dr: "drop i es = es ! i # drop (Suc i) es" using i by (simp add: Cons_nth_drop_Suc)
  have IH: "fs_select_loop es (cstring t) (length t) (Suc i) f =
    (case filter (\<lambda>e. fs_name e = t) (drop (Suc i) es) of [] \<Rightarrow> f | e # _ \<Rightarrow> Some e)"
    using Suc.hyps by simp
  show ?case
  proof (cases "length t = fs_id_l (es ! i)")
    case True
    from str_diffn_id [OF assms(1) ok True] obtain d where
      "str_diffn (cstring t) (buf_str (fs_id (es ! i))) (length t) = Some d"
      "d = 0 \<longleftrightarrow> t = fs_name (es ! i)" by blast
    with i IH True show ?thesis by (subst fs_select_loop.simps) (auto simp: dr)
  next
    case False
    then have "fs_name (es ! i) \<noteq> t" using ok by (auto simp: entry_ok_def)
    with i IH False show ?thesis by (subst fs_select_loop.simps) (simp add: dr)
  qed
qed

lemma fs_select_eq:
  assumes "mod_name m = cstring nm" and "is_text nm" and "is_text t" and "list_all entry_ok es"
    and "es \<noteq> []"
  shows "fs_select m (Some es) (cstring (nm @ t)) (length (nm @ t)) =
    Some (if t = [] then hd es else named_entry es t)"
proof -
  have dr: "drop (length nm) (cstring (nm @ t)) = cstring t" by (simp add: cstring_def)
  obtain e es' where es: "es = e # es'" using assms(5) by (cases es) auto
  show ?thesis
    using assms(1-3) fs_select_loop_eq [OF assms(3,4), of 0 "Some e"]
    by (simp add: fs_select_def fs_entries_def es dr named_entry_def Let_def split: list.split)
qed

section \<open>Entries of the mount table\<close>

definition mnt_blank :: "char \<Rightarrow> bool" where
  "mnt_blank c \<longleftrightarrow> c = CHR '' '' \<or> c = TAB"

definition ignored_mount :: "string \<Rightarrow> bool" where
  "ignored_mount p \<longleftrightarrow> prefix ''/proc'' p \<or> prefix ''/sys'' p \<or> prefix ''/dev'' p"

text \<open>What a mount point adds to the table.\<close>

definition mount_entries :: "statvfs \<Rightarrow> string \<Rightarrow> ustat_fs list" where
  "mount_entries stat p = (case stat p of
     Some (blocks, bfree, frsize) \<Rightarrow>
       if ignored_mount p \<or> blocks * frsize = 0 then []
       else [fs_entry p (blocks * frsize) (bfree * frsize)]
   | None \<Rightarrow> [])"

definition fs_extend :: "fs_table \<Rightarrow> ustat_fs list \<Rightarrow> fs_table" where
  "fs_extend fs es = (if es = [] then fs else Some (fs_entries fs @ es))"

lemma fs_extend_Nil [simp]: "fs_extend fs [] = fs"
  by (simp add: fs_extend_def)

lemma fs_entries_fs_extend [simp]: "fs_entries (fs_extend fs es) = fs_entries fs @ es"
  by (simp add: fs_extend_def fs_entries_def)

lemma fs_extend_append [simp]: "fs_extend (fs_extend fs es) es' = fs_extend fs (es @ es')"
  by (auto simp: fs_extend_def fs_entries_def)

lemma ctext_NUL [simp]: "is_text p \<Longrightarrow> ctext (p @ NUL # rest) = p"
  by (induction p) auto

lemma terminated_NUL [simp]: "terminated (p @ NUL # rest)"
  by (simp add: terminated_def)

lemma add_mount_entry_eq:
  assumes "is_text p"
  shows "add_mount_entry stat fs (p @ NUL # rest) (length p) = Some (fs_extend fs (mount_entries stat p))"
proof -
  have st: "str_start (p @ NUL # rest) (cstring q) = Some (if prefix q p then 1 else 0)" if "is_text q" for q
    using that assms by (simp add: str_start_eq)
  have "byte_copy (buf_new (length p + 1)) (length p + 1) (p @ NUL # rest) = Some (map Some (cstring p))"
    by (simp add: byte_copy_eq cstring_def)
  then show ?thesis
    using assms by (auto simp: add_mount_entry_def st get_total_free_def mount_entries_def ignored_mount_def
        fs_extend_def fs_entry_def split: option.split)
qed

section \<open>The parser on the text of the file\<close>

fun mnt_flat :: "statvfs \<Rightarrow> string \<Rightarrow> nat \<Rightarrow> string option \<Rightarrow> fs_table \<Rightarrow> fs_table option" where
  "mnt_flat stat [] field cur fs = Some fs"
| "mnt_flat stat (c # s) field cur fs =
     (if mnt_blank c then
        if field + 1 = FIELD_MOUNT_POINT
        then (case cur of None \<Rightarrow> None
          | Some p \<Rightarrow> mnt_flat stat s (field + 1) cur (fs_extend fs (mount_entries stat p)))
        else mnt_flat stat s (field + 1) cur fs
      else if c = LF then mnt_flat stat s 0 None fs
      else if field = FIELD_MOUNT_ROOT
      then mnt_flat stat s field (Some (case cur of None \<Rightarrow> [c] | Some p \<Rightarrow> p @ [c])) fs
      else mnt_flat stat s field cur fs)"

text \<open>The pointer \<open>mnt\<close> and the text collected so far, at position \<open>i\<close>.\<close>

definition mnt_rel :: "string \<Rightarrow> nat \<Rightarrow> nat \<Rightarrow> nat option \<Rightarrow> string option \<Rightarrow> bool" where
  "mnt_rel bs i field mnt cur \<longleftrightarrow>
     (if field < FIELD_MOUNT_ROOT then mnt = None \<and> cur = None
      else field = FIELD_MOUNT_ROOT \<longrightarrow> (case mnt of
        None \<Rightarrow> cur = None
      | Some k \<Rightarrow> k \<le> i \<and> cur = Some (take (i - k) (drop k bs)) \<and> is_text (take (i - k) (drop k bs))))"

lemma buf_cells: "i < length bs \<Longrightarrow> (map Some bs @ replicate k None) ! i = Some (bs ! i)"
  by (simp add: nth_append)

lemma buf_set_cells: "i < length bs \<Longrightarrow>
  buf_set (map Some bs @ replicate k None) i c = Some (map Some (bs[i := c]) @ replicate k None)"
  by (simp add: buf_set_def list_update_append map_update)

lemma buf_str_drop: "k \<le> length bs \<Longrightarrow> buf_str (drop k (map Some bs @ replicate j None)) = drop k bs"
  by (simp add: drop_map buf_str_map_Some)

lemma mountinfo_loop_flat:
  assumes "drop i bs = s" and "i + length s = length bs" and "is_text s"
    and "mnt_rel bs i field mnt cur"
  shows "mountinfo_loop stat (length bs) i (map Some bs @ replicate k None) mnt field fs =
    mnt_flat stat s field cur fs"
  using assms
proof (induction s arbitrary: i bs mnt field cur fs)
  case Nil
  then show ?case by (subst mountinfo_loop.simps) simp
next
  case (Cons c s)
  then have i: "i < length bs" "bs ! i = c" "drop (Suc i) bs = s" "Suc i + length s = length bs"
    "is_text s" "c \<noteq> NUL"
    by (auto simp: nth_via_drop simp flip: drop_Suc tl_drop) (metis drop_Suc list.sel(3) tl_drop)
  let ?buf = "\<lambda>bs. map Some bs @ replicate k None"
  note defs = FIELD_MOUNT_ROOT_def FIELD_MOUNT_POINT_def
  have IH: "mountinfo_loop stat (length bs') (Suc i) (?buf bs') mnt' field' fs' = mnt_flat stat s field' cur' fs'"
    if "bs' = bs \<or> bs' = bs[i := NUL]" "mnt_rel bs' (Suc i) field' mnt' cur'" for bs' mnt' field' cur' fs'
    using that i by (intro Cons.IH) auto
  have step: "mountinfo_loop stat (length bs) i (?buf bs) mnt field fs = (
     if mnt_blank c \<and> field + 1 = FIELD_MOUNT_ROOT
     then mountinfo_loop stat (length bs) (Suc i) (?buf bs) mnt (field + 1) fs
     else if mnt_blank c then do {
       fs \<leftarrow> (if field + 1 = FIELD_MOUNT_POINT then do {
             k0 \<leftarrow> mnt;
             add_mount_entry stat fs (buf_str (drop k0 (?buf (bs[i := NUL])))) (i - k0) }
           else Some fs);
       mountinfo_loop stat (length bs) (Suc i) (?buf (bs[i := NUL])) mnt (field + 1) fs }
     else if c = LF then mountinfo_loop stat (length bs) (Suc i) (?buf bs) None 0 fs
     else if field = FIELD_MOUNT_ROOT
     then mountinfo_loop stat (length bs) (Suc i) (?buf bs) (case mnt of None \<Rightarrow> Some i | Some k \<Rightarrow> Some k) field fs
     else mountinfo_loop stat (length bs) (Suc i) (?buf bs) mnt field fs)"
    using i by (subst mountinfo_loop.simps)
      (simp add: buf_cells buf_set_cells mnt_blank_def cong: if_cong)
  have rel0: "field < FIELD_MOUNT_ROOT \<Longrightarrow> mnt = None \<and> cur = None"
    using Cons.prems(4) by (simp add: mnt_rel_def)
  show ?case
  proof (cases "mnt_blank c")
    case True
    consider "field + 1 = FIELD_MOUNT_ROOT" | "field = FIELD_MOUNT_ROOT"
      | "field + 1 < FIELD_MOUNT_ROOT \<or> FIELD_MOUNT_ROOT < field" by linarith
    then show ?thesis
    proof cases
      case 1
      then have "mnt_rel bs (Suc i) (field + 1) mnt cur" using rel0 by (simp add: mnt_rel_def)
      with 1 True show ?thesis unfolding step by (simp add: IH defs)
    next
      case 2
      show ?thesis
      proof (cases mnt)
        case None
        with 2 Cons.prems(4) have "cur = None" by (simp add: mnt_rel_def)
        with 2 True None show ?thesis unfolding step by (simp add: defs)
      next
        case (Some k0)
        define p where "p = take (i - k0) (drop k0 bs)"
        have k0: "k0 \<le> i" "cur = Some p" "is_text p"
          using 2 Some Cons.prems(4) by (simp_all add: mnt_rel_def p_def)
        have "drop k0 (bs[i := NUL]) = take (i - k0) (drop k0 (bs[i := NUL])) @ drop i (bs[i := NUL])"
          using k0(1) append_take_drop_id [of "i - k0" "drop k0 (bs[i := NUL])"] by simp
        also have "take (i - k0) (drop k0 (bs[i := NUL])) = p"
          using k0(1) by (simp add: p_def drop_update_swap)
        also have "drop i (bs[i := NUL]) = NUL # s"
          using i by (simp add: Cons_nth_drop_Suc [symmetric])
        finally have str: "buf_str (drop k0 (?buf (bs[i := NUL]))) = p @ NUL # s"
          using k0(1) i(1) by (subst buf_str_drop) simp_all
        have "length p = i - k0" using i(1) by (simp add: p_def)
        then have add: "add_mount_entry stat fs (p @ NUL # s) (i - k0) = Some (fs_extend fs (mount_entries stat p))"
          using add_mount_entry_eq [OF k0(3)] by metis
        have "mnt_rel (bs[i := NUL]) (Suc i) (field + 1) mnt cur" using 2 by (simp add: mnt_rel_def)
        from IH [OF disjI2 [OF refl] this] 2 True Some k0(2) show ?thesis
          unfolding step by (simp add: str add defs del: drop_append)
      qed
    next
      case 3
      then have "mnt_rel (bs[i := NUL]) (Suc i) (field + 1) mnt cur" using rel0 by (auto simp: mnt_rel_def)
      from IH [OF disjI2 [OF refl] this] 3 True show ?thesis unfolding step by (auto simp: defs)
    qed
  next
    case False
    have more: "take (Suc (i - k0)) (drop k0 bs) = take (i - k0) (drop k0 bs) @ [c]" if "k0 \<le> i" for k0
      using that i(1,2) by (simp add: take_Suc_conv_app_nth)
    show ?thesis
    proof (cases "field = FIELD_MOUNT_ROOT \<and> c \<noteq> LF")
      case True
      then have "mnt_rel bs (Suc i) field (case mnt of None \<Rightarrow> Some i | Some k \<Rightarrow> Some k)
          (Some (case cur of None \<Rightarrow> [c] | Some p \<Rightarrow> p @ [c]))"
        using Cons.prems(1,4) i(6)
        by (auto simp: mnt_rel_def more Suc_diff_le split: option.splits)
      with True False show ?thesis unfolding step by (simp add: IH)
    next
      case other: False
      have "mnt_rel bs (Suc i) 0 None None" by (simp add: mnt_rel_def FIELD_MOUNT_ROOT_def)
      moreover have "field \<noteq> FIELD_MOUNT_ROOT \<Longrightarrow> mnt_rel bs (Suc i) field mnt cur"
        using rel0 by (simp add: mnt_rel_def)
      ultimately show ?thesis using False other unfolding step by (auto simp: IH)
    qed
  qed
qed

section \<open>Lines of mountinfo\<close>

record mount_line =
  ml_id :: string
  ml_parent :: string
  ml_device :: string
  ml_root :: string
  ml_point :: string
  ml_rest :: string

definition mline_text :: "mount_line \<Rightarrow> string" where
  "mline_text x = ml_id x @ CHR '' '' # ml_parent x @ CHR '' '' # ml_device x @ CHR '' '' # ml_root x @
     CHR '' '' # ml_point x @ CHR '' '' # ml_rest x @ [LF]"

definition is_word :: "string \<Rightarrow> bool" where
  "is_word w \<longleftrightarrow> w \<noteq> [] \<and> list_all (\<lambda>c. \<not> mnt_blank c \<and> c \<noteq> LF \<and> c \<noteq> NUL) w"

definition mline_ok :: "mount_line \<Rightarrow> bool" where
  "mline_ok x \<longleftrightarrow> is_word (ml_id x) \<and> is_word (ml_parent x) \<and> is_word (ml_device x) \<and>
     is_word (ml_root x) \<and> is_word (ml_point x) \<and>
     list_all (\<lambda>c. c \<noteq> LF \<and> c \<noteq> NUL) (ml_rest x)"

lemma is_text_all: "is_text s \<longleftrightarrow> list_all (\<lambda>c. c \<noteq> NUL) s"
  by (induction s) auto

lemma is_word_text: "is_word w \<Longrightarrow> is_text w"
  by (auto simp: is_word_def is_text_all list_all_iff)

lemma mline_is_text: "mline_ok x \<Longrightarrow> is_text (mline_text x)"
  by (auto simp: mline_ok_def mline_text_def is_word_text) (auto simp: is_text_all list_all_iff)

lemma mnt_blank_simps [simp]: "mnt_blank (CHR '' '')" "\<not> mnt_blank LF"
  by (simp_all add: mnt_blank_def)

lemma mnt_flat_word:
  "list_all (\<lambda>c. \<not> mnt_blank c \<and> c \<noteq> LF \<and> c \<noteq> NUL) w \<Longrightarrow> field \<noteq> FIELD_MOUNT_ROOT \<Longrightarrow>
    mnt_flat stat (w @ s) field cur fs = mnt_flat stat s field cur fs"
  by (induction w) auto

lemma mnt_flat_point_more:
  "list_all (\<lambda>c. \<not> mnt_blank c \<and> c \<noteq> LF \<and> c \<noteq> NUL) w \<Longrightarrow>
    mnt_flat stat (w @ s) FIELD_MOUNT_ROOT (Some p) fs = mnt_flat stat s FIELD_MOUNT_ROOT (Some (p @ w)) fs"
  by (induction w arbitrary: p) auto

lemma mnt_flat_point:
  "is_word w \<Longrightarrow>
    mnt_flat stat (w @ s) FIELD_MOUNT_ROOT None fs = mnt_flat stat s FIELD_MOUNT_ROOT (Some w) fs"
  by (cases w) (auto simp: is_word_def mnt_flat_point_more)

lemma mnt_flat_rest:
  "list_all (\<lambda>c. c \<noteq> LF \<and> c \<noteq> NUL) r \<Longrightarrow> FIELD_MOUNT_ROOT < field \<Longrightarrow>
    mnt_flat stat (r @ LF # s) field cur fs = mnt_flat stat s 0 None fs"
  by (induction r arbitrary: field) (auto simp: FIELD_MOUNT_ROOT_def FIELD_MOUNT_POINT_def)

lemma mnt_flat_line:
  assumes "mline_ok x"
  shows "mnt_flat stat (mline_text x @ s) 0 None fs =
    mnt_flat stat s 0 None (fs_extend fs (mount_entries stat (ml_point x)))"
proof -
  have w: "list_all (\<lambda>c. \<not> mnt_blank c \<and> c \<noteq> LF \<and> c \<noteq> NUL) (f x)" if "f \<in> {ml_id, ml_parent, ml_device, ml_root}" for f
    using that assms by (auto simp: mline_ok_def is_word_def)
  have p: "is_word (ml_point x)" and r: "list_all (\<lambda>c. c \<noteq> LF \<and> c \<noteq> NUL) (ml_rest x)"
    using assms by (simp_all add: mline_ok_def)
  note defs = FIELD_MOUNT_ROOT_def FIELD_MOUNT_POINT_def
  have pt: "mnt_flat stat (ml_point x @ CHR '' '' # ml_rest x @ LF # s) 4 None fs =
      mnt_flat stat s 0 None (fs_extend fs (mount_entries stat (ml_point x)))"
    using mnt_flat_point [OF p] mnt_flat_rest [OF r, of 5] by (simp add: defs)
  show ?thesis
    by (simp add: mline_text_def mnt_flat_word w defs) (use pt in \<open>simp add: eval_nat_numeral\<close>)
qed

definition mounts :: "statvfs \<Rightarrow> mount_line list \<Rightarrow> ustat_fs list" where
  "mounts stat xs = concat (map (\<lambda>x. mount_entries stat (ml_point x)) xs)"

lemma mnt_flat_lines:
  "list_all mline_ok xs \<Longrightarrow>
    mnt_flat stat (concat (map mline_text xs)) 0 None fs = Some (fs_extend fs (mounts stat xs))"
  by (induction xs arbitrary: fs) (simp_all add: mnt_flat_line mounts_def)

lemma mountinfo_size_eq: "clean fd \<Longrightarrow> 0 < i \<Longrightarrow> mountinfo_size fd i n = Some (n + length (content fd))"
proof (induction fd i n rule: mountinfo_size.induct)
  case (1 fd i n)
  obtain r s fd' where rd: "sys_read i fd = (r, s, fd')" by (metis prod_cases3)
  from sys_read_clean [OF "1.prems" rd]
  have c: "clean fd'" "content fd = s @ content fd'" "r = int (length s)" "s = [] \<longleftrightarrow> content fd = []"
    by blast+
  show ?case
  proof (cases "s = []")
    case True
    then have "r = 0" "content fd = []" using c(3) c(4) [THEN iffD1, OF True] True by (simp_all only: list.size of_nat_0)
    then show ?thesis by (subst mountinfo_size.simps) (simp add: rd)
  next
    case False
    have "mountinfo_size fd' (i * 2) (n + nat r) = Some (n + nat r + length (content fd'))"
      using "1.IH" [OF rd [symmetric] refl] False c(1,3) "1.prems"(2) by simp
    then show ?thesis using False c(3) by (subst mountinfo_size.simps) (simp add: rd c(2))
  qed
qed

text \<open>One \<open>read\<close> of the second phase delivers the lines \<open>xs\<close>.\<close>

lemma fs_init_platform_lines:
  assumes "clean fd" and "content fd \<noteq> []" and "fd' = Bytes (concat (map mline_text xs)) # later"
    and "length (concat (map mline_text xs)) \<le> 2 * length (content fd)" and "list_all mline_ok xs"
  shows "fs_init_platform stat (Some (fd, fd')) fs = Some (1, fs_extend fs (mounts stat xs))"
proof -
  let ?s = "concat (map mline_text xs)"
  have t: "is_text ?s" using assms(5) by (induction xs) (auto simp: mline_is_text)
  have "mountinfo_loop stat (length ?s) 0 (map Some ?s @ replicate (2 * length (content fd) - length ?s) None)
      None 0 fs = mnt_flat stat ?s 0 None fs"
    by (rule mountinfo_loop_flat) (simp_all add: t mnt_rel_def FIELD_MOUNT_ROOT_def)
  with assms show ?thesis
    by (simp add: fs_init_platform_def mountinfo_size_eq mnt_flat_lines Let_def)
qed

section \<open>The table as a function of the file\<close>

text \<open>
  The abstract contract of the loop: the file is cut into lines, a line into columns at every
  single blank, and a line with more than five columns adds what its fifth column asks for. An
  empty fifth column leaves \<open>mnt\<close> a null pointer.
\<close>

fun split_by :: "(char \<Rightarrow> bool) \<Rightarrow> string \<Rightarrow> string list" where
  "split_by P [] = [[]]"
| "split_by P (c # s) =
     (if P c then [] # split_by P s
      else case split_by P s of [] \<Rightarrow> [[c]] | l # ls \<Rightarrow> (c # l) # ls)"

definition point_entries :: "statvfs \<Rightarrow> string \<Rightarrow> ustat_fs list option" where
  "point_entries stat p = (if p = [] then None else Some (mount_entries stat p))"

definition line_entries :: "statvfs \<Rightarrow> string \<Rightarrow> ustat_fs list option" where
  "line_entries stat l = (let cols = split_by mnt_blank l in
     if length cols \<le> 5 then Some [] else point_entries stat (cols ! 4))"

definition mountinfo_table :: "statvfs \<Rightarrow> string \<Rightarrow> ustat_fs list option" where
  "mountinfo_table stat s = map_option concat (those (map (line_entries stat) (split_by (\<lambda>c. c = LF) s)))"

lemma split_by_ne [simp]: "split_by P s \<noteq> []"
  by (cases s) (auto split: list.split)

lemma split_by_Cons:
  "split_by P (c # s) =
     (if P c then [] # split_by P s else (c # hd (split_by P s)) # tl (split_by P s))"
  by (auto split: list.split)

lemma split_by_none: "list_all (\<lambda>c. \<not> P c) l \<Longrightarrow> split_by P l = [l]"
  by (induction l) auto

lemma split_by_append: "list_all (\<lambda>c. \<not> P c) l \<Longrightarrow> P c \<Longrightarrow> split_by P (l @ c # s) = l # split_by P s"
  by (induction l) auto

text \<open>What \<open>mnt_flat\<close> does in the columns from the current one on.\<close>

definition columns_entries :: "statvfs \<Rightarrow> nat \<Rightarrow> string \<Rightarrow> string list \<Rightarrow> ustat_fs list option" where
  "columns_entries stat field p cols =
     (if 4 < field \<or> length cols + field \<le> 5 then Some []
      else point_entries stat (if field = 4 then p @ hd cols else cols ! (4 - field)))"

definition mnt_after :: "statvfs \<Rightarrow> string \<Rightarrow> fs_table \<Rightarrow> fs_table option" where
  "mnt_after stat r fs = (case r of [] \<Rightarrow> Some fs | _ # s \<Rightarrow> mnt_flat stat s 0 None fs)"

definition cur_of :: "string \<Rightarrow> string option" where
  "cur_of p = (if p = [] then None else Some p)"

lemma mnt_flat_columns:
  assumes "list_all (\<lambda>c. c \<noteq> LF) l" and "r = [] \<or> hd r = LF" and "field < 4 \<longrightarrow> p = []"
  shows "mnt_flat stat (l @ r) field (if 4 < field then cur else cur_of p) fs =
    Option.bind (columns_entries stat field p (split_by mnt_blank l)) (\<lambda>es. mnt_after stat r (fs_extend fs es))"
  using assms
proof (induction l arbitrary: field p fs cur)
  case Nil
  then show ?case
    by (cases r) (auto simp: columns_entries_def mnt_after_def)
next
  case (Cons c l)
  note IH = Cons.IH [OF _ Cons.prems(2)]
  note defs = FIELD_MOUNT_ROOT_def FIELD_MOUNT_POINT_def columns_entries_def split_by_Cons
  have len: "0 < length (split_by mnt_blank l)" by simp
  consider "mnt_blank c" "field < 4" | "mnt_blank c" "field = 4" | "mnt_blank c" "4 < field"
    | "\<not> mnt_blank c" "field = 4" | "\<not> mnt_blank c" "field \<noteq> 4" by linarith
  then show ?case
  proof cases
    case 1
    then have "4 - field = Suc (4 - Suc field)" by simp
    then show ?thesis
      using 1 Cons.prems len IH [of "Suc field" "[]" cur fs] by (auto simp del: split_by.simps simp: defs cur_of_def hd_conv_nth)
  next
    case 2
    then show ?thesis
      using Cons.prems len IH [of 5 "[]" "cur_of p" "fs_extend fs (mount_entries stat p)"]
      by (auto simp del: split_by.simps simp: defs cur_of_def point_entries_def)
  next
    case 3
    then show ?thesis using Cons.prems IH [of "Suc field" "[]" cur fs] by (simp add: defs del: split_by.simps)
  next
    case 4
    then show ?thesis using Cons.prems len IH [of 4 "p @ [c]" cur fs]
      by (auto simp del: split_by.simps simp: defs cur_of_def split: if_splits)
  next
    case 5
    then show ?thesis using Cons.prems len IH [of field p cur fs]
      by (cases "split_by mnt_blank l") (auto simp del: split_by.simps simp: defs nth_Cons split: nat.splits if_splits)
  qed
qed

lemma mnt_flat_next:
  assumes "list_all (\<lambda>c. c \<noteq> LF) l" and "r = [] \<or> hd r = LF"
  shows "mnt_flat stat (l @ r) 0 None fs =
    Option.bind (line_entries stat l) (\<lambda>es. mnt_after stat r (fs_extend fs es))"
  using mnt_flat_columns [OF assms, of 0 "[]" stat] 
  by (simp add: cur_of_def columns_entries_def line_entries_def Let_def)

lemma mnt_flat_table: "mnt_flat stat s 0 None fs = map_option (fs_extend fs) (mountinfo_table stat s)"
proof (induction "length s" arbitrary: s fs rule: less_induct)
  case less
  define l r where "l = takeWhile (\<lambda>c. c \<noteq> LF) s" and "r = dropWhile (\<lambda>c. c \<noteq> LF) s"
  have s: "s = l @ r" by (simp add: l_def r_def)
  have l: "list_all (\<lambda>c. c \<noteq> LF) l" by (auto simp: l_def list_all_iff dest: set_takeWhileD)
  have r: "r = [] \<or> hd r = LF" using hd_dropWhile [of "\<lambda>c. c \<noteq> LF" s] by (auto simp: r_def)
  show ?case
  proof (cases r)
    case Nil
    then show ?thesis using mnt_flat_next [OF l r] l
      by (simp add: s mountinfo_table_def split_by_none mnt_after_def split: Option.bind_splits option.splits)
  next
    case (Cons c s')
    then have c: "c = LF" using r by simp
    have "mnt_flat stat s' 0 None fs' = map_option (fs_extend fs') (mountinfo_table stat s')" for fs'
      by (rule less.hyps) (simp add: s Cons)
    then show ?thesis using mnt_flat_next [OF l r, of stat fs] l c
      by (auto simp: s Cons mountinfo_table_def split_by_append mnt_after_def option.map_comp comp_def
          split: Option.bind_splits option.splits)
  qed
qed

section \<open>Properties\<close>

text \<open>A line of mountinfo and a \<open>statvfs\<close>, for examples.\<close>

definition mount_at :: "string \<Rightarrow> mount_line" where
  "mount_at p = \<lparr>ml_id = ''36'', ml_parent = ''35'', ml_device = ''98:0'', ml_root = ''/'', ml_point = p,
     ml_rest = ''rw,noatime - ext3 /dev/root rw''\<rparr>"

definition stat_1000 :: statvfs where
  "stat_1000 p = Some (1000, 250, 4096)"

lemma mount_at_ok: "is_word p \<Longrightarrow> mline_ok (mount_at p)"
proof -
  assume "is_word p"
  moreover have "mline_ok (mount_at ''/'')" by code_simp
  ultimately show ?thesis by (simp add: mline_ok_def mount_at_def)
qed

text \<open>
  C14. On Linux the table holds one entry for each line of mountinfo that the read of the second
  phase delivers, in their order, with the mount point as identifier and the sizes that
  \<open>statvfs\<close> reports for it; lines whose mount point starts with \<open>/proc\<close>, \<open>/sys\<close> or \<open>/dev\<close>, whose
  \<open>statvfs\<close> fails or whose total is 0 are left out. Initialisation fails exactly when no line
  remains.
\<close>

theorem fs_init_mounts:
  assumes "\<not> mod_ready m" and "clean fd" and "content fd \<noteq> []"
    and "fd' = Bytes (concat (map mline_text xs)) # later"
    and "length (concat (map mline_text xs)) \<le> 2 * length (content fd)" and "list_all mline_ok xs"
  shows "fs_init (fs_init_platform stat (Some (fd, fd'))) None m =
    (let es = concat (map (\<lambda>x. case stat (ml_point x) of
        Some (blocks, bfree, frsize) \<Rightarrow>
          if ignored_mount (ml_point x) \<or> blocks * frsize = 0 then []
          else [fs_entry (ml_point x) (blocks * frsize) (bfree * frsize)]
      | None \<Rightarrow> []) xs) in
     if es = [] then Some ([(2, error_no_fs_entries)], 0, None, m)
     else Some ([], 1, Some es, m\<lparr>mod_ready := True\<rparr>))"
proof -
  have "fs_extend None (mounts stat xs) = (if mounts stat xs = [] then None else Some (mounts stat xs))"
    by (simp add: fs_extend_def fs_entries_def)
  then show ?thesis
    using fs_init_platform_lines [OF assms(2-6), of stat None] assms(1)
    by (simp add: fs_init_def mounts_def mount_entries_def Let_def)
qed

theorem fs_init_mounts_witness:
  "let mtab = concat (map mline_text [mount_at ''/proc'', mount_at ''/home'']) in
   fs_init (fs_init_platform stat_1000 (Some ([Bytes mtab], [Bytes mtab]))) None
     (entry ''fst'' '''' Fs_init Fs_total_print) =
   Some ([], 1, Some [fs_entry ''/home'' 4096000 1024000],
     (entry ''fst'' '''' Fs_init Fs_total_print)\<lparr>mod_ready := True\<rparr>)"
proof -
  define mtab where "mtab = concat (map mline_text [mount_at ''/proc'', mount_at ''/home''])"
  have ok: "list_all mline_ok [mount_at ''/proc'', mount_at ''/home'']" by code_simp
  have ig: "ignored_mount ''/proc''" "\<not> ignored_mount ''/home''" by code_simp+
  have ne: "mtab \<noteq> []" by (simp add: mtab_def mline_text_def mount_at_def)
  have pt: "ml_point (mount_at p) = p" for p by (simp add: mount_at_def)
  show ?thesis
    using fs_init_mounts [of "entry ''fst'' '''' Fs_init Fs_total_print" "[Bytes mtab]" "[Bytes mtab]"
        "[mount_at ''/proc'', mount_at ''/home'']" "[]" stat_1000] ok ne
    unfolding mtab_def [symmetric] by (simp add: pt stat_1000_def ig Let_def)
qed

text \<open>
  C15. For any text that the second phase reads, well formed or not, the loop over the buffer, which
  cuts it into strings in place, refines the function that splits the text into lines and columns:
  it extends the table by the entries of that function, and is undefined exactly where a line has
  an empty column for the mount point.
\<close>

theorem mountinfo_refines_table:
  assumes "clean fd" and "content fd \<noteq> []" and "fd' = Bytes s # later"
    and "length s \<le> 2 * length (content fd)" and "is_text s"
  shows "fs_init_platform stat (Some (fd, fd')) fs =
    map_option (\<lambda>es. (1, fs_extend fs es)) (mountinfo_table stat s)"
proof -
  have "mountinfo_loop stat (length s) 0 (map Some s @ replicate (2 * length (content fd) - length s) None)
      None 0 fs = mnt_flat stat s 0 None fs"
    by (rule mountinfo_loop_flat) (simp_all add: assms(5) mnt_rel_def FIELD_MOUNT_ROOT_def)
  with assms show ?thesis
    by (cases "mountinfo_table stat s")
      (simp_all add: fs_init_platform_def mountinfo_size_eq mnt_flat_table Let_def)
qed


theorem mountinfo_refines_table_witness:
  "let s = ''36 35 98:0 / /home rw\<newline>''; t = ''short'' in
   fs_init_platform stat_1000 (Some ([Bytes s, Bytes t], [Bytes (s @ t)])) None =
     Some (1, Some [fs_entry ''/home'' 4096000 1024000])"
proof -
  let ?s = "''36 35 98:0 / /home rw\<newline>short''"
  have f: "mountinfo_table stat_1000 ?s = Some [fs_entry ''/home'' 4096000 1024000]"
  proof -
    have "split_by (\<lambda>c. c = LF) ?s = [''36 35 98:0 / /home rw'', ''short'']" by (simp add: mnt_blank_def)
    moreover have "split_by mnt_blank ''36 35 98:0 / /home rw'' = [''36'', ''35'', ''98:0'', ''/'', ''/home'', ''rw'']"
      "split_by mnt_blank ''short'' = [''short'']" "\<not> ignored_mount ''/home''" by (simp_all add: mnt_blank_def ignored_mount_def)
    ultimately show ?thesis
      by (simp add: mountinfo_table_def line_entries_def point_entries_def mount_entries_def stat_1000_def)
  qed
  show ?thesis
    using mountinfo_refines_table [of "[Bytes ''36 35 98:0 / /home rw\<newline>'', Bytes ''short'']" "[Bytes ?s]" ?s "[]" stat_1000 None]
    by (simp add: f fs_extend_def fs_entries_def)
qed

text \<open>Two blanks before the mount point make it a null pointer.\<close>

lemma mountinfo_null_point:
  "mountinfo_table stat ''36 35 98:0 /  rw '' = None"
proof -
  have "split_by (\<lambda>c. c = LF) ''36 35 98:0 /  rw '' = [''36 35 98:0 /  rw '']" by (simp add: mnt_blank_def)
  moreover have "split_by mnt_blank ''36 35 98:0 /  rw '' = [''36'', ''35'', ''98:0'', ''/'', [], ''rw'', []]"
    by (simp add: mnt_blank_def)
  ultimately show ?thesis by (simp add: mountinfo_table_def line_entries_def point_entries_def)
qed



text \<open>
  Every table that initialisation builds satisfies the condition under which selection works:
  each identifier is stored with its NUL and its length.
\<close>

lemma fs_init_entries_ok:
  assumes "\<not> mod_ready m" and "clean fd" and "content fd \<noteq> []"
    and "fd' = Bytes (concat (map mline_text xs)) # later"
    and "length (concat (map mline_text xs)) \<le> 2 * length (content fd)" and "list_all mline_ok xs"
    and "fs_init (fs_init_platform stat (Some (fd, fd'))) None m = Some (ws, 1, fs, m')"
  shows "\<exists>es. fs = Some es \<and> es \<noteq> [] \<and> list_all entry_ok es \<and>
    list_all (\<lambda>e. fs_n_total e \<noteq> 0 \<and> fs_name e \<in> ml_point ` set xs) es"
proof -
  have one: "entry_ok e \<and> fs_n_total e \<noteq> 0 \<and> fs_name e \<in> ml_point ` set xs"
    if "x \<in> set xs" "e \<in> set (mount_entries stat (ml_point x))" for x e
  proof -
    have "is_text (ml_point x)" using that(1) assms(6) by (auto simp: list_all_iff mline_ok_def is_word_text)
    with that show ?thesis by (auto simp: mount_entries_def split: option.splits if_splits)
  qed
  have "fs = fs_extend None (mounts stat xs)" "fs \<noteq> None"
    using assms(7) fs_init_platform_lines [OF assms(2-6), of stat None] assms(1)
    by (auto simp: fs_init_def split: if_splits)
  then have "fs = Some (mounts stat xs)" "mounts stat xs \<noteq> []"
    by (auto simp: fs_extend_def fs_entries_def split: if_splits)
  with one show ?thesis by (auto simp: mounts_def list_all_iff)
qed

text \<open>
  The platforms with \<open>getmntinfo\<close> copy every name with its NUL into an allocation without
  room for it: initialisation writes past the end of the first allocation whenever there is a
  mounted file system.
\<close>

lemma fs_init_other_overflow:
  assumes "mnts \<noteq> []"
  shows "fs_init_platform_other mnts fs = None"
proof -
  have "other_entry sf = None" for sf
    by (cases "str_len (f_mntonname sf)") (simp_all add: other_entry_def byte_copy_eq)
  with assms show ?thesis by (cases mnts) (simp_all add: fs_init_platform_other_def)
qed

text \<open>
  The used space is the total less the free space, in plain and in human form, for sizes
  below 2^63; the subtraction does not overflow there.
\<close>

theorem fs_used_prints:
  assumes "fs_select m tab s l = Some e"
    and "unat (fs_n_total e) < 2 ^ 63" and "fs_n_free e \<le> fs_n_total e"
  shows "fs_used_print tab fd m s l =
      Some ([(fd, dec (unat (fs_n_total e) - unat (fs_n_free e)))], 1)
    \<and> fs_used_human_print tab fd m s l = write_uint64_human fd 1 (fs_n_total e - fs_n_free e)"
  using assms by (simp add: fs_used_print_def fs_used_human_print_def i64_sub_le write_uint64_eq unat_sub)

theorem fs_used_prints_witness:
  "fs_used_print (Some [fs_entry ''/'' 4096000 1024000]) 1 (entry ''fsu'' '''' Fs_init Fs_used_print)
     (cstring ''fsu'') 3 = Some ([(1, dec 3072000)], 1)"
proof -
  have "fs_select (entry ''fsu'' '''' Fs_init Fs_used_print) (Some [fs_entry ''/'' 4096000 1024000])
      (cstring ''fsu'') 3 = Some (fs_entry ''/'' 4096000 1024000)"
    by (simp add: fs_select_def fs_entries_def)
  from fs_used_prints [OF this, of 1] show ?thesis by simp
qed

section \<open>The table is never empty\<close>

lemma add_mount_entry_nonempty:
  "add_mount_entry stat fs mnt l = Some fs' \<Longrightarrow> fs \<noteq> Some [] \<Longrightarrow> fs' \<noteq> Some []"
  by (auto simp: add_mount_entry_def split: if_splits prod.splits)

lemma mountinfo_loop_nonempty:
  "mountinfo_loop stat n i buf mnt field fs = Some fs' \<Longrightarrow> fs \<noteq> Some [] \<Longrightarrow> fs' \<noteq> Some []"
proof (induction "n - i" arbitrary: i buf mnt field fs)
  case 0
  then show ?case by (subst (asm) mountinfo_loop.simps) simp
next
  case (Suc d)
  then have i: "i < n" "d = n - Suc i" by simp_all
  note IH = Suc.hyps(1) [OF i(2)]
  from Suc.prems i(1) obtain b where b: "(if i < length buf then buf ! i else None) = Some b"
    by (subst (asm) mountinfo_loop.simps) (auto simp del: not_None_eq)
  show ?case
  proof (cases "(b = CHR '' '' \<or> b = TAB) \<and> field + 1 = FIELD_MOUNT_ROOT")
    case True
    with Suc.prems i(1) b have "mountinfo_loop stat n (Suc i) buf mnt (field + 1) fs = Some fs'"
      by (subst (asm) mountinfo_loop.simps) simp
    then show ?thesis using Suc.prems(2) by (rule IH)
  next
    case False
    let ?step = "if b = CHR '' '' \<or> b = TAB then do {
         buf \<leftarrow> buf_set buf i NUL;
         fs \<leftarrow> (if field + 1 = FIELD_MOUNT_POINT then do {
             k \<leftarrow> mnt;
             add_mount_entry stat fs (buf_str (drop k buf)) (i - k) }
           else Some fs);
         Some (field + 1, buf, fs) }
       else Some (field, buf, fs)"
    from Suc.prems(1) i(1) b False obtain field1 buf1 fs1 where step: "?step = Some (field1, buf1, fs1)"
      by (subst (asm) mountinfo_loop.simps) (simp split del: if_split, cases ?step, auto)
    then have ne: "fs1 \<noteq> Some []"
      using Suc.prems(2) by (auto dest: add_mount_entry_nonempty split: if_splits)
    have "\<exists>mnt' field'. mountinfo_loop stat n (Suc i) buf1 mnt' field' fs1 = Some fs'"
      using Suc.prems(1) i(1) b False step
      by (subst (asm) mountinfo_loop.simps) (simp split del: if_split, auto split: if_splits)
    then show ?thesis using IH ne by blast
  qed
qed

lemma fs_init_platform_nonempty:
  "fs_init_platform stat mountinfo fs = Some (rc, fs') \<Longrightarrow> fs \<noteq> Some [] \<Longrightarrow> fs' \<noteq> Some []"
  by (auto simp: fs_init_platform_def Let_def dest: mountinfo_loop_nonempty
      split: option.splits if_splits prod.splits)

end
