(* ===== verification/Users.thy ===== *)
theory Users
  imports Module "HOL-Library.Multiset"
begin

text \<open>
  \<^verbatim>\<open>ustat_user.c\<close>: the name and the number of the current user, and the number of users that are
  logged in, which is counted by sorting the names of the user accounting database.
\<close>

section \<open>The current user\<close>

text \<open>
  The name that \<open>getpwuid(getuid())\<close> yields, \<^term>\<open>None\<close> when it returns a null pointer. The
  writes go to descriptor 1.
\<close>

definition user_print :: "cstr option \<Rightarrow> nat \<Rightarrow> ustat_module \<Rightarrow> cstr \<Rightarrow> nat \<Rightarrow> printed" where
  "user_print pw_name fd m s l = do {
     name \<leftarrow> pw_name;
     n \<leftarrow> str_len name;
     Some ([(1, take n name)], 1) }"

definition uid_print :: "u32 \<Rightarrow> nat \<Rightarrow> ustat_module \<Rightarrow> cstr \<Rightarrow> nat \<Rightarrow> printed" where
  "uid_print uid fd m s l = do {
     buf \<leftarrow> fmt_fixed fmt_ulong 6 (ucast uid);
     Some ([(fd, buf)], 1) }"

section \<open>The number of users\<close>

text \<open>The members of \<open>struct utmpx\<close> that are read; \<open>ut_user\<close> is an array of 32 bytes.\<close>

record utmpx =
  ut_type :: int
  ut_user :: cstr

definition USER_PROCESS :: int where "USER_PROCESS = 7"
definition name_len :: nat where "name_len = 32"

record name_t =
  nt_len :: nat
  nt_s :: cstr

definition name_t_cmp :: "name_t \<Rightarrow> name_t \<Rightarrow> int option" where
  "name_t_cmp a b = (let l = (if nt_len a < nt_len b then nt_len a else nt_len b) in
     str_diffn (nt_s a) (nt_s b) l)"

text \<open>The first pass over the database counts the user processes.\<close>

fun count_users :: "utmpx list \<Rightarrow> nat \<Rightarrow> nat" where
  "count_users [] i = i"
| "count_users (u # us) i = count_users us (if ut_type u = USER_PROCESS then i + 1 else i)"

text \<open>The second pass copies their names; the entries are memory from \<open>malloc\<close>.\<close>

fun copy_names :: "utmpx list \<Rightarrow> nat \<Rightarrow> name_t list \<Rightarrow> name_t list option" where
  "copy_names [] i names = Some names"
| "copy_names (u # us) i names =
     (if ut_type u = USER_PROCESS then
        if i < length names then do {
          len \<leftarrow> str_len (ut_user u);
          s \<leftarrow> byte_copy (map Some (nt_s (names ! i))) len (ut_user u);
          copy_names us (i + 1) (names[i := \<lparr>nt_len = len, nt_s = buf_str s\<rparr>]) }
        else None
      else copy_names us i names)"

text \<open>\<open>for (nusers = 1, i = 1; i < n; i++)\<close>\<close>

function count_changes :: "name_t list \<Rightarrow> nat \<Rightarrow> nat \<Rightarrow> nat \<Rightarrow> nat option" where
  "count_changes names n i nusers = (if i < n then
     (if i < length names then do {
        d \<leftarrow> str_diffn (nt_s (names ! (i - 1))) (nt_s (names ! i)) name_len;
        count_changes names n (i + 1) (if d \<noteq> 0 then nusers + 1 else nusers) }
      else None)
     else Some nusers)"
  by pat_completeness auto
termination
  by (relation "measure (\<lambda>(names, n, i, nusers). n - i)") auto

declare count_changes.simps [simp del]

text \<open>
  \<open>qsort\<close> is an argument: a function of a comparison and an array. A comparison that reads out
  of bounds makes the call undefined.
\<close>

type_synonym qsort = "(name_t \<Rightarrow> name_t \<Rightarrow> int) \<Rightarrow> name_t list \<Rightarrow> name_t list"

definition qsort_names :: "qsort \<Rightarrow> name_t list \<Rightarrow> name_t list option" where
  "qsort_names qsort names =
     (if list_all (\<lambda>a. list_all (\<lambda>b. name_t_cmp a b \<noteq> None) names) names
      then Some (qsort (\<lambda>a b. the (name_t_cmp a b)) names) else None)"

text \<open>
  The arguments: \<open>qsort\<close>, the content of the memory that \<open>malloc\<close> returns, what the two passes
  over the database see, the static variable \<open>nusers\<close> and the module.
\<close>

definition nusers_init ::
  "qsort \<Rightarrow> (nat \<Rightarrow> name_t) \<Rightarrow> utmpx list \<Rightarrow> utmpx list \<Rightarrow> int \<Rightarrow> ustat_module \<Rightarrow>
     (int \<times> int \<times> ustat_module) option" where
  "nusers_init qsort heap pass1 pass2 nusers m =
     (if nusers \<noteq> -1 then Some (1, nusers, m\<lparr>mod_ready := True\<rparr>)
      else let i = count_users pass1 0 in
        if i \<le> 1 then Some (1, int i, m\<lparr>mod_ready := True\<rparr>)
        else do {
          let n = i;
          names \<leftarrow> copy_names pass2 0 (map heap [0..<n]);
          names \<leftarrow> qsort_names qsort names;
          nusers \<leftarrow> count_changes names n 1 1;
          Some (1, int nusers, m\<lparr>mod_ready := True\<rparr>) })"

definition nusers_print :: "int \<Rightarrow> nat \<Rightarrow> ustat_module \<Rightarrow> cstr \<Rightarrow> nat \<Rightarrow> printed" where
  "nusers_print nusers fd m s l = do {
     buf \<leftarrow> fmt_fixed fmt_ulong 6 (word_of_int nusers);
     Some ([(1, buf)], 1) }"

section \<open>What sorting promises\<close>

text \<open>
  A comparison that is a total preorder on a set, and the promise of \<open>qsort\<close>: for such a
  comparison the result is a sorted permutation.
\<close>

definition consistent :: "('a \<Rightarrow> 'a \<Rightarrow> int) \<Rightarrow> 'a set \<Rightarrow> bool" where
  "consistent cmp A \<longleftrightarrow> (\<forall>a \<in> A. \<forall>b \<in> A. cmp a b \<le> 0 \<or> cmp b a \<le> 0) \<and>
     (\<forall>a \<in> A. \<forall>b \<in> A. \<forall>c \<in> A. cmp a b \<le> 0 \<longrightarrow> cmp b c \<le> 0 \<longrightarrow> cmp a c \<le> 0)"

definition sorts :: "qsort \<Rightarrow> bool" where
  "sorts qsort \<longleftrightarrow> (\<forall>cmp xs. consistent cmp (set xs) \<longrightarrow>
     mset (qsort cmp xs) = mset xs \<and> sorted_wrt (\<lambda>a b. cmp a b \<le> 0) (qsort cmp xs))"

text \<open>One such function, which keeps the order of equal elements.\<close>

fun insert_by :: "('a \<Rightarrow> 'a \<Rightarrow> int) \<Rightarrow> 'a \<Rightarrow> 'a list \<Rightarrow> 'a list" where
  "insert_by cmp x [] = [x]"
| "insert_by cmp x (y # ys) = (if cmp x y \<le> 0 then x # y # ys else y # insert_by cmp x ys)"

definition insertion_sort :: "('a \<Rightarrow> 'a \<Rightarrow> int) \<Rightarrow> 'a list \<Rightarrow> 'a list" where
  "insertion_sort cmp xs = foldr (insert_by cmp) xs []"

lemma mset_insert_by [simp]: "mset (insert_by cmp x ys) = add_mset x (mset ys)"
  by (induction ys) auto

lemma set_insert_by [simp]: "set (insert_by cmp x ys) = insert x (set ys)"
  by (induction ys) auto

lemma consistent_subset: "consistent cmp A \<Longrightarrow> B \<subseteq> A \<Longrightarrow> consistent cmp B"
  unfolding consistent_def by (meson subsetD)

lemma sorted_insert_by:
  "consistent cmp (insert x (set ys)) \<Longrightarrow> sorted_wrt (\<lambda>a b. cmp a b \<le> 0) ys \<Longrightarrow>
    sorted_wrt (\<lambda>a b. cmp a b \<le> 0) (insert_by cmp x ys)"
proof (induction ys)
  case Nil
  show ?case by simp
next
  case (Cons y ys)
  have "consistent cmp (insert x (set ys))"     by (rule consistent_subset [OF Cons.prems(1)]) auto
  then have IH: "sorted_wrt (\<lambda>a b. cmp a b \<le> 0) (insert_by cmp x ys)"
    using Cons.IH Cons.prems(2) by simp
  have mem: "x \<in> insert x (set (y # ys))" "y \<in> insert x (set (y # ys))" by simp_all
  have tot: "cmp x y \<le> 0 \<or> cmp y x \<le> 0"
    using Cons.prems(1) mem unfolding consistent_def by blast
  have trans: "cmp x z \<le> 0" if "cmp x y \<le> 0" "z \<in> set ys" "cmp y z \<le> 0" for z
  proof -
    have "z \<in> insert x (set (y # ys))" using that(2) by simp
    with Cons.prems(1) mem that(1,3) show ?thesis unfolding consistent_def by blast
  qed
  show ?case
  proof (cases "cmp x y \<le> 0")
    case True
    with trans Cons.prems(2) show ?thesis by (simp add: Ball_def)
  next
    case False
    with tot IH Cons.prems(2) show ?thesis by (simp add: Ball_def)
  qed
qed

lemma insertion_sort_sorts: "sorts insertion_sort"
proof -
  have "mset (insertion_sort cmp xs) = mset xs \<and>
      (consistent cmp (set xs) \<longrightarrow> sorted_wrt (\<lambda>a b. cmp a b \<le> 0) (insertion_sort cmp xs))"
    for cmp and xs :: "name_t list"
  proof (induction xs)
    case Nil
    show ?case by (simp add: insertion_sort_def)
  next
    case (Cons x xs)
    have e: "insertion_sort cmp (x # xs) = insert_by cmp x (insertion_sort cmp xs)"
      by (simp add: insertion_sort_def)
    have m: "mset (insertion_sort cmp xs) = mset xs" using Cons by blast
    then have s: "set (insertion_sort cmp xs) = set xs" by (rule mset_eq_setD)
    show ?case
    proof (intro conjI impI)
      show "mset (insertion_sort cmp (x # xs)) = mset (x # xs)" by (simp add: e m)
      assume c: "consistent cmp (set (x # xs))"
      have "consistent cmp (set xs)" by (rule consistent_subset [OF c]) auto
      with Cons have "sorted_wrt (\<lambda>a b. cmp a b \<le> 0) (insertion_sort cmp xs)" by blast
      with c show "sorted_wrt (\<lambda>a b. cmp a b \<le> 0) (insertion_sort cmp (x # xs))"
        unfolding e by (intro sorted_insert_by) (simp_all add: s)
    qed
  qed
  then show ?thesis by (simp add: sorts_def)
qed

section \<open>The order of the names\<close>

lemma text_less_trans: "text_less a b \<Longrightarrow> text_less b c \<Longrightarrow> text_less a c"
proof (induction a b arbitrary: c rule: text_less.induct)
  case (2 y t)
  then show ?case by (cases c) auto
next
  case (3 x s y t)
  then show ?case by (cases c) auto
qed simp

lemma text_less_total: "a \<noteq> b \<Longrightarrow> text_less a b \<or> text_less b a"
proof (induction a b rule: text_less.induct)
  case (1 s)
  then show ?case by (cases s) auto
next
  case (3 x s y t)
  consider "x = y" | "uchar x < uchar y" | "uchar y < uchar x" using uchar_eq_iff [of x y] by linarith
  then show ?case using 3 by cases auto
qed simp

lemma text_less_take: "text_less (take n a) (take n b) \<Longrightarrow> text_less a b"
proof (induction a b arbitrary: n rule: text_less.induct)
  case (2 y t)
  then show ?case by simp
next
  case (3 x s y t)
  then show ?case by (cases n) auto
qed simp

text \<open>No name is a proper prefix of another one.\<close>

definition prefix_free :: "string set \<Rightarrow> bool" where
  "prefix_free A \<longleftrightarrow> (\<forall>a \<in> A. \<forall>b \<in> A. prefix a b \<longrightarrow> a = b)"

text \<open>A name in memory that was zero before.\<close>

definition mk_name :: "string \<Rightarrow> name_t" where
  "mk_name a = \<lparr>nt_len = length a, nt_s = a @ replicate (name_len - length a) NUL\<rparr>"

definition is_name :: "string \<Rightarrow> bool" where
  "is_name a \<longleftrightarrow> is_text a \<and> length a < name_len"

lemma mk_name_s:
  assumes "is_name a"
  shows "terminated (nt_s (mk_name a))" and "ctext (nt_s (mk_name a)) = a"
proof -
  obtain k where "name_len - length a = Suc k" using assms by (metis is_name_def Suc_diff_Suc)
  then have "nt_s (mk_name a) = a @ NUL # replicate k NUL" by (simp add: mk_name_def)
  with assms show "terminated (nt_s (mk_name a))" "ctext (nt_s (mk_name a)) = a"
    by (auto simp: is_name_def terminated_def ctext_def is_text_def takeWhile_append1 takeWhile_tail)
qed

lemma min_if: "(if (a::nat) < b then a else b) = (if a \<le> b then a else b)"
  by simp

lemma name_t_cmp_mk:
  assumes "is_name a" and "is_name b"
  shows "\<exists>d l. name_t_cmp (mk_name a) (mk_name b) = Some d \<and> l = (if length a \<le> length b then length a else length b) \<and>
    (d = 0 \<longleftrightarrow> take l a = take l b) \<and> (d < 0 \<longleftrightarrow> text_less (take l a) (take l b))"
proof -
  let ?l = "if length a \<le> length b then length a else length b"
  have l: "name_t_cmp (mk_name a) (mk_name b) = str_diffn (nt_s (mk_name a)) (nt_s (mk_name b)) ?l"
    by (simp add: name_t_cmp_def mk_name_def)
  obtain d where d: "str_diffn (nt_s (mk_name a)) (nt_s (mk_name b)) ?l = Some d" "d = 0 \<longleftrightarrow> take ?l a = take ?l b"
    using str_diffn_zero [of "nt_s (mk_name a)" "nt_s (mk_name b)" ?l] mk_name_s assms by metis
  then have "strncmp_ref (nt_s (mk_name a)) (nt_s (mk_name b)) ?l = Some d"
    by (simp add: str_diffn_def str_diffn_loop_ref)
  from strncmp_ref_less [OF this] have "d < 0 \<longleftrightarrow> text_less (take ?l a) (take ?l b)"
    using mk_name_s assms by metis
  with d show ?thesis unfolding l by blast
qed

text \<open>For prefix-free names the comparison is the dictionary order.\<close>

lemma name_t_cmp_less:
  assumes "is_name a" and "is_name b" and "prefix_free A" and "a \<in> A" and "b \<in> A"
  shows "\<exists>d. name_t_cmp (mk_name a) (mk_name b) = Some d \<and> (d \<le> 0 \<longleftrightarrow> a = b \<or> text_less a b)"
proof -
  obtain d l where d: "name_t_cmp (mk_name a) (mk_name b) = Some d"
    "l = (if length a \<le> length b then length a else length b)"
    "d = 0 \<longleftrightarrow> take l a = take l b" "d < 0 \<longleftrightarrow> text_less (take l a) (take l b)"
    using name_t_cmp_mk [OF assms(1,2)] by blast
  have eq: "take l a = take l b \<longleftrightarrow> a = b"
  proof
    assume t: "take l a = take l b"
    show "a = b"
    proof (cases "length a \<le> length b")
      case True
      then have "a = take l b" using t d(2) by simp
      then have "prefix a b" by (metis take_is_prefix)
      with assms show ?thesis by (auto simp: prefix_free_def)
    next
      case False
      then have "b = take l a" using t d(2) by simp
      then have "prefix b a" by (metis take_is_prefix)
      with assms show ?thesis by (auto simp: prefix_free_def)
    qed
  qed simp
  have "d \<le> 0 \<longleftrightarrow> a = b \<or> text_less a b"
  proof
    assume "d \<le> 0"
    then show "a = b \<or> text_less a b" using d(3,4) eq text_less_take by (metis less_eq_int_code(1) less_le)
  next
    assume ab: "a = b \<or> text_less a b"
    show "d \<le> 0"
    proof (rule ccontr)
      assume "\<not> d \<le> 0"
      then have "take l a \<noteq> take l b" "\<not> text_less (take l a) (take l b)" using d(3,4) by linarith+
      then have "text_less b a" "a \<noteq> b" using text_less_total text_less_take by blast+
      with ab show False using text_less_asym by blast
    qed
  qed
  with d(1) show ?thesis by blast
qed

lemma mk_name_inject: "is_name a \<Longrightarrow> is_name b \<Longrightarrow> mk_name a = mk_name b \<longleftrightarrow> a = b"
  by (metis mk_name_s(2))

section \<open>Counting\<close>

text \<open>The names of the user processes.\<close>

definition users :: "utmpx list \<Rightarrow> string list" where
  "users us = map (\<lambda>u. ctext (ut_user u)) (filter (\<lambda>u. ut_type u = USER_PROCESS) us)"

lemma count_users_eq: "count_users us i = i + length (users us)"
  by (induction us arbitrary: i) (simp_all add: users_def)

text \<open>An entry of the database whose name fits with its NUL.\<close>

definition utmpx_ok :: "utmpx \<Rightarrow> bool" where
  "utmpx_ok u \<longleftrightarrow> terminated (ut_user u) \<and> length (ctext (ut_user u)) < name_len"

lemma ctext_take: "terminated s \<Longrightarrow> take (length (ctext s)) s = ctext s"
  by (simp add: ctext_def) (metis takeWhile_eq_take)

lemma length_ctext_le: "length (ctext s) \<le> length s"
  by (simp add: ctext_def length_takeWhile_le)

lemma is_name_ctext: "utmpx_ok u \<Longrightarrow> is_name (ctext (ut_user u))"
  by (simp add: utmpx_ok_def is_name_def)

text \<open>The memory that \<open>malloc\<close> returned holds NUL bytes from position \<open>i\<close> on.\<close>

definition zeroed :: "name_t \<Rightarrow> bool" where
  "zeroed e \<longleftrightarrow> nt_s e = replicate name_len NUL"

lemma copy_names_eq:
  assumes "list_all utmpx_ok us" and "list_all zeroed (drop i names)"
    and "i + length (users us) \<le> length names"
  shows "copy_names us i names =
    Some (take i names @ map mk_name (users us) @ drop (i + length (users us)) names)"
  using assms
proof (induction us arbitrary: i names)
  case Nil
  then show ?case by (simp add: users_def)
next
  case (Cons u us)
  show ?case
  proof (cases "ut_type u = USER_PROCESS")
    case False
    with Cons show ?thesis by (simp add: users_def)
  next
    case True
    let ?a = "ctext (ut_user u)"
    have us: "users (u # us) = ?a # users us" using True by (simp add: users_def)
    have i: "i < length names" using Cons.prems(3) by (simp add: us)
    have u: "terminated (ut_user u)" "length ?a < name_len" using Cons.prems(1) by (simp_all add: utmpx_ok_def)
    have "drop i names = names ! i # drop (Suc i) names" using i by (simp add: Cons_nth_drop_Suc)
    with Cons.prems(2) have "zeroed (names ! i)" "list_all zeroed (drop (Suc i) names)" by simp_all
    then have z: "nt_s (names ! i) = replicate name_len NUL" "list_all zeroed (drop (Suc i) names)"
      by (simp_all only: zeroed_def)
    have cp: "byte_copy (map Some (nt_s (names ! i))) (length ?a) (ut_user u) =
        Some (map Some (nt_s (mk_name ?a)))"
      using u length_ctext_le [of "ut_user u"] by (simp add: byte_copy_eq z ctext_take mk_name_def)
    let ?names = "names[i := mk_name ?a]"
    have step: "copy_names (u # us) i names = copy_names us (i + 1) ?names"
    proof -
      have mk: "\<lparr>nt_len = length ?a, nt_s = nt_s (mk_name ?a)\<rparr> = mk_name ?a" by (simp add: mk_name_def)
      have bs: "buf_str (map Some x) = x" for x using buf_str_map_Some [of x 0] by simp
      show ?thesis using True i u(1) by (simp add: str_len_eq cp bs mk)
    qed
    have "copy_names us (i + 1) ?names = Some (take (i + 1) ?names @ map mk_name (users us) @
        drop (i + 1 + length (users us)) ?names)"
      using Cons.prems z(2) us by (intro Cons.IH) auto
    also have "take (i + 1) ?names = take i names @ [mk_name ?a]"
      using i by (simp add: take_Suc_conv_app_nth)
    finally show ?thesis unfolding step us by simp
  qed
qed

lemma count_changes_eq:
  assumes "0 < i" and "i \<le> length as" and "\<forall>a \<in> set as. is_name a"
  shows "count_changes (map mk_name as) (length as) i k =
    Some (k + (length (remdups_adj (drop (i - 1) as)) - 1))"
  using assms(1,2)
proof (induction "length as - i" arbitrary: i k)
  case 0
  then have i: "i = length as" by simp
  then have "i - 1 < length as" "Suc (i - 1) = length as" using "0.prems" by simp_all
  then have "drop (i - 1) as = [as ! (i - 1)]" by (simp add: Cons_nth_drop_Suc [symmetric])
  then have "length (remdups_adj (drop (i - 1) as)) - 1 = 0" by (simp only: remdups_adj.simps list.size)
  then show ?case using i by (subst count_changes.simps) simp
next
  case (Suc n)
  then have i: "i < length as" by simp
  let ?a = "as ! (i - 1)" and ?b = "as ! i"
  have nm: "is_name ?a" "is_name ?b" using i assms(3) by simp_all
  have dr: "drop (i - 1) as = ?a # ?b # drop (i + 1) as" "drop i as = ?b # drop (i + 1) as"
    using i Suc.prems(1) Cons_nth_drop_Suc [of "i - 1" as] Cons_nth_drop_Suc [of i as] by simp_all
  obtain d where d: "str_diffn (nt_s (mk_name ?a)) (nt_s (mk_name ?b)) name_len = Some d"
      "d = 0 \<longleftrightarrow> take name_len ?a = take name_len ?b"
    using str_diffn_zero [of "nt_s (mk_name ?a)" "nt_s (mk_name ?b)" name_len] mk_name_s nm by metis
  have "take name_len ?a = ?a" "take name_len ?b = ?b" using nm by (simp_all add: is_name_def)
  with d(2) have d0: "d = 0 \<longleftrightarrow> ?a = ?b" by simp
  have IH: "count_changes (map mk_name as) (length as) (i + 1) k' =
      Some (k' + (length (remdups_adj (drop i as)) - 1))" for k'
    using Suc.hyps(1) [of "i + 1" k'] Suc.hyps(2) i by simp
  have pos: "0 < length (remdups_adj (?b # drop (i + 1) as))" by simp
  have "count_changes (map mk_name as) (length as) i k =
      Some ((if d \<noteq> 0 then k + 1 else k) + (length (remdups_adj (drop i as)) - 1))"
    using i Suc.prems(1) d(1) IH by (subst count_changes.simps) simp
  then show ?case using pos unfolding dr d0 by (auto simp del: length_greater_0_conv)
qed

lemma remdups_adj_card:
  assumes "sorted_wrt R xs" and "antisymp_on (set xs) R"
  shows "length (remdups_adj xs) = card (set xs)"
  using assms
proof (induction xs rule: remdups_adj.induct)
  case (3 x y xs)
  show ?case
  proof (cases "x = y")
    case True
    then have "remdups_adj (x # y # xs) = remdups_adj (x # xs)" "set (x # y # xs) = set (x # xs)" by auto
    moreover have "length (remdups_adj (x # xs)) = card (set (x # xs))"
      using True "3.prems" by (intro "3.IH"(1)) simp_all
    ultimately show ?thesis by simp
  next
    case False
    have nin: "x \<notin> set (y # xs)"
    proof
      assume "x \<in> set (y # xs)"
      with False have x: "x \<in> set xs" by simp
      have "R x y" "R y x" using "3.prems"(1) x by simp_all
      then have "x = y" by (rule antisymp_onD [OF "3.prems"(2), rotated 2]) simp_all
      with False show False ..
    qed
    moreover have "length (remdups_adj (y # xs)) = card (set (y # xs))"
      using False "3.prems" antisymp_on_subset [OF "3.prems"(2), of "set (y # xs)"]
      by (intro "3.IH"(2)) auto
    moreover have "remdups_adj (x # y # xs) = x # remdups_adj (y # xs)" using False by simp
    moreover have "card (set (x # y # xs)) = Suc (card (set (y # xs)))"
      using card_insert_disjoint [OF List.finite_set nin] by simp
    ultimately show ?thesis by (simp only: list.size)
  qed
qed simp_all

lemma nusers_init_count:
  assumes "sorts qsort" and "\<And>i. zeroed (heap i)" and "list_all utmpx_ok us"
    and "prefix_free (set (users us))"
  shows "nusers_init qsort heap us us (-1) m =
    Some (1, int (card (set (users us))), m\<lparr>mod_ready := True\<rparr>)"
proof (cases "length (users us) \<le> 1")
  case True
  then obtain a where "users us = [] \<or> users us = [a]" by (cases "users us" rule: remdups_adj.cases) auto
  then show ?thesis by (auto simp: nusers_init_def count_users_eq)
next
  case False
  let ?n = "length (users us)" and ?cmp = "\<lambda>a b. the (name_t_cmp a b)"
  have nm: "is_name a" if "a \<in> set (users us)" for a
    using that assms(3) by (auto simp: users_def list_all_iff is_name_ctext)
  have copy: "copy_names us 0 (map heap [0..<?n]) = Some (map mk_name (users us))"
    using copy_names_eq [of us 0 "map heap [0..<?n]"] assms(2,3) by (simp add: list_all_iff)
  have le: "?cmp (mk_name a) (mk_name b) \<le> 0 \<longleftrightarrow> a = b \<or> text_less a b"
    and def: "name_t_cmp (mk_name a) (mk_name b) \<noteq> None"
    if "a \<in> set (users us)" "b \<in> set (users us)" for a b
    using name_t_cmp_less [OF nm nm assms(4)] that by fastforce+
  have "consistent ?cmp (set (map mk_name (users us)))"
    using le text_less_total text_less_trans unfolding consistent_def set_map
    by (simp add: ball_simps) metis
  with assms(1) obtain ys where ys: "qsort ?cmp (map mk_name (users us)) = ys"
    "mset ys = mset (map mk_name (users us))" "sorted_wrt (\<lambda>a b. ?cmp a b \<le> 0) ys"
    unfolding sorts_def by blast
  define zs where "zs = map (\<lambda>e. ctext (nt_s e)) ys"
  have "set ys = mk_name ` set (users us)" using mset_eq_setD [OF ys(2)] by simp
  then have z: "ys = map mk_name zs" "set zs = set (users us)"
    using mk_name_s(2) [OF nm] by (auto simp: zs_def comp_def intro!: map_idI [symmetric]) (auto simp: image_iff)
  have len: "length zs = ?n" using ys(2) z(1) by (metis length_map size_mset)
  have sorted: "sorted_wrt (\<lambda>a b. a = b \<or> text_less a b) zs"
    using ys(3) z(2) le unfolding z(1) sorted_wrt_map by (auto intro: sorted_wrt_mono_rel [rotated])
  have "antisymp_on (set zs) (\<lambda>a b. a = b \<or> text_less a b)"
    using text_less_asym by (auto intro!: antisymp_onI)
  with sorted have card: "length (remdups_adj zs) = card (set (users us))"
    using remdups_adj_card z(2) by metis
  moreover have "0 < card (set (users us))" using False by (auto simp: card_gt_0_iff)
  moreover have "count_changes (map mk_name zs) (length zs) 1 1 =
      Some (1 + (length (remdups_adj (drop (1 - 1) zs)) - 1))"
    using False len z(2) nm by (intro count_changes_eq) auto
  ultimately have "count_changes ys ?n 1 1 = Some (card (set (users us)))"
    by (simp add: z(1) len)
  moreover have "qsort_names qsort (map mk_name (users us)) = Some ys"
    using def ys(1) by (auto simp: qsort_names_def list_all_iff)
  ultimately show ?thesis
    using False copy by (simp add: nusers_init_def count_users_eq Let_def)
qed

section \<open>Properties\<close>

text \<open>
  C16. The number of users is the number of different names among the user processes, if the
  memory that \<open>malloc\<close> returns is zero, no name is a proper prefix of another, both passes see
  the same database and \<open>qsort\<close> sorts.
\<close>

theorem nusers_init_correct:
  assumes "sorts qsort" and "\<And>i. zeroed (heap i)" and "list_all utmpx_ok us"
    and "prefix_free (set (users us))"
  shows "nusers_init qsort heap us us (-1) m =
    Some (1, int (card (set (users us))), m\<lparr>mod_ready := True\<rparr>)"
  by (rule nusers_init_count [OF assms])

definition login :: "string \<Rightarrow> utmpx" where
  "login a = \<lparr>ut_type = USER_PROCESS, ut_user = cstring a\<rparr>"

definition zero_heap :: "nat \<Rightarrow> name_t" where
  "zero_heap i = \<lparr>nt_len = 0, nt_s = replicate name_len NUL\<rparr>"

lemma zeroed_zero_heap: "zeroed (zero_heap i)"
  by (simp add: zeroed_def zero_heap_def)

theorem nusers_init_correct_witness:
  "nusers_init insertion_sort zero_heap [login ''bob'', login ''alice'', login ''bob'']
     [login ''bob'', login ''alice'', login ''bob''] (-1) (entry ''nusers'' '''' Nusers_init Nusers_print) =
   Some (1, 2, (entry ''nusers'' '''' Nusers_init Nusers_print)\<lparr>mod_ready := True\<rparr>)"
proof -
  let ?us = "[login ''bob'', login ''alice'', login ''bob'']"
  have us: "users ?us = [''bob'', ''alice'', ''bob'']" by (simp add: users_def login_def)
  have ok: "list_all utmpx_ok ?us" by code_simp
  have card: "card (set [''bob'', ''alice'', ''bob'']) = 2" by code_simp
  have pf: "prefix_free (set (users ?us))" by (simp add: us prefix_free_def)
  show ?thesis
    using nusers_init_correct [OF insertion_sort_sorts zeroed_zero_heap ok pf] card
    unfolding us by simp
qed

lemma mset_pair:
  assumes "mset ys = mset [a, b]"
  shows "ys = [a, b] \<or> ys = [b, a]"
proof -
  have "length ys = 2" using arg_cong [OF assms, of size] by simp
  then obtain x y where "ys = [x, y]" by (auto simp: numeral_2_eq_2 length_Suc_conv)
  with assms show ?thesis by (auto simp: add_eq_conv_ex)
qed



text \<open>
  The comparison looks only at the length of the shorter name, so a name equals each of its
  extensions and sorting need not bring equal names together: with a correct \<open>qsort\<close> two users
  with three sessions are counted as three.
\<close>

lemma nusers_init_prefix:
  "sorts insertion_sort \<and> card (set (users [login ''ann'', login ''an'', login ''ann''])) = 2 \<and>
   nusers_init insertion_sort zero_heap [login ''ann'', login ''an'', login ''ann'']
     [login ''ann'', login ''an'', login ''ann''] (-1) m = Some (1, 3, m\<lparr>mod_ready := True\<rparr>)"
proof -
  let ?us = "[login ''ann'', login ''an'', login ''ann'']"
  have copy: "copy_names ?us 0 (map zero_heap [0..<3]) = Some (map mk_name [''ann'', ''an'', ''ann''])"
    by code_simp
  have "qsort_names insertion_sort (map mk_name [''ann'', ''an'', ''ann'']) =
      Some (map mk_name [''ann'', ''an'', ''ann''])" by code_simp
  moreover have "count_changes (map mk_name [''ann'', ''an'', ''ann'']) 3 1 1 = Some 3" by code_simp
  moreover have "count_users ?us 0 = 3" by code_simp
  moreover have "card (set (users ?us)) = 2" by code_simp
  ultimately show ?thesis
    using copy insertion_sort_sorts by (simp add: nusers_init_def Let_def)
qed

text \<open>
  The numbers of the user and of the users are printed through buffers of 6 bytes: every
  number below 10^6 is printed in decimal, from 10^6 on the buffer overflows.
\<close>

lemma user_numbers:
  fixes uid :: u32
  assumes "0 \<le> nusers" and "nusers < 2 ^ 31"
  shows "uid_print uid fd m s l =
      (if unat uid < 10 ^ 6 then Some ([(fd, dec (unat uid))], 1) else None)
    \<and> nusers_print nusers fd m s l =
      (if nusers < 10 ^ 6 then Some ([(1, dec (nat nusers))], 1) else None)"
proof -
  have "unat (ucast uid :: u64) = unat uid"
  proof -
    have "unat uid < 2 ^ 32" using unsigned_less [of uid, where 'a = nat] by simp
    then show ?thesis by (simp add: unsigned_ucast_eq take_bit_nat_eq_self)
  qed
  moreover have "unat (word_of_int nusers :: u64) = nat nusers"
  proof -
    have "nat nusers < 2 ^ 64" using assms by simp
    then have "unat (of_nat (nat nusers) :: u64) = nat nusers" by (simp only: unat_of_nat) simp
    then show ?thesis using assms(1) by (simp flip: of_nat_nat)
  qed
  moreover have "nat nusers < 10 ^ 6 \<longleftrightarrow> nusers < 10 ^ 6" using assms(1) by (simp add: nat_less_iff)
  ultimately show ?thesis
    by (simp add: uid_print_def nusers_print_def djb_fmt.fixed length_dec_le)
qed

end
