(* ===== verification/Sysinfo.thy ===== *)
theory Sysinfo
  imports Module
begin

text \<open>
  \<^verbatim>\<open>ustat_load.c\<close>, \<^verbatim>\<open>ustat_mem.c\<close> with its three platform files, \<^verbatim>\<open>ustat_procs.c\<close> and
  \<^verbatim>\<open>ustat_cpu.c\<close>: numbers that one call of the system yields. The answers of the system are
  arguments, \<^term>\<open>None\<close> where a call fails.
\<close>

section \<open>Load\<close>

text \<open>The members of Linux's \<open>struct sysinfo\<close> that are read.\<close>

record sysinfo =
  si_loads :: "u64 list"
  si_totalram :: u64
  si_freeram :: u64
  si_mem_unit :: u32

definition SI_LOAD_SHIFT :: nat where "SI_LOAD_SHIFT = 16"

text \<open>The static array \<open>_load\<close>.\<close>

definition load_initial :: "double list" where
  "load_initial = [Fin (-1), Fin (-1), Fin (-1)]"

definition get_loadavg :: "sysinfo option \<Rightarrow> double list \<Rightarrow> int \<times> double list" where
  "get_loadavg si load = (let scale = d_of_int (2 ^ SI_LOAD_SHIFT) in
     case si of
       None \<Rightarrow> (0, load)
     | Some si \<Rightarrow> (1, [d_div (d_of_u64 (si_loads si ! 0)) scale, d_div (d_of_u64 (si_loads si ! 1)) scale,
         d_div (d_of_u64 (si_loads si ! 2)) scale]))"

text \<open>The BSDs: \<open>ldavg\<close> and \<open>fscale\<close> of \<open>struct loadavg\<close>.\<close>

definition get_loadavg_bsd :: "(u32 list \<times> int) option \<Rightarrow> double list \<Rightarrow> int \<times> double list" where
  "get_loadavg_bsd l load = (case l of
     None \<Rightarrow> (0, load)
   | Some (ldavg, fscale) \<Rightarrow> (1, [d_div (d_of_int (uint (ldavg ! 0))) (d_of_int fscale),
       d_div (d_of_int (uint (ldavg ! 1))) (d_of_int fscale),
       d_div (d_of_int (uint (ldavg ! 2))) (d_of_int fscale)]))"

definition load_init ::
  "(double list \<Rightarrow> int \<times> double list) \<Rightarrow> double list \<Rightarrow> ustat_module \<Rightarrow> int \<times> double list \<times> ustat_module" where
  "load_init get load m = (let (_, load) = get load in (1, load, m\<lparr>mod_ready := True\<rparr>))"

function load_print_loop :: "double list \<Rightarrow> nat \<Rightarrow> nat \<Rightarrow> out option" where
  "load_print_loop load fd i = (if i < 3 then do {
     (ws, _) \<leftarrow> write_double fd (load ! i) 2;
     rest \<leftarrow> load_print_loop load fd (i + 1);
     Some (ws @ (if i < 2 then [(fd, '' '')] else []) @ rest) }
     else Some [])"
  by pat_completeness auto
termination
  by (relation "measure (\<lambda>(load, fd, i). 3 - i)") auto

declare load_print_loop.simps [simp del]

definition load_print :: "double list \<Rightarrow> nat \<Rightarrow> ustat_module \<Rightarrow> cstr \<Rightarrow> nat \<Rightarrow> printed" where
  "load_print load fd m s l = do { ws \<leftarrow> load_print_loop load fd 0; Some (ws, 1) }"

section \<open>Memory\<close>

text \<open>\<open>_mem_total\<close> and \<open>_mem_free\<close>\<close>

type_synonym mem_state = "u64 \<times> u64"

definition mem_initial :: mem_state where "mem_initial = (0, 0)"

definition mem_get_linux :: "sysinfo option \<Rightarrow> mem_state \<Rightarrow> int \<times> mem_state" where
  "mem_get_linux si st = (case si of
     None \<Rightarrow> (0, st)
   | Some si \<Rightarrow> (1, si_totalram si * ucast (si_mem_unit si), si_freeram si * ucast (si_mem_unit si)))"

text \<open>The BSDs: the results of the two \<open>sysconf\<close> calls, and \<open>t_free\<close> of \<open>struct vmtotal\<close>.\<close>

definition mem_get_bsd :: "int \<Rightarrow> int \<Rightarrow> u64 option \<Rightarrow> mem_state \<Rightarrow> int \<times> mem_state" where
  "mem_get_bsd pages ps t_free st =
     (if ps = -1 \<or> pages = -1 then (0, st)
      else case t_free of
        None \<Rightarrow> (0, st)
      | Some f \<Rightarrow> (1, word_of_int pages * word_of_int ps, f * word_of_int ps))"

text \<open>macOS: the page size and the counts of free, active, inactive and wired pages.\<close>

definition mem_get_osx ::
  "int \<Rightarrow> (u32 \<times> u32 \<times> u32 \<times> u32) option \<Rightarrow> mem_state \<Rightarrow> int \<times> mem_state" where
  "mem_get_osx ps vm st = (case vm of
     None \<Rightarrow> (0, st)
   | Some (free, active, inactive, wire) \<Rightarrow>
       (1, (ucast free + ucast active + ucast inactive + ucast wire) * word_of_int ps,
        ucast free * word_of_int ps))"

text \<open>With both numbers known the function returns before it sets \<open>ready\<close>.\<close>

definition mem_init ::
  "(mem_state \<Rightarrow> int \<times> mem_state) \<Rightarrow> mem_state \<Rightarrow> ustat_module \<Rightarrow> int \<times> mem_state \<times> ustat_module" where
  "mem_init get st m =
     (if fst st > 0 \<and> snd st > 0 then (1, st, m)
      else let (_, st) = get st in (1, st, m\<lparr>mod_ready := True\<rparr>))"

definition mem_print :: "nat \<Rightarrow> u64 \<Rightarrow> printed" where
  "mem_print fd val = do { s \<leftarrow> fmt_fixed fmt_uint64 FMT_ULONG val; Some ([(fd, s)], 1) }"

definition mem_total_print :: "mem_state \<Rightarrow> nat \<Rightarrow> ustat_module \<Rightarrow> cstr \<Rightarrow> nat \<Rightarrow> printed" where
  "mem_total_print st fd m s l = mem_print fd (fst st)"

definition mem_free_print :: "mem_state \<Rightarrow> nat \<Rightarrow> ustat_module \<Rightarrow> cstr \<Rightarrow> nat \<Rightarrow> printed" where
  "mem_free_print st fd m s l = mem_print fd (snd st)"

definition mem_total_human_print :: "mem_state \<Rightarrow> nat \<Rightarrow> ustat_module \<Rightarrow> cstr \<Rightarrow> nat \<Rightarrow> printed" where
  "mem_total_human_print st fd m s l = write_uint64_human fd 1 (fst st)"

definition mem_free_human_print :: "mem_state \<Rightarrow> nat \<Rightarrow> ustat_module \<Rightarrow> cstr \<Rightarrow> nat \<Rightarrow> printed" where
  "mem_free_human_print st fd m s l = write_uint64_human fd 1 (snd st)"

definition mem_ratio_print :: "mem_state \<Rightarrow> nat \<Rightarrow> ustat_module \<Rightarrow> cstr \<Rightarrow> nat \<Rightarrow> printed" where
  "mem_ratio_print st fd m s l = write_double fd (d_div (d_of_u64 (snd st)) (d_of_u64 (fst st))) 2"

section \<open>Processes and processors\<close>

text \<open>Linux: the names that \<open>readdir\<close> delivers for \<^verbatim>\<open>/proc\<close>.\<close>

fun count_procs :: "cstr list \<Rightarrow> u64 \<Rightarrow> u64 option" where
  "count_procs [] val = Some val"
| "count_procs (d_name # ds) val = do {
     c \<leftarrow> rd d_name 0;
     count_procs ds (if is_digit c then val + 1 else val) }"

definition get_number_active_processes :: "cstr list option \<Rightarrow> u64 \<Rightarrow> (int \<times> u64) option" where
  "get_number_active_processes proc nproc = (case proc of
     None \<Rightarrow> Some (0, nproc)
   | Some ds \<Rightarrow> do { val \<leftarrow> count_procs ds 0; Some (1, val) })"

text \<open>The BSDs: the size that \<open>sysctl\<close> reports, and the size of \<open>struct kinfo_proc\<close>.\<close>

definition get_number_active_processes_bsd :: "u64 option \<Rightarrow> u64 \<Rightarrow> u64 \<Rightarrow> (int \<times> u64) option" where
  "get_number_active_processes_bsd val kinfo_size nproc = (case val of
     None \<Rightarrow> Some (0, nproc)
   | Some val \<Rightarrow> Some (1, val div kinfo_size))"

definition nproc_print ::
  "(u64 \<Rightarrow> (int \<times> u64) option) \<Rightarrow> nat \<Rightarrow> ustat_module \<Rightarrow> cstr \<Rightarrow> nat \<Rightarrow> printed" where
  "nproc_print get fd m s l = do {
     (_, nproc) \<leftarrow> get 0;
     buf \<leftarrow> fmt_exact fmt_ulong nproc;
     Some ([(fd, buf)], 1) }"

text \<open>The result of \<open>sysconf(_SC_NPROCESSORS_ONLN)\<close>\<close>

definition ncpus_print :: "int \<Rightarrow> nat \<Rightarrow> ustat_module \<Rightarrow> cstr \<Rightarrow> nat \<Rightarrow> printed" where
  "ncpus_print ncpus fd m s l =
     (if ncpus < 0 then Some ([], 0)
      else do { buf \<leftarrow> fmt_exact fmt_ulong (word_of_int ncpus); Some ([(fd, buf)], 1) })"

section \<open>Fixed point numbers\<close>

lemma p2_minus_16: "p2 (-16) = 1 / 65536"
  by (simp add: power_int_minus)

lemma repr_fixed: "n < 2 ^ 53 \<Longrightarrow> repr (of_nat n / 65536)"
proof -
  assume "n < 2 ^ 53"
  then have "\<bar>int n\<bar> < 2 ^ 53" by simp
  moreover have "of_nat n / 65536 = of_int (int n) * p2 (-16)" by (simp add: p2_minus_16)
  moreover have "-1074 \<le> (-16 :: int)" by simp
  ultimately show ?thesis unfolding repr_def by blast
qed

text \<open>The text for a load average with 16 binary digits after the point.\<close>

definition load_text :: "nat \<Rightarrow> string" where
  "load_text l = dec (l div 65536) @ ''.'' @ pad2 ((100 * l + 32768) div 65536 mod 100)"

lemma floor_div: "\<lfloor>of_nat n / (65536 :: rat)\<rfloor> = int (n div 65536)"
  using floor_divide_of_nat_eq [of n 65536, where 'a = rat] by simp

lemma load_write:
  assumes "l < 2 ^ 40"
  shows "\<exists>ws. write_double fd (Fin (of_nat l / 65536)) 2 = Some (ws, 1) \<and> written fd ws = load_text l"
proof -
  let ?r = "of_nat l / 65536 :: rat"
  have "rnd_rat (?r * 100) = ?r * 100"
    using rnd_rat_repr [OF repr_fixed [of "100 * l"]] assms by (simp add: mult.commute)
  moreover have e: "?r * 100 + 1 / 2 = of_nat (100 * l + 32768) / 65536" by (simp add: field_simps)
  have "rnd_rat (?r * 100 + 1 / 2) = of_nat (100 * l + 32768) / 65536"
    unfolding e by (rule rnd_rat_repr [OF repr_fixed]) (use assms in simp)
  ultimately have "hundredths ?r = int ((100 * l + 32768) div 65536)"
    unfolding hundredths_def by (simp only: floor_div)
  then have h: "nat (hundredths ?r mod 100) = (100 * l + 32768) div 65536 mod 100"
    by (simp add: nat_mod_distrib del: div_add)
  have "of_nat l \<le> (of_nat (2 ^ 40) :: rat)" using assms by (simp only: of_nat_le_iff)
  then have "0 \<le> ?r" "?r \<le> 2 ^ 55" by (simp_all add: pos_divide_le_eq)
  from write_double_2_Fin [OF this, of fd] show ?thesis
    unfolding h by (simp add: floor_div load_text_def)
qed

lemma load_print_three:
  assumes "write_double fd a 2 = Some (wa, 1)" and "write_double fd b 2 = Some (wb, 1)"
    and "write_double fd c 2 = Some (wc, 1)"
  shows "load_print [a, b, c] fd m s n =
    Some (wa @ [(fd, '' '')] @ wb @ [(fd, '' '')] @ wc, 1)"
proof -
  have "load_print_loop [a, b, c] fd 3 = Some []" by (subst load_print_loop.simps) simp
  then have "load_print_loop [a, b, c] fd 2 = Some wc"
    using assms(3) by (subst load_print_loop.simps) simp
  then have "load_print_loop [a, b, c] fd 1 = Some (wb @ [(fd, '' '')] @ wc)"
    using assms(2) by (subst load_print_loop.simps) (simp add: numeral_2_eq_2)
  then have "load_print_loop [a, b, c] fd 0 = Some (wa @ [(fd, '' '')] @ wb @ [(fd, '' '')] @ wc)"
    using assms(1) by (subst load_print_loop.simps) simp
  then show ?thesis by (simp add: load_print_def)
qed

lemma load_quotient:
  assumes "unat v < 2 ^ 40"
  shows "d_div (d_of_u64 v) (d_of_int (2 ^ SI_LOAD_SHIFT)) = Fin (of_nat (unat v) / 65536)"
proof -
  have "repr (of_nat n)" if "n < 2 ^ 53" for n
    using repr_int [of "int n"] that by simp
  moreover have "(2 :: nat) ^ 40 \<le> 2 ^ 53" by (intro power_increasing) auto
  ultimately have "repr (of_nat (unat v))" using assms less_le_trans by blast
  then have "d_of_u64 v = Fin (of_nat (unat v))" by (simp add: d_of_u64_eq rnd_rat_repr)
  moreover have "d_of_int (2 ^ SI_LOAD_SHIFT) = Fin 65536"
    using d_of_int_exact [of 65536] by (simp add: SI_LOAD_SHIFT_def)
  moreover have "rnd (of_nat (unat v) / 65536) = Fin (of_nat (unat v) / 65536)"
  proof -
    have "of_nat (unat v) \<le> (of_nat (2 ^ 40) :: rat)" using assms by (simp only: of_nat_le_iff)
    moreover have "0 \<le> (of_nat (unat v) :: rat)" by (rule of_nat_0_le_iff)
    ultimately have "0 \<le> (of_nat (unat v) / 65536 :: rat)" "of_nat (unat v) / 65536 \<le> (2 :: rat) ^ 24"
      by (simp_all add: pos_divide_le_eq del: of_nat_unat)
    then show ?thesis
      using rnd_rat_bounds(1) [of _ 24] rnd_rat_repr [OF repr_fixed [of "unat v"]] assms by simp
  qed
  ultimately show ?thesis by simp
qed

section \<open>Counting processes\<close>

lemma count_procs_eq:
  assumes "list_all (\<lambda>d. d \<noteq> []) ds"
  shows "count_procs ds v = Some (v + of_nat (length (filter (\<lambda>d. is_digit (hd d)) ds)))"
  using assms
proof (induction ds arbitrary: v)
  case (Cons d ds)
  then obtain c t where "d = c # t" by (cases d) auto
  with Cons show ?case by (simp add: mem_simps add.assoc)
qed simp

section \<open>Properties\<close>

text \<open>
  With the three averages of \<open>sysinfo\<close>, fixed point numbers below 2^40 with 16 binary digits
  after the point, the module prints three numbers separated by blanks: each has its integer
  part, a point and two digits, the hundredths rounded half up and reduced modulo 100.
\<close>

theorem load_prints:
  assumes "si_loads si = [a, b, c]" and "unat a < 2 ^ 40" and "unat b < 2 ^ 40" and "unat c < 2 ^ 40"
  shows "\<exists>load ws. load_init (get_loadavg (Some si)) load_initial m = (1, load, m\<lparr>mod_ready := True\<rparr>) \<and>
    load_print load fd m' s l = Some (ws, 1) \<and>
    written fd ws = load_text (unat a) @ '' '' @ load_text (unat b) @ '' '' @ load_text (unat c)"
proof -
  obtain wa wb wc where w: "write_double fd (Fin (of_nat (unat a) / 65536)) 2 = Some (wa, 1)"
      "write_double fd (Fin (of_nat (unat b) / 65536)) 2 = Some (wb, 1)"
      "write_double fd (Fin (of_nat (unat c) / 65536)) 2 = Some (wc, 1)"
    and t: "written fd wa = load_text (unat a)" "written fd wb = load_text (unat b)"
      "written fd wc = load_text (unat c)"
    using load_write assms(2-4) by meson
  show ?thesis
    using load_print_three [OF w, of m' s l] assms t
    by (simp add: load_init_def get_loadavg_def load_quotient Let_def del: of_nat_unat)
qed

definition sample_sysinfo :: sysinfo where
  "sample_sysinfo = \<lparr>si_loads = [98304, 65536, 131000], si_totalram = 1000000, si_freeram = 250000,
     si_mem_unit = 4096\<rparr>"

theorem load_prints_witness:
  "\<exists>load ws. load_init (get_loadavg (Some sample_sysinfo)) load_initial (entry ''load'' '''' Load_init Load_print) =
      (1, load, (entry ''load'' '''' Load_init Load_print)\<lparr>mod_ready := True\<rparr>) \<and>
    load_print load 1 (entry ''load'' '''' Load_init Load_print) (cstring ''load'') 4 = Some (ws, 1) \<and>
    written 1 ws = ''1.50 1.00 1.00''"
proof -
  have d: "dec (Suc 0) = ''1''" "pad2 50 = ''50''" "pad2 0 = ''00''" by code_simp+
  have "load_text 98304 = ''1.50''" "load_text 65536 = ''1.00''" "load_text 131000 = ''1.00''"
    by (simp_all add: load_text_def d)
  then show ?thesis
    using load_prints [of sample_sysinfo 98304 65536 131000 "entry ''load'' '''' Load_init Load_print" 1
      "entry ''load'' '''' Load_init Load_print" "cstring ''load''" 4] by (simp add: sample_sysinfo_def)
qed

text \<open>
  When \<open>sysinfo\<close> fails, initialisation reports success all the same and the averages stay
  -1.0, whose conversion to an unsigned number is undefined.
\<close>

lemma load_failure:
  "\<exists>load. load_init (get_loadavg None) load_initial m = (1, load, m\<lparr>mod_ready := True\<rparr>) \<and>
    load_print load fd m' s l = None"
proof -
  have "write_double fd (Fin (-1)) 2 = None" by (simp add: write_double_2 trunc_def)
  then have "load_print_loop load_initial fd 0 = None"
    by (subst load_print_loop.simps) (simp add: load_initial_def)
  then show ?thesis by (simp add: load_init_def get_loadavg_def load_print_def Let_def)
qed

text \<open>
  On Linux the memory modules print the two amounts of \<open>sysinfo\<close> in bytes, if these fit into
  64 bits.
\<close>

lemma mem_prints:
  assumes "unat (si_totalram si) * unat (si_mem_unit si) < 2 ^ 64"
    and "unat (si_freeram si) * unat (si_mem_unit si) < 2 ^ 64"
  shows "\<exists>st. mem_init (mem_get_linux (Some si)) mem_initial m = (1, st, m\<lparr>mod_ready := True\<rparr>) \<and>
    mem_total_print st fd m' s l = Some ([(fd, dec (unat (si_totalram si) * unat (si_mem_unit si)))], 1) \<and>
    mem_free_print st fd m' s l = Some ([(fd, dec (unat (si_freeram si) * unat (si_mem_unit si)))], 1)"
  using unat_mult_u32 [OF assms(1)] unat_mult_u32 [OF assms(2)]
  by (simp add: mem_init_def mem_initial_def mem_get_linux_def mem_total_print_def mem_free_print_def
      mem_print_def u64_fmt.fixed_20 FMT_ULONG_def Let_def)



text \<open>
  On Linux the number of processes is the number of entries of \<open>/proc\<close> whose name starts with
  a digit, and 0 when the directory cannot be opened; a number of processors is printed as it is,
  and nothing for a negative one.
\<close>

lemma process_numbers:
  assumes "list_all (\<lambda>d. d \<noteq> []) ds" and "length ds < 2 ^ 64" and "ncpus < 2 ^ 63"
  shows "nproc_print (get_number_active_processes (Some ds)) fd m s l =
      Some ([(fd, dec (length (filter (\<lambda>d. is_digit (hd d)) ds)))], 1)
    \<and> nproc_print (get_number_active_processes None) fd m s l = Some ([(fd, ''0'')], 1)
    \<and> ncpus_print ncpus fd m s l =
      (if ncpus < 0 then Some ([], 0) else Some ([(fd, dec (nat ncpus))], 1))"
proof -
  let ?n = "length (filter (\<lambda>d. is_digit (hd d)) ds)"
  have "?n < 2 ^ 64" using assms(2) length_filter_le le_less_trans by blast
  then have "unat (of_nat ?n :: u64) = ?n" by (simp only: unat_of_nat) simp
  moreover have "unat (word_of_int ncpus :: u64) = nat ncpus" if "0 \<le> ncpus"
  proof -
    have "nat ncpus < 2 ^ 64" using assms(3) that by simp
    then have "unat (of_nat (nat ncpus) :: u64) = nat ncpus" by (simp only: unat_of_nat) simp
    then show ?thesis using that by (simp flip: of_nat_nat)
  qed
  moreover have "dec 0 = ''0''" by code_simp
  ultimately show ?thesis
    by (simp add: nproc_print_def get_number_active_processes_def count_procs_eq [OF assms(1)]
        ncpus_print_def djb_fmt.exact)
qed

end
