(* ===== verification/Uptime.thy ===== *)
theory Uptime
  imports Module
begin

text \<open>
  \<^verbatim>\<open>ustat_uptime.c\<close>, \<^verbatim>\<open>ustat_uptime_linux.c\<close> and \<^verbatim>\<open>ustat_uptime_bsd.c\<close>: the seconds since the
  system was started, and their form with days, hours and minutes.
\<close>

section \<open>Reading the uptime\<close>

text \<open>
  \<open>n = read(fd, buf, sizeof(buf)); buf[n] = 0x0;\<close> with an unsigned \<open>n\<close>: the contents of the
  buffer, of which the first \<open>n\<close> bytes come from the descriptor. After an error \<open>n\<close> is no index
  of the buffer.
\<close>

definition read_text :: "stream \<Rightarrow> buf \<Rightarrow> buf option" where
  "read_text fd b = (case sys_read (length b) fd of (r, s, _) \<Rightarrow>
     if r < 0 then None
     else buf_set (map Some s @ drop (length s) b) (nat r) NUL)"

text \<open>The uptime is an \<open>int64_t\<close>; \<^term>\<open>None\<close> is a file that cannot be opened.\<close>

definition get_boottime :: "stream option \<Rightarrow> u64 \<Rightarrow> (int \<times> u64) option" where
  "get_boottime file uptime = (case file of
     None \<Rightarrow> Some (0, uptime)
   | Some fd \<Rightarrow> do {
       buf \<leftarrow> read_text fd (buf_new FMT_ULONG);
       (_, val) \<leftarrow> scan_ulong (buf_str buf);
       Some (1, val) })"

text \<open>The BSDs: the second the system was started and the current one.\<close>

definition get_boottime_bsd :: "int option \<Rightarrow> int \<Rightarrow> u64 \<Rightarrow> (int \<times> u64) option" where
  "get_boottime_bsd bt now uptime = (case bt of
     None \<Rightarrow> Some (0, uptime)
   | Some bt \<Rightarrow> let d = now - bt in
       if - (2 ^ 63) \<le> d \<and> d < 2 ^ 63 then Some (1, word_of_int d) else None)"

definition uptime_initial :: u64 where "uptime_initial = 0"

definition uptime_init ::
  "(u64 \<Rightarrow> (int \<times> u64) option) \<Rightarrow> u64 \<Rightarrow> ustat_module \<Rightarrow> (int \<times> u64 \<times> ustat_module) option" where
  "uptime_init get uptime m = do {
     (_, uptime) \<leftarrow> get uptime;
     Some (1, uptime, m\<lparr>mod_ready := True\<rparr>) }"

section \<open>Output\<close>

definition uptime_print :: "u64 \<Rightarrow> nat \<Rightarrow> ustat_module \<Rightarrow> cstr \<Rightarrow> nat \<Rightarrow> printed" where
  "uptime_print uptime fd m s l = do { (ws, _) \<leftarrow> write_uint64 fd uptime; Some (ws, 1) }"

text \<open>One of the three conditional parts: the writes and what is left of the time.\<close>

definition uptime_part :: "nat \<Rightarrow> int \<Rightarrow> int \<Rightarrow> string \<Rightarrow> (out \<times> int) option" where
  "uptime_part fd ut unit letter =
     (if ut \<ge> unit then do {
        (ws, _) \<leftarrow> write_uint64 fd (word_of_int (ut div unit));
        Some (ws @ [(fd, letter)], ut mod unit) }
      else Some ([], ut))"

definition uptime_print_human :: "u64 \<Rightarrow> nat \<Rightarrow> ustat_module \<Rightarrow> cstr \<Rightarrow> nat \<Rightarrow> printed" where
  "uptime_print_human uptime fd m s l = do {
     let ut = sint uptime;
     (d, ut) \<leftarrow> uptime_part fd ut 86400 ''d'';
     (h, ut) \<leftarrow> uptime_part fd ut 3600 ''h'';
     (mi, ut) \<leftarrow> uptime_part fd ut 60 ''m'';
     (ws, _) \<leftarrow> write_uint64 fd (word_of_int ut);
     Some (d @ h @ mi @ ws @ [(fd, ''s'')], 1) }"

section \<open>Reading a small file\<close>

lemma read_text_fits:
  assumes "fd = Bytes t # later" and "length t < length b"
  shows "read_text fd b = Some (map Some t @ Some NUL # drop (Suc (length t)) b)"
proof -
  have "(map Some t @ drop (length t) b)[length t := Some NUL] = map Some t @ Some NUL # drop (Suc (length t)) b"
    using assms(2) by (simp add: Cons_nth_drop_Suc [symmetric] list_update_append)
  then show ?thesis using assms by (simp add: read_text_def buf_set_def)
qed

lemma read_text_full:
  assumes "fd = Bytes t # later" and "length b \<le> length t"
  shows "read_text fd b = None"
  using assms by (auto simp: read_text_def buf_set_def)

lemma buf_str_prefix: "\<exists>rest. buf_str (map Some t @ Some c # b) = t @ c # rest"
  by (induction t) (auto simp: buf_str_def)

lemma scan_ulong_text:
  "\<not> is_digit c \<Longrightarrow>
    scan_ulong (t @ c # rest) = Some (length (takeWhile is_digit t), of_nat (undec (takeWhile is_digit t)))"
proof -
  assume c: "\<not> is_digit c"
  then have "takeWhile is_digit (t @ c # rest) = takeWhile is_digit t"
    by (induction t) auto
  moreover have "length (takeWhile is_digit t) \<le> length t" by (rule length_takeWhile_le)
  ultimately show ?thesis by (simp add: scan_ulong_eq Let_def)
qed

lemma NUL_no_digit [simp]: "\<not> is_digit NUL"
  by (simp add: is_digit_def)

section \<open>The human form\<close>

lemma uptime_part_eq:
  assumes "0 \<le> ut" and "ut < 2 ^ 63" and "0 < unit"
  shows "uptime_part fd ut unit letter = Some
    (if ut div unit = 0 then [] else [(fd, dec (nat (ut div unit))), (fd, letter)], ut mod unit)"
proof (cases "ut \<ge> unit")
  case True
  then have "0 < ut div unit" using assms by (simp add: pos_imp_zdiv_pos_iff)
  moreover have "ut div unit \<le> ut" using zdiv_mono2 [of ut 1 unit] assms by simp
  then have "ut div unit < 2 ^ 64" using assms(2) by simp
  then have "nat (ut div unit) < 2 ^ 64" by (simp add: nat_less_iff \<open>0 < ut div unit\<close> less_imp_le)
  then have "unat (of_nat (nat (ut div unit)) :: u64) = nat (ut div unit)" by (simp only: unat_of_nat) simp
  ultimately show ?thesis using True by (simp add: uptime_part_def write_uint64_eq)
next
  case False
  with assms show ?thesis by (simp add: uptime_part_def)
qed

section \<open>Properties\<close>

text \<open>
  C35. From a file that one read delivers in at most 39 bytes the uptime is the number that its
  leading digits form, modulo 2^64; 40 bytes or more overflow the buffer by its terminating NUL,
  and a file that cannot be opened leaves the old value.
\<close>

theorem uptime_init_linux:
  assumes "file = Some (Bytes t # later)"
  shows "uptime_init (get_boottime file) uptime m =
      (if length t < FMT_ULONG
       then Some (1, of_nat (undec (takeWhile is_digit t)), m\<lparr>mod_ready := True\<rparr>) else None)
    \<and> uptime_init (get_boottime None) uptime m = Some (1, uptime, m\<lparr>mod_ready := True\<rparr>)"
proof (cases "length t < FMT_ULONG")
  case True
  obtain rest where r: "buf_str (map Some t @ Some NUL # drop (Suc (length t)) (buf_new FMT_ULONG)) = t @ NUL # rest"
    using buf_str_prefix by blast
  have "read_text (Bytes t # later) (buf_new FMT_ULONG) =
      Some (map Some t @ Some NUL # drop (Suc (length t)) (buf_new FMT_ULONG))"
    using True by (intro read_text_fits [OF refl]) simp
  with True assms r show ?thesis
    by (simp add: uptime_init_def get_boottime_def scan_ulong_text)
next
  case False
  then have "read_text (Bytes t # later) (buf_new FMT_ULONG) = None"
    by (intro read_text_full [OF refl]) simp
  with False assms show ?thesis by (simp add: uptime_init_def get_boottime_def)
qed

theorem uptime_init_linux_witness:
  "uptime_init (get_boottime (Some [Bytes ''350735.47 234388.90'', Bytes [LF]])) 0
     (entry ''ut'' '''' Uptime_init Uptime_print) =
   Some (1, 350735, (entry ''ut'' '''' Uptime_init Uptime_print)\<lparr>mod_ready := True\<rparr>)"
proof -
  have "takeWhile is_digit ''350735.47 234388.90'' = ''350735''" by code_simp
  moreover have "undec ''350735'' = 350735" by (simp add: undec_def dval_def)
  moreover have "length ''350735.47 234388.90'' < FMT_ULONG" by (simp add: FMT_ULONG_def)
  ultimately show ?thesis
    using uptime_init_linux [OF refl, of "''350735.47 234388.90''" "[Bytes [LF]]" 0
      "entry ''ut'' '''' Uptime_init Uptime_print"] by simp
qed

lemma uptime_decomposed:
  assumes "unat uptime = 86400 * d + 3600 * h + 60 * mi + se" and "unat uptime < 2 ^ 63"
    and "h < 24" and "mi < 60" and "se < 60"
  shows "\<exists>ws. uptime_print_human uptime fd m s l = Some (ws, 1) \<and>
    written fd ws = (if d = 0 then '''' else dec d @ ''d'') @ (if h = 0 then '''' else dec h @ ''h'') @
      (if mi = 0 then '''' else dec mi @ ''m'') @ dec se @ ''s''"
proof -
  define t where "t = 86400 * d + 3600 * h + 60 * mi + se"
  have t63: "t < 2 ^ 63" using assms(1,2) by (simp add: t_def)
  have "sint uptime = int t" using sint_u64 [OF assms(2)] assms(1) by (simp add: t_def)
  moreover have parts: "int (c * a + r) div int c = int a" "int (c * a + r) mod int c = int r"
    if "r < c" for a c r :: nat
    using that unfolding zdiv_int [symmetric] zmod_int [symmetric] by simp_all
  have "int t div 86400 = int d" "int t mod 86400 = int (3600 * h + 60 * mi + se)"
    using parts [of "3600 * h + 60 * mi + se" 86400 d] assms(3-5) by (simp_all add: t_def add.assoc)
  moreover have "int (3600 * h + 60 * mi + se) div 3600 = int h" "int (3600 * h + 60 * mi + se) mod 3600 = int (60 * mi + se)"
    using parts [of "60 * mi + se" 3600 h] assms(4,5) by (simp_all add: add.assoc)
  moreover have "int (60 * mi + se) div 60 = int mi" "int (60 * mi + se) mod 60 = int se"
    using parts [of se 60 mi] assms(5) by simp_all
  moreover have "int t < 2 ^ 63" using t63 by simp
  moreover have "unat (of_nat se :: u64) = se"
  proof -
    have "se < 2 ^ 64" using assms(5) by simp
    then show ?thesis by (simp only: unat_of_nat) simp
  qed
  ultimately show ?thesis
    using assms(3-5) by (simp add: uptime_print_human_def uptime_part_eq write_uint64_eq)
qed

text \<open>
  C30. The human form of a non-negative uptime is its decomposition into days, hours, minutes and
  seconds, with the days, hours and minutes that are 0 left out.
\<close>

theorem uptime_human_decomposition:
  assumes "unat uptime = 86400 * d + 3600 * h + 60 * mi + se" and "unat uptime < 2 ^ 63"
    and "h < 24" and "mi < 60" and "se < 60"
  shows "\<exists>ws. uptime_print_human uptime fd m s l = Some (ws, 1) \<and>
    written fd ws = (if d = 0 then '''' else dec d @ ''d'') @ (if h = 0 then '''' else dec h @ ''h'') @
      (if mi = 0 then '''' else dec mi @ ''m'') @ dec se @ ''s''"
  by (rule uptime_decomposed [OF assms])

theorem uptime_human_decomposition_witness:
  "\<exists>ws. uptime_print_human 176461 1 (entry ''ut+h'' '''' Uptime_init Uptime_print_human) (cstring ''ut+h'') 4 = Some (ws, 1) \<and>
    written 1 ws = ''2d1h1m1s''"
proof -
  have d: "dec (Suc 0) = ''1''" "dec 2 = ''2''" by code_simp+
  show ?thesis
    using uptime_human_decomposition [of 176461 2 1 1 1 1 "entry ''ut+h'' '''' Uptime_init Uptime_print_human"
      "cstring ''ut+h''" 4] by (simp add: d)
qed

end
