(* ===== verification/Battery.thy ===== *)
theory Battery
  imports Uptime
begin

text \<open>
  \<^verbatim>\<open>ustat_battery.c\<close>, \<^verbatim>\<open>ustat_battery_linux.c\<close> and \<^verbatim>\<open>ustat_battery_osx.c\<close>: the level of the
  battery and whether it is charging. Both files of Linux are read into the same buffer.
\<close>

section \<open>State and initialisation\<close>

text \<open>Both members are of type \<open>int\<close>.\<close>

record ustat_battery =
  bat_level :: u32
  bat_is_charging :: u32

definition battery_initial :: ustat_battery where
  "battery_initial = \<lparr>bat_level = 100, bat_is_charging = 0\<rparr>"

definition MAX_BYTES :: nat where "MAX_BYTES = 32"

definition CHARGING_MARKER :: cstr where "CHARGING_MARKER = cstring ''Charging''"

text \<open>
  The arguments are what opening the files \<^verbatim>\<open>status\<close> and \<^verbatim>\<open>capacity\<close> gives, \<^term>\<open>None\<close> for a
  failed call.
\<close>

definition get_battery_info ::
  "stream option \<Rightarrow> stream option \<Rightarrow> ustat_battery \<Rightarrow> (int \<times> ustat_battery) option" where
  "get_battery_info status capacity bi = (case status of
     None \<Rightarrow> Some (0, bi)
   | Some fd \<Rightarrow> do {
       buf \<leftarrow> read_text fd (buf_new MAX_BYTES);
       c \<leftarrow> str_start (buf_str buf) CHARGING_MARKER;
       let bi = (if c \<noteq> 0 then bi\<lparr>bat_is_charging := 1\<rparr> else bi);
       (case capacity of
          None \<Rightarrow> Some (0, bi)
        | Some fd \<Rightarrow> do {
            buf \<leftarrow> read_text fd buf;
            (_, l) \<leftarrow> scan_ulong (buf_str buf);
            Some (1, bi\<lparr>bat_level := ucast l\<rparr>) }) })"

text \<open>
  macOS: the list of the power sources, each with the two entries of its description where they exist.
  The code takes the first source without looking at the length of the list.
\<close>

type_synonym power_source = "bool option \<times> u32 option"

definition get_battery_info_osx :: "power_source list \<Rightarrow> ustat_battery \<Rightarrow> (int \<times> ustat_battery) option" where
  "get_battery_info_osx psil bi = (case psil of
     [] \<Rightarrow> None
   | (isCharging, val) # _ \<Rightarrow>
       let bi = (case isCharging of Some True \<Rightarrow> bi\<lparr>bat_is_charging := 1\<rparr> | _ \<Rightarrow> bi);
           bi = (case val of Some bl \<Rightarrow> bi\<lparr>bat_level := bl\<rparr> | None \<Rightarrow> bi)
       in Some (0, bi))"

definition get_battery_info_none :: "ustat_battery \<Rightarrow> (int \<times> ustat_battery) option" where
  "get_battery_info_none bi = Some (0, bi)"

definition bat_init ::
  "(ustat_battery \<Rightarrow> (int \<times> ustat_battery) option) \<Rightarrow> ustat_battery \<Rightarrow> ustat_module \<Rightarrow>
     (int \<times> ustat_battery \<times> ustat_module) option" where
  "bat_init get bi m =
     (if mod_ready m then Some (1, bi, m)
      else do { (_, bi) \<leftarrow> get bi; Some (1, bi, m\<lparr>mod_ready := True\<rparr>) })"

section \<open>Output\<close>

text \<open>An \<open>int\<close> is passed to \<open>fmt_ulong\<close>, which extends its sign.\<close>

definition bat_level_print :: "ustat_battery \<Rightarrow> nat \<Rightarrow> printed" where
  "bat_level_print bi fd = do {
     s \<leftarrow> fmt_fixed fmt_ulong FMT_ULONG (scast (bat_level bi)); Some ([(fd, s)], 1) }"

definition bat_charging_print :: "ustat_battery \<Rightarrow> nat \<Rightarrow> printed" where
  "bat_charging_print bi fd = do {
     s \<leftarrow> fmt_fixed fmt_ulong FMT_ULONG (scast (bat_is_charging bi)); Some ([(fd, s)], 1) }"

text \<open>The table of the environment variables and their defaults.\<close>

definition s1s2 :: "(string \<times> string) list" where
  "s1s2 = [(''USTAT_BAT_DISCHARGING'', ''v''), (''USTAT_BAT_CHARGING'', ''^'')]"

definition bat_charging_human_print ::
  "(string \<Rightarrow> cstr option) \<Rightarrow> ustat_battery \<Rightarrow> nat \<Rightarrow> printed" where
  "bat_charging_human_print getenv bi fd =
     (if unat (bat_is_charging bi) < length s1s2 then
        let (key, def) = s1s2 ! unat (bat_is_charging bi) in do {
          (s, l) \<leftarrow> os_getenv_or_def (getenv key) (cstring def);
          Some (if l > 0 then [(fd, take l s)] else [], 1) }
      else None)"

section \<open>Properties\<close>

lemma str_start_text:
  "str_start (t @ NUL # rest) (cstring q) = Some (if prefix q (ctext t) then 1 else 0)" if "is_text q"
proof -
  have "ctext (t @ NUL # rest) = ctext t" by (induction t) auto
  moreover have "terminated (t @ NUL # rest)" by (simp add: terminated_def)
  ultimately show ?thesis using that by (simp add: str_start_eq)
qed

lemma get_battery_info_files:
  assumes "length t < MAX_BYTES" and "length c < MAX_BYTES"
  shows "get_battery_info (Some (Bytes t # later)) (Some (Bytes c # later')) bi =
    Some (1, \<lparr>bat_level = of_nat (undec (takeWhile is_digit c)),
      bat_is_charging = (if prefix ''Charging'' (ctext t) then 1 else bat_is_charging bi)\<rparr>)"
proof -
  let ?b1 = "map Some t @ Some NUL # drop (Suc (length t)) (buf_new MAX_BYTES)"
  have r1: "read_text (Bytes t # later) (buf_new MAX_BYTES) = Some ?b1"
    using assms(1) by (intro read_text_fits [OF refl]) simp
  have "length ?b1 = MAX_BYTES" using assms(1) by simp
  then have r2: "read_text (Bytes c # later') ?b1 = Some (map Some c @ Some NUL # drop (Suc (length c)) ?b1)"
    using assms(2) by (intro read_text_fits [OF refl]) simp
  obtain rest1 where s1: "buf_str ?b1 = t @ NUL # rest1" using buf_str_prefix by blast
  obtain rest2 where s2: "buf_str (map Some c @ Some NUL # drop (Suc (length c)) ?b1) = c @ NUL # rest2"
    using buf_str_prefix by blast
  have lvl: "(ucast (of_nat n :: u64) :: u32) = of_nat n" for n
    by (simp add: unsigned_of_nat word_of_nat_eq_iff take_bit_eq_mod mod_mod_cancel)
  have ch: "str_start (buf_str ?b1) CHARGING_MARKER = Some (if prefix ''Charging'' (ctext t) then 1 else 0)"
    unfolding s1 CHARGING_MARKER_def by (rule str_start_text) simp
  show ?thesis
    unfolding get_battery_info_def
    by (simp add: r1 r2 ch s2 scan_ulong_text lvl Let_def del: drop_append)
qed

text \<open>
  C36. On Linux, for files that one read delivers in at most 31 bytes: the battery is charging when
  the first file starts with \<open>Charging\<close>, and the level is the number that the leading digits of
  the second form; a missing first file leaves the defaults, 32 bytes or more in the first file
  overflow the buffer by the terminating NUL.
\<close>

theorem bat_init_linux:
  assumes "\<not> mod_ready m" and "length t < MAX_BYTES" and "length c < MAX_BYTES"
    and "MAX_BYTES \<le> length long"
  shows "bat_init (get_battery_info (Some (Bytes t # later)) (Some (Bytes c # later'))) battery_initial m =
      Some (1, \<lparr>bat_level = of_nat (undec (takeWhile is_digit c)),
        bat_is_charging = (if prefix ''Charging'' (ctext t) then 1 else 0)\<rparr>, m\<lparr>mod_ready := True\<rparr>)
    \<and> bat_init (get_battery_info None (Some (Bytes c # later'))) battery_initial m =
      Some (1, battery_initial, m\<lparr>mod_ready := True\<rparr>)
    \<and> bat_init (get_battery_info (Some (Bytes long # later)) cap) battery_initial m = None"
proof -
  have "read_text (Bytes long # later) (buf_new MAX_BYTES) = None"
    using assms(4) by (intro read_text_full [OF refl]) simp
  then show ?thesis
    using assms(1) get_battery_info_files [OF assms(2,3)]
    by (simp add: bat_init_def battery_initial_def) (simp add: get_battery_info_def)
qed

theorem bat_init_linux_witness:
  "bat_init (get_battery_info (Some [Bytes (''Charging'' @ [LF])]) (Some [Bytes (''97'' @ [LF])])) battery_initial
     (entry ''bat%'' '''' Bat_init Bat_level_print) =
   Some (1, \<lparr>bat_level = 97, bat_is_charging = 1\<rparr>, (entry ''bat%'' '''' Bat_init Bat_level_print)\<lparr>mod_ready := True\<rparr>)"
proof -
  have t: "prefix ''Charging'' (ctext (''Charging'' @ [LF]))" "takeWhile is_digit (''97'' @ [LF]) = ''97''"
    by code_simp+
  have u: "undec ''97'' = 97" by (simp add: undec_def dval_def)
  have l: "length (''Charging'' @ [LF]) < MAX_BYTES" "length (''97'' @ [LF]) < MAX_BYTES"
    "MAX_BYTES \<le> length (replicate 32 LF)" by (simp_all add: MAX_BYTES_def)
  from bat_init_linux [OF _ l, of "entry ''bat%'' '''' Bat_init Bat_level_print" "[]" "[]"]
  show ?thesis unfolding t(2) u using t(1) by simp
qed

text \<open>
  The battery modules print a level below 2^31 and the charging flag in decimal, and in the
  human form the value of the environment variable for the state, or its default if it is not set
  or empty.
\<close>

theorem bat_prints:
  assumes "bat_level bi < 2 ^ 31" and "bat_is_charging bi = (if charging then 1 else 0)"
    and "\<And>k e. getenv k = Some e \<Longrightarrow> \<exists>v. e = cstring v \<and> is_text v"
  shows "bat_level_print bi fd = Some ([(fd, dec (unat (bat_level bi)))], 1)
    \<and> bat_charging_print bi fd = Some ([(fd, if charging then ''1'' else ''0'')], 1)
    \<and> bat_charging_human_print getenv bi fd = Some ([(fd,
        let key = (if charging then ''USTAT_BAT_CHARGING'' else ''USTAT_BAT_DISCHARGING'');
          def = (if charging then ''^'' else ''v'')
        in case getenv key of None \<Rightarrow> def | Some e \<Rightarrow> if ctext e = [] then def else ctext e)], 1)"
proof -
  have lvl: "unat (scast (bat_level bi) :: u64) = unat (bat_level bi)"
    using assms(1) by (intro scast_u32) (simp add: word_less_nat_alt)
  have flag: "unat (scast (bat_is_charging bi) :: u64) = (if charging then 1 else 0)" by (simp add: assms(2))
  have d: "dec 1 = ''1''" "dec 0 = ''0''" by code_simp+
  have human: "bat_charging_human_print getenv bi fd = Some ([(fd, case getenv key of None \<Rightarrow> def
      | Some e \<Rightarrow> if ctext e = [] then def else ctext e)], 1)"
    if "s1s2 ! (if charging then 1 else 0) = (key, def)" "def \<noteq> []" "is_text def" for key def
  proof -
    have env: "\<And>e. getenv key = Some e \<Longrightarrow> terminated e" using assms(3) by fastforce
    have tk: "take (length (ctext e)) e = ctext e" if "getenv key = Some e" for e
    proof -
      obtain v where "e = cstring v" "is_text v" using assms(3) \<open>getenv key = Some e\<close> by blast
      then show ?thesis by simp (simp add: cstring_def)
    qed
    have td: "take (length def) (cstring def) = def" by (simp add: cstring_def)
    show ?thesis
      using that tk td os_getenv_or_def_eq [OF that(3) env]
      by (cases charging) (auto simp: bat_charging_human_print_def assms(2) s1s2_def split: option.splits)
  qed
  show ?thesis
    using human [of "''USTAT_BAT_CHARGING''" "''^''"] human [of "''USTAT_BAT_DISCHARGING''" "''v''"] d
    by (cases charging) (simp_all add: bat_level_print_def bat_charging_print_def djb_fmt.fixed_20
      FMT_ULONG_def lvl flag s1s2_def Let_def)
qed

theorem bat_prints_witness:
  "bat_charging_human_print (\<lambda>k. if k = ''USTAT_BAT_CHARGING'' then Some (cstring ''+'') else None)
     \<lparr>bat_level = 97, bat_is_charging = 1\<rparr> 1 = Some ([(1, ''+'')], 1)"
proof -
  let ?env = "\<lambda>k. if k = ''USTAT_BAT_CHARGING'' then Some (cstring ''+'') else None"
  have "\<exists>v. e = cstring v \<and> is_text v" if "?env k = Some e" for k e
    using that by (intro exI [of _ "''+''"]) (auto split: if_splits)
  from bat_prints [of "\<lparr>bat_level = 97, bat_is_charging = 1\<rparr>" True ?env 1, OF _ _ this]
  show ?thesis by simp
qed

end
