(* ===== verification/Date.thy ===== *)
theory Date
  imports Module
begin

text \<open>
  \<^verbatim>\<open>ustat_date.c\<close>: the current time in a format that is the argument of the module.
\<close>

definition MICRO_SECS :: u64 where "MICRO_SECS = 1000 * 1000"

text \<open>
  The time that \<open>gettimeofday\<close> yields, in seconds and microseconds of signed 64-bit members; the
  factor is unsigned, and with it the whole computation.
\<close>

definition date_seconds :: "u64 \<Rightarrow> u64 \<Rightarrow> u64" where
  "date_seconds tv_sec tv_usec = (tv_sec * MICRO_SECS + tv_usec) div MICRO_SECS"

text \<open>
  \<open>gmtime\<close> and \<open>strftime\<close> are arguments: the first yields a broken-down time or a null pointer,
  the second the bytes it stores for a size, a format and a time. That \<open>ready\<close> is set again has
  no effect, as it is set before any output.
\<close>

definition date_print ::
  "(int \<Rightarrow> 'tm option) \<Rightarrow> (nat \<Rightarrow> string \<Rightarrow> 'tm \<Rightarrow> string) \<Rightarrow> u64 \<times> u64 \<Rightarrow>
     nat \<Rightarrow> ustat_module \<Rightarrow> cstr \<Rightarrow> nat \<Rightarrow> printed" where
  "date_print gmtime strftime t fd m s l = (case t of (tv_sec, tv_usec) \<Rightarrow> do {
     t2 \<leftarrow> gmtime (sint (date_seconds tv_sec tv_usec));
     off \<leftarrow> str_len (mod_name m);
     let buf = strftime 256 (ctext (drop off s)) t2;
     Some (if length buf > 0 then [(fd, buf)] else [], 1) })"

lemma date_seconds_eq:
  assumes "unat sec * 10 ^ 6 + unat usec < 2 ^ 64"
  shows "unat (date_seconds sec usec) = unat sec + unat usec div 10 ^ 6"
proof -
  have "unat (sec * MICRO_SECS + usec) = unat sec * 10 ^ 6 + unat usec"
  proof -
    have "sec * MICRO_SECS + usec = of_nat (unat sec * 10 ^ 6 + unat usec)" by (simp add: MICRO_SECS_def)
    then show ?thesis using assms by (simp only: unat_of_nat) simp
  qed
  then show ?thesis by (simp add: date_seconds_def unat_div) (simp add: MICRO_SECS_def)
qed

section \<open>Properties\<close>

text \<open>
  For a time whose microseconds since the epoch fit into 64 bits, with less than a second in
  the microseconds, the normalisation is the identity and the module writes what \<open>strftime\<close>
  stores for these seconds and for the text after the module's name, and nothing for an empty
  result.
\<close>

theorem date_prints:
  assumes "mod_name m = cstring nm" and "is_text nm" and "is_text fmt"
    and "unat sec < 2 ^ 44" and "unat usec < 10 ^ 6"
    and gmtime_total: "\<And>i. 0 \<le> i \<Longrightarrow> gmtime i = Some (tm i)"
    and strftime_fits: "\<And>f t. length (strftime 256 f t) < 256"
  shows "\<exists>out. date_print gmtime strftime (sec, usec) fd m (cstring (nm @ fmt)) l = Some (out, 1) \<and>
    written fd out = strftime 256 fmt (tm (int (unat sec))) \<and> length (written fd out) < 256"
proof -
  have "unat sec * 10 ^ 6 + unat usec < 2 ^ 64" using assms(4,5) by simp
  from date_seconds_eq [OF this] have u: "unat (date_seconds sec usec) = unat sec" using assms(5) by simp
  then have "date_seconds sec usec = sec" by (simp add: word_unat_eq_iff)
  moreover have "sint sec = int (unat sec)" using assms(4) by (intro sint_u64) simp
  moreover have "drop (length nm) (cstring (nm @ fmt)) = cstring fmt" by (simp add: cstring_def)
  ultimately show ?thesis
    using assms by (auto simp: date_print_def Let_def simp del: of_nat_unat)
qed

theorem date_prints_witness:
  "\<exists>out. date_print (\<lambda>i. Some i) (\<lambda>n f t. take 255 f) (86400, 999999) 1 (entry ''date'' '''' No_init Date_print)
     (cstring (''date'' @ ''%s'')) 6 = Some (out, 1) \<and> written 1 out = ''%s''"
proof -
  have fits: "length ((\<lambda>(n::nat) (f::string) (t::int). take 255 f) 256 f t) < 256" for f t
    by (auto simp: min_def)
  show ?thesis
    using date_prints [of "entry ''date'' '''' No_init Date_print" "''date''" "''%s''" 86400 999999
      "\<lambda>i. Some i" "\<lambda>i. i" "\<lambda>n f t. take 255 f" 1 6, OF _ _ _ _ _ _ fits] by auto
qed

end
