(* ===== verification/Ustat.thy ===== *)
theory Ustat
  imports Color Tcp Fs Users Sysinfo Uptime Battery Date
begin

text \<open>
  \<^verbatim>\<open>ustat.c\<close>: the table of the modules, the two loops of \<open>main\<close> over the arguments, and the usage
  text. The loops take the dispatchers of a build as arguments; those defined here map the function
  pointers of the table to the definitions of the modules in a build for Linux.
\<close>

section \<open>The machine and the static variables\<close>

text \<open>What the system answers to the calls of the modules.\<close>

record 'tm machine =
  mc_sysinfo :: "sysinfo option"
  mc_uptime :: "stream option"
  mc_utmpx :: "utmpx list \<times> utmpx list"
  mc_qsort :: qsort
  mc_heap :: "nat \<Rightarrow> name_t"
  mc_bat_status :: "stream option"
  mc_bat_capacity :: "stream option"
  mc_mountinfo :: "(stream \<times> stream) option"
  mc_statvfs :: statvfs
  mc_tcp4 :: "stream option"
  mc_tcp6 :: "stream option"
  mc_time :: "u64 \<times> u64"
  mc_gmtime :: "int \<Rightarrow> 'tm option"
  mc_strftime :: "nat \<Rightarrow> string \<Rightarrow> 'tm \<Rightarrow> string"
  mc_uid :: u32
  mc_pw_name :: "cstr option"
  mc_proc :: "cstr list option"
  mc_ncpus :: int
  mc_getenv :: "string \<Rightarrow> cstr option"

text \<open>The static variables of the modules, and their initial values.\<close>

record statics =
  st_load :: "double list"
  st_uptime :: u64
  st_nusers :: int
  st_battery :: ustat_battery
  st_mem :: mem_state
  st_fs :: fs_table
  st_tcp :: tcp_state

definition statics_initial :: statics where
  "statics_initial = \<lparr>st_load = load_initial, st_uptime = uptime_initial, st_nusers = -1,
     st_battery = battery_initial, st_mem = mem_initial, st_fs = None, st_tcp = tcp_initial\<rparr>"

section \<open>Calls through the function pointers\<close>

text \<open>
  The writes of a call of \<open>init\<close>, and its result, the static variables and the module afterwards,
  or the exit code when it ends the program.
\<close>

type_synonym inited = "(out \<times> (int + int \<times> statics \<times> ustat_module)) option"

definition no_init :: "statics \<Rightarrow> ustat_module \<Rightarrow> inited" where
  "no_init st m = Some ([], Inr (1, st, m\<lparr>mod_ready := True\<rparr>))"

fun call_init :: "init_fn \<Rightarrow> 'tm machine \<Rightarrow> statics \<Rightarrow> ustat_module \<Rightarrow> inited" where
  "call_init No_init mc st m = no_init st m"
| "call_init Load_init mc st m = (case load_init (get_loadavg (mc_sysinfo mc)) (st_load st) m of
     (rc, v, m) \<Rightarrow> Some ([], Inr (rc, st\<lparr>st_load := v\<rparr>, m)))"
| "call_init Uptime_init mc st m = do {
     (rc, v, m) \<leftarrow> uptime_init (get_boottime (mc_uptime mc)) (st_uptime st) m;
     Some ([], Inr (rc, st\<lparr>st_uptime := v\<rparr>, m)) }"
| "call_init Nusers_init mc st m = do {
     (rc, v, m) \<leftarrow> nusers_init (mc_qsort mc) (mc_heap mc) (fst (mc_utmpx mc)) (snd (mc_utmpx mc))
       (st_nusers st) m;
     Some ([], Inr (rc, st\<lparr>st_nusers := v\<rparr>, m)) }"
| "call_init Bat_init mc st m = do {
     (rc, v, m) \<leftarrow> bat_init (get_battery_info (mc_bat_status mc) (mc_bat_capacity mc)) (st_battery st) m;
     Some ([], Inr (rc, st\<lparr>st_battery := v\<rparr>, m)) }"
| "call_init Mem_init mc st m = (case mem_init (mem_get_linux (mc_sysinfo mc)) (st_mem st) m of
     (rc, v, m) \<Rightarrow> Some ([], Inr (rc, st\<lparr>st_mem := v\<rparr>, m)))"
| "call_init Fs_init mc st m = do {
     (ws, rc, v, m) \<leftarrow> fs_init (fs_init_platform (mc_statvfs mc) (mc_mountinfo mc)) (st_fs st) m;
     Some (ws, Inr (rc, st\<lparr>st_fs := v\<rparr>, m)) }"
| "call_init Tcp_init mc st m = do {
     (rc, v, m) \<leftarrow> tcp_init (mc_tcp4 mc) (mc_tcp6 mc) (st_tcp st) m;
     Some ([], Inr (rc, st\<lparr>st_tcp := v\<rparr>, m)) }"

text \<open>A call of \<open>print\<close>; the static variables are only read.\<close>

fun call_print ::
  "print_fn \<Rightarrow> 'tm machine \<Rightarrow> statics \<Rightarrow> nat \<Rightarrow> ustat_module \<Rightarrow> cstr \<Rightarrow> nat \<Rightarrow> printed" where
  "call_print Pass_print mc st = pass_print"
| "call_print Nl_print mc st = nl_print"
| "call_print Load_print mc st = load_print (st_load st)"
| "call_print Uptime_print_human mc st = uptime_print_human (st_uptime st)"
| "call_print Uptime_print mc st = uptime_print (st_uptime st)"
| "call_print Date_print mc st = date_print (mc_gmtime mc) (mc_strftime mc) (mc_time mc)"
| "call_print Uid_print mc st = uid_print (mc_uid mc)"
| "call_print User_print mc st = user_print (mc_pw_name mc)"
| "call_print Nusers_print mc st = nusers_print (st_nusers st)"
| "call_print Nproc_print mc st = nproc_print (get_number_active_processes (mc_proc mc))"
| "call_print Ncpus_print mc st = ncpus_print (mc_ncpus mc)"
| "call_print Bat_level_print mc st = (\<lambda>fd m s l. bat_level_print (st_battery st) fd)"
| "call_print Bat_charging_human_print mc st =
     (\<lambda>fd m s l. bat_charging_human_print (mc_getenv mc) (st_battery st) fd)"
| "call_print Bat_charging_print mc st = (\<lambda>fd m s l. bat_charging_print (st_battery st) fd)"
| "call_print Mem_free_human_print mc st = mem_free_human_print (st_mem st)"
| "call_print Mem_free_print mc st = mem_free_print (st_mem st)"
| "call_print Mem_ratio_print mc st = mem_ratio_print (st_mem st)"
| "call_print Mem_total_human_print mc st = mem_total_human_print (st_mem st)"
| "call_print Mem_total_print mc st = mem_total_print (st_mem st)"
| "call_print Fs_total_human_print mc st = fs_total_human_print (st_fs st)"
| "call_print Fs_total_print mc st = fs_total_print (st_fs st)"
| "call_print Fs_ratio_print mc st = fs_ratio_print (st_fs st)"
| "call_print Fs_free_human_print mc st = fs_free_human_print (st_fs st)"
| "call_print Fs_free_print mc st = fs_free_print (st_fs st)"
| "call_print Fs_used_human_print mc st = fs_used_human_print (st_fs st)"
| "call_print Fs_used_print mc st = fs_used_print (st_fs st)"
| "call_print Ntcp6_established_print mc st = (\<lambda>fd m s l. ntcp6_established_print (st_tcp st) fd)"
| "call_print Ntcp6_listen_print mc st = (\<lambda>fd m s l. ntcp6_listen_print (st_tcp st) fd)"
| "call_print Ntcp6_closing_print mc st = (\<lambda>fd m s l. ntcp6_closing_print (st_tcp st) fd)"
| "call_print Ntcp6_all_print mc st = (\<lambda>fd m s l. ntcp6_all_print (st_tcp st) fd)"
| "call_print Ntcp4_established_print mc st = (\<lambda>fd m s l. ntcp4_established_print (st_tcp st) fd)"
| "call_print Ntcp4_listen_print mc st = (\<lambda>fd m s l. ntcp4_listen_print (st_tcp st) fd)"
| "call_print Ntcp4_closing_print mc st = (\<lambda>fd m s l. ntcp4_closing_print (st_tcp st) fd)"
| "call_print Ntcp4_all_print mc st = (\<lambda>fd m s l. ntcp4_all_print (st_tcp st) fd)"
| "call_print Ntcp_print mc st = (\<lambda>fd m s l. ntcp_print (st_tcp st) fd)"
| "call_print Ntcp_established_print mc st = (\<lambda>fd m s l. ntcp_established_print (st_tcp st) fd)"
| "call_print Ntcp_listen_print mc st = (\<lambda>fd m s l. ntcp_listen_print (st_tcp st) fd)"
| "call_print Ntcp_closing_print mc st = (\<lambda>fd m s l. ntcp_closing_print (st_tcp st) fd)"
| "call_print Ntcp_all_print mc st = (\<lambda>fd m s l. ntcp_all_print (st_tcp st) fd)"
| "call_print Color_off mc st = color_off"
| "call_print Color8_fg_normal_print mc st = color8_fg_normal_print"
| "call_print Color8_fg_bright_print mc st = color8_fg_bright_print"
| "call_print Color8_bg_normal_print mc st = color8_bg_normal_print"
| "call_print Color8_bg_bright_print mc st = color8_bg_bright_print"
| "call_print Xterm256_fg_print mc st = xterm256_fg_print"
| "call_print Xterm256_bg_print mc st = xterm256_bg_print"
| "call_print Rgb_fg_print mc st = rgb_fg_print"
| "call_print Rgb_bg_print mc st = rgb_bg_print"

section \<open>The table\<close>

definition modules :: "ustat_module list" where
  "modules = [
     entry '''' '''' No_init Pass_print,
     entry ''%'' ''pass through'' No_init Pass_print,
     entry ''nl'' ''newline'' No_init Nl_print,
     entry ''load'' ''system load'' Load_init Load_print,
     entry ''ut+h'' ''uptime, human'' Uptime_init Uptime_print_human,
     entry ''ut'' ''uptime'' Uptime_init Uptime_print,
     entry ''date'' ''date, strftime'' No_init Date_print,
     entry ''uid'' ''render user id'' No_init Uid_print,
     entry ''user'' ''render user name'' No_init User_print,
     entry ''nusers'' ''number of active users'' Nusers_init Nusers_print,
     entry ''nproc'' ''number of processes'' No_init Nproc_print,
     entry ''ncpus'' ''number of cpus'' No_init Ncpus_print,
     entry ''bat%'' ''battery level'' Bat_init Bat_level_print,
     entry ''bat+h'' ''battery charging, human'' Bat_init Bat_charging_human_print,
     entry ''bat+'' ''battery charging'' Bat_init Bat_charging_print,
     entry ''memfh'' ''memory free, human'' Mem_init Mem_free_human_print,
     entry ''memf'' ''memory free'' Mem_init Mem_free_print,
     entry ''memr'' ''memory free, ratio'' Mem_init Mem_ratio_print,
     entry ''memh'' ''memory total, human'' Mem_init Mem_total_human_print,
     entry ''mem'' ''memory total'' Mem_init Mem_total_print,
     entry ''fsth'' ''filesystem total, human'' Fs_init Fs_total_human_print,
     entry ''fst'' ''filesystem total'' Fs_init Fs_total_print,
     entry ''fsr'' ''filesystem ratio'' Fs_init Fs_ratio_print,
     entry ''fsfh'' ''filesystem free, human'' Fs_init Fs_free_human_print,
     entry ''fsf'' ''filesystem free'' Fs_init Fs_free_print,
     entry ''fsuh'' ''filesystem used, human'' Fs_init Fs_used_human_print,
     entry ''fsu'' ''filesystem used'' Fs_init Fs_used_print,
     entry ''tcp6.e'' ''tcp6 established'' Tcp_init Ntcp6_established_print,
     entry ''tcp6.l'' ''tcp6 listening'' Tcp_init Ntcp6_listen_print,
     entry ''tcp6.c'' ''tcp6 closing'' Tcp_init Ntcp6_closing_print,
     entry ''tcp6'' ''tcp6 total'' Tcp_init Ntcp6_all_print,
     entry ''tcp4.e'' ''tcp4 established'' Tcp_init Ntcp4_established_print,
     entry ''tcp4.l'' ''tcp4 listening'' Tcp_init Ntcp4_listen_print,
     entry ''tcp4.c'' ''tcp4 closing'' Tcp_init Ntcp4_closing_print,
     entry ''tcp4'' ''tcp4 total'' Tcp_init Ntcp4_all_print,
     entry ''tcpdump'' ''tcpdump'' Tcp_init Ntcp_print,
     entry ''tcp.e'' ''tcp established'' Tcp_init Ntcp_established_print,
     entry ''tcp.l'' ''tcp listening'' Tcp_init Ntcp_listen_print,
     entry ''tcp.c'' ''tcp closing'' Tcp_init Ntcp_closing_print,
     entry ''tcp'' ''tcp total'' Tcp_init Ntcp_all_print,
     entry ''coff'' ''color off'' No_init Color_off,
     entry ''8#'' ''fg-color, normal'' No_init Color8_fg_normal_print,
     entry ''8*'' ''fg-color, bright'' No_init Color8_fg_bright_print,
     entry ''B#'' ''bg-color, normal'' No_init Color8_bg_normal_print,
     entry ''B*'' ''bg-color, bright'' No_init Color8_bg_bright_print,
     entry ''256#'' ''fg-color, 256colors'' No_init Xterm256_fg_print,
     entry ''256*'' ''bg-color, 256colors'' No_init Xterm256_bg_print,
     entry ''rgb#'' ''fg-color, rgb'' No_init Rgb_fg_print,
     entry ''rgb*'' ''bg-color, rgb'' No_init Rgb_bg_print]"

definition nmodules :: nat where
  "nmodules = length modules"

section \<open>main\<close>

text \<open>\<open>for (j = 1; j < nmodules; j++) if (str_start(argv[i], modules[j].name)) break;\<close>\<close>

function find_module :: "cstr \<Rightarrow> ustat_module list \<Rightarrow> nat \<Rightarrow> nat option" where
  "find_module arg mods j = (if j < length mods then do {
     r \<leftarrow> str_start arg (mod_name (mods ! j));
     if r \<noteq> 0 then Some j else find_module arg mods (j + 1) }
     else Some j)"
  by pat_completeness auto
termination
  by (relation "measure (\<lambda>(arg, mods, j). length mods - j)") auto

declare find_module.simps [simp del]

definition error_cant_init_module :: cstr where
  "error_cant_init_module = cstring (LF # ''error init module '' @ [CHR 0x22])"

text \<open>
  One round of the first loop: the index of the module for the argument, or the exit code. The
  function \<open>call\<close> stands for the call through the pointer \<open>init\<close>.
\<close>

type_synonym 'mc caller = "init_fn \<Rightarrow> 'mc \<Rightarrow> statics \<Rightarrow> ustat_module \<Rightarrow> inited"

definition init_arg ::
  "'mc caller \<Rightarrow> 'mc \<Rightarrow> cstr \<Rightarrow> ustat_module list \<Rightarrow> statics \<Rightarrow>
     (out \<times> (int + ustat_module list \<times> statics \<times> nat)) option" where
  "init_arg call mc arg mods st = do {
     j \<leftarrow> find_module arg mods 1;
     if j < length mods \<and> \<not> mod_ready (mods ! j) then do {
       l \<leftarrow> str_len arg;
       (ws, r) \<leftarrow> call (mod_init (mods ! j)) mc st (mods ! j);
       (case r of
          Inl code \<Rightarrow> Some (ws, Inl code)
        | Inr (rc, st, m) \<Rightarrow>
            if rc = 0 then do {
              n \<leftarrow> str_len (mod_name m);
              (ex, code) \<leftarrow> os_exit 1 (Some (cstring [CHR 0x22]));
              Some (ws @ [(STDERR_FILENO, error_cant_init_module), (STDERR_FILENO, take n (mod_name m))] @ ex,
                Inl code) }
            else Some (ws, Inr (mods[j := m], st, j mod length mods))) }
     else Some ([], Inr (mods, st, j mod length mods)) }"

text \<open>
  The first loop. The system may answer differently at every argument: \<open>mach i\<close> holds its answers
  during round \<open>i\<close>.
\<close>

fun init_args ::
  "'mc caller \<Rightarrow> (nat \<Rightarrow> 'mc) \<Rightarrow> nat \<Rightarrow> cstr list \<Rightarrow> ustat_module list \<Rightarrow> statics \<Rightarrow>
     (out \<times> (int + ustat_module list \<times> statics \<times> nat list)) option" where
  "init_args call mach i [] mods st = Some ([], Inr (mods, st, []))"
| "init_args call mach i (arg # args) mods st = do {
     (ws, r) \<leftarrow> init_arg call (mach i) arg mods st;
     (case r of
        Inl code \<Rightarrow> Some (ws, Inl code)
      | Inr (mods, st, j) \<Rightarrow> do {
          (ws', r') \<leftarrow> init_args call mach (i + 1) args mods st;
          Some (ws @ ws', map_sum (\<lambda>c. c) (\<lambda>(mods, st, js). (mods, st, j # js)) r') }) }"

text \<open>
  The second loop: the results of the calls are ignored. The function \<open>call\<close> stands for the call
  through the pointer \<open>print\<close>.
\<close>

type_synonym 'mc printer =
  "print_fn \<Rightarrow> 'mc \<Rightarrow> statics \<Rightarrow> nat \<Rightarrow> ustat_module \<Rightarrow> cstr \<Rightarrow> nat \<Rightarrow> printed"

fun print_args ::
  "'mc printer \<Rightarrow> (nat \<Rightarrow> 'mc) \<Rightarrow> nat \<Rightarrow> cstr list \<Rightarrow> nat list \<Rightarrow> ustat_module list \<Rightarrow> statics \<Rightarrow> out option" where
  "print_args call mach i (arg # args) (j # js) mods st = do {
     l \<leftarrow> str_len arg;
     (ws, _) \<leftarrow> call (mod_print (mods ! j)) (mach i) st STDOUT_FILENO (mods ! j) arg l;
     ws' \<leftarrow> print_args call mach (i + 1) args js mods st;
     Some (ws @ ws') }"
| "print_args call mach i _ _ mods st = Some []"

fun usage_lines :: "ustat_module list \<Rightarrow> out option" where
  "usage_lines [] = Some []"
| "usage_lines (m # ms) = do {
     n \<leftarrow> str_len (mod_name m);
     d \<leftarrow> str_len (mod_descr m);
     ws \<leftarrow> usage_lines ms;
     Some ([(STDOUT_FILENO, take n (mod_name m)), (STDOUT_FILENO, [TAB]),
       (STDOUT_FILENO, take d (mod_descr m)), (STDOUT_FILENO, [LF])] @ ws) }"

definition usage :: "(out \<times> int) option" where
  "usage = do { ws \<leftarrow> usage_lines (drop 1 modules); Some (ws, 0) }"

text \<open>
  The writes of the program and its exit code, for the arguments \<open>argv[1]\<close>, \<open>argv[2]\<close>, \dots\ and
  the answers of the system during the rounds of the two loops.
\<close>

definition main_of ::
  "'mc caller \<Rightarrow> 'mc printer \<Rightarrow> (nat \<Rightarrow> 'mc) \<Rightarrow> (nat \<Rightarrow> 'mc) \<Rightarrow> cstr list \<Rightarrow> (out \<times> int) option" where
  "main_of ini prt mach mach' args = do {
     h \<leftarrow> (case args of
         [arg] \<Rightarrow> do { d \<leftarrow> str_diffn arg (cstring ''-h'') 2; Some (d = 0) }
       | _ \<Rightarrow> Some False);
     if h then usage else do {
     (ws, r) \<leftarrow> init_args ini mach 1 args modules statics_initial;
     (case r of
        Inl code \<Rightarrow> Some (ws, code)
      | Inr (mods, st, js) \<Rightarrow> do {
          ws' \<leftarrow> print_args prt mach' 1 args js mods st;
          Some (ws @ ws', 0) }) }}"

text \<open>The program in a build for Linux.\<close>

definition ustat_main ::
  "(nat \<Rightarrow> 'tm machine) \<Rightarrow> (nat \<Rightarrow> 'tm machine) \<Rightarrow> cstr list \<Rightarrow> (out \<times> int) option" where
  "ustat_main mach mach' args = main_of call_init call_print mach mach' args"

section \<open>Looking up a module\<close>

text \<open>
  Tables of names in which no name is a prefix of a later one: there the first name that is a
  prefix of a text is the longest one.
\<close>

locale prefix_table =
  fixes names :: "string list"
  assumes ordered: "i < j \<Longrightarrow> j < length names \<Longrightarrow> \<not> prefix (names ! i) (names ! j)"
begin

lemma first_longest:
  assumes "k < length names" and "prefix (names ! k) s"
    and "\<And>i. i < k \<Longrightarrow> \<not> prefix (names ! i) s"
    and "j < length names" and "prefix (names ! j) s"
  shows "length (names ! j) \<le> length (names ! k)"
proof (cases "j = k")
  case False
  with assms(3,5) have "k < j" by (metis linorder_neqE_nat)
  with ordered assms(4) have "\<not> prefix (names ! k) (names ! j)" by blast
  with assms(2,5) have "prefix (names ! j) (names ! k)" by (metis prefix_same_cases)
  then show ?thesis by (rule prefix_length_le)
qed simp

lemma distinct_names: "distinct names"
  unfolding distinct_conv_nth using ordered by (metis linorder_neqE_nat prefix_order.order_refl)

end

definition name_of :: "ustat_module \<Rightarrow> string" where
  "name_of m = ctext (mod_name m)"

lemma name_of_entry [simp]: "is_text n \<Longrightarrow> name_of (entry n d i p) = n"
  by (simp add: name_of_def)

lemma name_of_ready [simp]: "name_of (m\<lparr>mod_ready := b\<rparr>) = name_of m"
  by (simp add: name_of_def)

interpretation table: prefix_table "map name_of (drop 1 modules)"
proof
  fix i j
  assume "i < j" and "j < length (map name_of (drop 1 modules))"
  moreover have "list_all (\<lambda>j. list_all (\<lambda>i. \<not> prefix (map name_of (drop 1 modules) ! i) (map name_of (drop 1 modules) ! j)) [0..<j])
      [0..<length (map name_of (drop 1 modules))]"
    by code_simp
  ultimately show "\<not> prefix (map name_of (drop 1 modules) ! i) (map name_of (drop 1 modules) ! j)"
    by (simp add: list_all_iff del: length_drop)
qed

text \<open>The part of a table that initialisation does not change.\<close>

definition fixed_part :: "ustat_module \<Rightarrow> ustat_module" where
  "fixed_part m = m\<lparr>mod_ready := False\<rparr>"

definition same_table :: "ustat_module list \<Rightarrow> ustat_module list \<Rightarrow> bool" where
  "same_table mods mods' \<longleftrightarrow> map fixed_part mods' = map fixed_part mods"

lemma same_table_refl [simp]: "same_table mods mods"
  by (simp add: same_table_def)

lemma same_table_trans: "same_table a b \<Longrightarrow> same_table b c \<Longrightarrow> same_table a c"
  by (simp add: same_table_def)

lemma same_table_length: "same_table mods mods' \<Longrightarrow> length mods' = length mods"
  unfolding same_table_def by (rule map_eq_imp_length_eq)

lemma fixed_part_simps [simp]:
  "mod_name (fixed_part m) = mod_name m" "mod_descr (fixed_part m) = mod_descr m"
  "mod_init (fixed_part m) = mod_init m" "mod_print (fixed_part m) = mod_print m"
  by (simp_all add: fixed_part_def)

lemma same_table_nth:
  assumes "same_table mods mods'" and "j < length mods"
  shows "fixed_part (mods' ! j) = fixed_part (mods ! j)"
proof -
  have "map fixed_part mods' ! j = map fixed_part mods ! j"
    using assms(1) by (simp only: same_table_def)
  then show ?thesis using assms same_table_length [OF assms(1)] by simp
qed

lemma same_table_fields:
  assumes "same_table mods mods'" and "j < length mods"
  shows "mod_name (mods' ! j) = mod_name (mods ! j)" and "mod_init (mods' ! j) = mod_init (mods ! j)"
    and "mod_print (mods' ! j) = mod_print (mods ! j)"
  using arg_cong [OF same_table_nth [OF assms], of mod_name] arg_cong [OF same_table_nth [OF assms], of mod_init]
    arg_cong [OF same_table_nth [OF assms], of mod_print] by simp_all

lemma same_table_update:
  assumes "j < length mods" and "fixed_part m = fixed_part (mods ! j)"
  shows "same_table mods (mods[j := m])"
  using assms(1) unfolding same_table_def map_update assms(2) by (simp add: map_update [symmetric])

definition names_ok :: "ustat_module list \<Rightarrow> bool" where
  "names_ok mods \<longleftrightarrow> list_all (\<lambda>m. terminated (mod_name m)) mods"

lemma names_ok_modules: "names_ok modules"
  by code_simp

lemma length_modules: "length modules = 49"
  by (simp add: modules_def)

lemma find_module_eq:
  assumes "terminated arg" and "names_ok mods" and "j \<le> length mods"
  shows "find_module arg mods j =
    Some (j + length (takeWhile (\<lambda>m. \<not> prefix (name_of m) (ctext arg)) (drop j mods)))"
  using assms(3)
proof (induction "length mods - j" arbitrary: j)
  case 0
  then show ?case by (subst find_module.simps) simp
next
  case (Suc n)
  then have j: "j < length mods" by simp
  then have "terminated (mod_name (mods ! j))" using assms(2) by (simp add: names_ok_def list_all_length)
  then have st: "str_start arg (mod_name (mods ! j)) = Some (if prefix (name_of (mods ! j)) (ctext arg) then 1 else 0)"
    using assms(1) by (simp add: str_start_eq name_of_def)
  have dr: "drop j mods = mods ! j # drop (Suc j) mods" using j by (simp add: Cons_nth_drop_Suc)
  have IH: "find_module arg mods (Suc j) =
      Some (Suc j + length (takeWhile (\<lambda>m. \<not> prefix (name_of m) (ctext arg)) (drop (Suc j) mods)))"
    using Suc.hyps j by simp
  show ?case
  proof (cases "prefix (name_of (mods ! j)) (ctext arg)")
    case True
    with j st show ?thesis by (subst find_module.simps) (simp add: dr)
  next
    case False
    with j st IH show ?thesis by (subst find_module.simps) (simp add: dr)
  qed
qed

text \<open>The index of the first name, from index 1, that the argument starts with.\<close>

definition selected :: "ustat_module list \<Rightarrow> string \<Rightarrow> nat" where
  "selected mods s = 1 + length (takeWhile (\<lambda>m. \<not> prefix (name_of m) s) (drop 1 mods))"

lemma selected_same: "same_table mods mods' \<Longrightarrow> selected mods' s = selected mods s"
proof -
  assume "same_table mods mods'"
  then have names: "map mod_name mods' = map mod_name mods"
    by (intro nth_equalityI) (simp_all add: same_table_length same_table_fields)
  have "map name_of xs = map ctext (map mod_name xs)" for xs by (simp add: name_of_def)
  then have n: "map name_of mods' = map name_of mods" by (simp only: names)
  have "length (takeWhile (\<lambda>m. \<not> prefix (name_of m) s) xs) =
      length (takeWhile (\<lambda>n. \<not> prefix n s) (map name_of xs))" for xs
    by (simp add: takeWhile_map comp_def)
  then show ?thesis using n by (simp add: selected_def drop_map [symmetric])
qed

lemma names_ok_same: "same_table mods mods' \<Longrightarrow> names_ok mods \<Longrightarrow> names_ok mods'"
  using same_table_length same_table_fields(1) by (fastforce simp: names_ok_def list_all_length)

lemma selected_le: "mods \<noteq> [] \<Longrightarrow> selected mods s \<le> length mods"
  using length_takeWhile_le [of _ "drop 1 mods"] by (cases mods) (auto simp: selected_def)

lemma find_module_selected:
  "terminated arg \<Longrightarrow> names_ok mods \<Longrightarrow> mods \<noteq> [] \<Longrightarrow> find_module arg mods 1 = Some (selected mods (ctext arg))"
  by (simp add: find_module_eq selected_def Suc_leI)

section \<open>The contract of the initialisers\<close>

lemma init_args_ConsE:
  assumes "init_args call mach i (arg # args) mods st = Some (ws, Inr (mods', st', js))"
  obtains w1 mods1 st1 k w2 js2 where
    "init_arg call (mach i) arg mods st = Some (w1, Inr (mods1, st1, k))"
    "init_args call mach (i + 1) args mods1 st1 = Some (w2, Inr (mods', st', js2))"
    "ws = w1 @ w2" "js = k # js2"
proof -
  from assms obtain w1 r where r: "init_arg call (mach i) arg mods st = Some (w1, r)" by auto
  with assms obtain mods1 st1 k where k: "r = Inr (mods1, st1, k)" by (cases r) auto
  with assms r obtain w2 r2 where r2: "init_args call mach (i + 1) args mods1 st1 = Some (w2, r2)" by auto
  show thesis
  proof (cases r2)
    case (Inl c)
    with assms r k r2 show thesis by simp
  next
    case (Inr x)
    obtain mods2 st2 js2 where "x = (mods2, st2, js2)" by (cases x)
    with assms r k r2 Inr have "ws = w1 @ w2" "js = k # js2" "mods2 = mods'" "st2 = st'" by auto
    with r k r2 Inr \<open>x = (mods2, st2, js2)\<close> show thesis by (intro that) simp_all
  qed
qed

lemma init_args_Cons_errorE:
  assumes "init_args call mach i (arg # args) mods st = Some (ws, Inl code)"
  obtains (now) "init_arg call (mach i) arg mods st = Some (ws, Inl code)"
  | (later) w1 mods1 st1 k w2 where "init_arg call (mach i) arg mods st = Some (w1, Inr (mods1, st1, k))"
      "init_args call mach (i + 1) args mods1 st1 = Some (w2, Inl code)" "ws = w1 @ w2"
proof -
  from assms obtain w1 r where r: "init_arg call (mach i) arg mods st = Some (w1, r)" by auto
  show thesis
  proof (cases r)
    case (Inl c)
    with assms r show thesis by (intro now) simp
  next
    case (Inr x)
    obtain mods1 st1 k where x: "x = (mods1, st1, k)" by (cases x)
    with assms r Inr obtain w2 r2 where r2: "init_args call mach (i + 1) args mods1 st1 = Some (w2, r2)" by auto
    with assms r Inr x have "r2 = Inl code" "ws = w1 @ w2" by (cases r2; auto)+
    with r r2 Inr x show thesis by (intro later) simp_all
  qed
qed

text \<open>
  What the first loop needs of a call through \<open>init\<close>: of the module it changes at most \<open>ready\<close>,
  it writes nothing to standard output, and it keeps an invariant of the static variables.
\<close>

locale initialiser =
  fixes call :: "'mc caller" and inv :: "statics \<Rightarrow> bool"
  assumes frame: "call f mc st m = Some (ws, Inr (rc, st', m')) \<Longrightarrow> m' = m \<or> m' = m\<lparr>mod_ready := True\<rparr>"
    and quiet: "call f mc st m = Some (ws, r) \<Longrightarrow> written 1 ws = []"
    and keeps: "inv st \<Longrightarrow> call f mc st m = Some (ws, Inr (rc, st', m')) \<Longrightarrow> inv st'"
begin

lemma fixed: "call f mc st m = Some (ws, Inr (rc, st', m')) \<Longrightarrow> fixed_part m' = fixed_part m"
  using frame by (fastforce simp: fixed_part_def)

lemma init_arg_frame:
  assumes "init_arg call mc arg mods st = Some (ws, Inr (mods', st', k))"
    and "terminated arg" and "names_ok mods" and "mods \<noteq> []"
  shows "same_table mods mods' \<and> written 1 ws = [] \<and> (inv st \<longrightarrow> inv st') \<and>
    k = selected mods (ctext arg) mod length mods"
proof -
  let ?j = "selected mods (ctext arg)"
  note j = find_module_selected [OF assms(2-4), unfolded One_nat_def]
  show ?thesis
  proof (cases "?j < length mods \<and> \<not> mod_ready (mods ! ?j)")
    case True
    with assms(1) obtain v r where r: "call (mod_init (mods ! ?j)) mc st (mods ! ?j) = Some (v, r)"
      by (auto simp: init_arg_def j)
    with True assms(1) obtain rc st2 m' where "r = Inr (rc, st2, m')"
      by (cases r) (auto simp: init_arg_def j)
    with True assms(1) r have
      c: "call (mod_init (mods ! ?j)) mc st (mods ! ?j) = Some (ws, Inr (rc, st2, m'))"
        "mods' = mods[?j := m']" "st' = st2" "k = ?j mod length mods"
      by (auto simp: init_arg_def j split: if_splits)
    with True fixed [OF c(1)] quiet [OF c(1)] keeps [OF _ c(1)] show ?thesis
      by (simp add: same_table_update)
  next
    case False
    with assms(1) show ?thesis by (auto simp: init_arg_def j)
  qed
qed

lemma init_arg_error:
  assumes "init_arg call mc arg mods st = Some (ws, Inl code)"
    and "terminated arg" and "names_ok mods" and "mods \<noteq> []"
  shows "written 1 ws = [] \<and> ((\<exists>f m. call f mc st m = Some (ws, Inl code)) \<or>
    code = 1 \<and> selected mods (ctext arg) < length mods \<and>
    (\<exists>p. written 2 ws = p @ error_cant_init_module @
      name_of (mods ! selected mods (ctext arg)) @ [CHR 0x22, LF]))"
proof -
  let ?j = "selected mods (ctext arg)"
  note j = find_module_selected [OF assms(2-4), unfolded One_nat_def]
  from assms(1) obtain v r where
    v: "?j < length mods" "call (mod_init (mods ! ?j)) mc st (mods ! ?j) = Some (v, r)"
    by (auto simp: init_arg_def j split: if_splits)
  show ?thesis
  proof (cases r)
    case (Inl c)
    with assms(1) v have "ws = v" "code = c" by (auto simp: init_arg_def j split: if_splits)
    with v(2) Inl quiet [OF v(2)] show ?thesis by blast
  next
    case (Inr x)
    obtain rc st' m' where x: "x = (rc, st', m')" by (cases x)
    with assms(1) v Inr obtain n ex where c: "str_len (mod_name m') = Some n"
      "os_exit 1 (Some (cstring [CHR 0x22])) = Some (ex, code)"
      "ws = v @ [(STDERR_FILENO, error_cant_init_module), (STDERR_FILENO, take n (mod_name m'))] @ ex"
      by (auto simp: init_arg_def j split: if_splits)
    from c(2) have ex: "ex = [(2, [CHR 0x22]), (2, [LF])]" "code = 1"
      by (auto simp: os_exit_def) (simp_all add: cstring_def)
    have nm: "mod_name m' = mod_name (mods ! ?j)"
      using arg_cong [OF fixed [OF v(2) [unfolded Inr x]], of mod_name] by simp
    then have "take n (mod_name m') = name_of (mods ! ?j)"
      using c(1) by (auto simp: str_len_eq name_of_def ctext_take split: if_splits)
    then show ?thesis using v(1) c(3) ex quiet [OF v(2)] by auto
  qed
qed

lemma init_args_frame:
  assumes "init_args call mach i args mods st = Some (ws, Inr (mods', st', js))"
    and "list_all terminated args" and "names_ok mods" and "mods \<noteq> []"
  shows "same_table mods mods' \<and> written 1 ws = [] \<and> (inv st \<longrightarrow> inv st') \<and>
    js = map (\<lambda>arg. selected mods (ctext arg) mod length mods) args"
  using assms
proof (induction args arbitrary: i mods st ws js)
  case Nil
  then show ?case by simp
next
  case (Cons arg args)
  from Cons.prems(1) obtain w1 mods1 st1 k w2 js2 where
    a: "init_arg call (mach i) arg mods st = Some (w1, Inr (mods1, st1, k))"
    and b: "init_args call mach (i + 1) args mods1 st1 = Some (w2, Inr (mods', st', js2))"
    and c: "ws = w1 @ w2" "js = k # js2"
    by (rule init_args_ConsE)
  from init_arg_frame [OF a] Cons.prems have f: "same_table mods mods1" "written 1 w1 = []" "inv st \<longrightarrow> inv st1"
    "k = selected mods (ctext arg) mod length mods" by simp_all
  have "same_table mods1 mods' \<and> written 1 w2 = [] \<and> (inv st1 \<longrightarrow> inv st') \<and>
      js2 = map (\<lambda>arg. selected mods1 (ctext arg) mod length mods1) args"
    using Cons.prems f(1) same_table_length [OF f(1)]
    by (intro Cons.IH [OF b]) (auto simp: names_ok_same)
  then show ?case
    using f c same_table_trans selected_same [OF f(1)] same_table_length [OF f(1)] by auto
qed

lemma init_args_error:
  assumes "init_args call mach i args mods st = Some (ws, Inl code)"
    and "list_all terminated args" and "names_ok mods" and "mods \<noteq> []"
  shows "written 1 ws = [] \<and> ((\<exists>f mc st m w. call f mc st m = Some (w, Inl code)) \<or>
    code = 1 \<and> (\<exists>arg \<in> set args. selected mods (ctext arg) < length mods \<and>
    (\<exists>p. written 2 ws = p @ error_cant_init_module @
      name_of (mods ! selected mods (ctext arg)) @ [CHR 0x22, LF])))"
  using assms
proof (induction args arbitrary: i mods st ws)
  case Nil
  then show ?case by simp
next
  case (Cons arg args)
  from Cons.prems(1) consider
    (now) "init_arg call (mach i) arg mods st = Some (ws, Inl code)"
  | (later) w1 mods1 st1 k w2 where "init_arg call (mach i) arg mods st = Some (w1, Inr (mods1, st1, k))"
      "init_args call mach (i + 1) args mods1 st1 = Some (w2, Inl code)" "ws = w1 @ w2"
    by (rule init_args_Cons_errorE)
  then show ?case
  proof cases
    case now
    from init_arg_error [OF this] Cons.prems show ?thesis by fastforce
  next
    case later
    from init_arg_frame [OF later(1)] Cons.prems have f: "same_table mods mods1" "written 1 w1 = []" by simp_all
    have "written 1 w2 = [] \<and> ((\<exists>f mc st m w. call f mc st m = Some (w, Inl code)) \<or>
      code = 1 \<and> (\<exists>arg \<in> set args. selected mods1 (ctext arg) < length mods1 \<and>
      (\<exists>p. written 2 w2 = p @ error_cant_init_module @
        name_of (mods1 ! selected mods1 (ctext arg)) @ [CHR 0x22, LF])))"
      using Cons.prems f(1) same_table_length [OF f(1)]
      by (intro Cons.IH [OF later(2)]) (auto simp: names_ok_same)
    then show ?thesis
      using f later(3) selected_same [OF f(1)] same_table_length [OF f(1)] same_table_fields(1) [OF f(1)]
      by (auto simp: name_of_def)
  qed
qed

end

text \<open>Where no initialiser ends the program itself, the only error is that of \<open>main\<close>.\<close>

locale returning_initialiser = initialiser +
  assumes returns: "call f mc st m \<noteq> Some (ws, Inl code)"
begin

lemma init_args_failure:
  assumes "init_args call mach i args mods st = Some (ws, Inl code)"
    and "list_all terminated args" and "names_ok mods" and "mods \<noteq> []"
  shows "code = 1 \<and> written 1 ws = [] \<and> (\<exists>arg \<in> set args. selected mods (ctext arg) < length mods \<and>
    (\<exists>p. written 2 ws = p @ error_cant_init_module @
      name_of (mods ! selected mods (ctext arg)) @ [CHR 0x22, LF]))"
  using init_args_error [OF assms] by (auto simp: returns)

end

section \<open>The invariant of the static variables\<close>

text \<open>
  The shapes that the print functions rely on: three load averages, a flag for the battery, no
  empty table of file systems, and twelve counters in each table of sockets.
\<close>

definition statics_ok :: "statics \<Rightarrow> bool" where
  "statics_ok st \<longleftrightarrow> length (st_load st) = 3 \<and> unat (bat_is_charging (st_battery st)) < 2 \<and>
     st_fs st \<noteq> Some [] \<and> length (tcp_counters (st_tcp st)) = n_tcp_states \<and>
     length (tcp4_counters (st_tcp st)) = n_tcp_states \<and>
     length (tcp6_counters (st_tcp st)) = n_tcp_states"

lemma statics_initial_ok: "statics_ok statics_initial"
  by (simp add: statics_ok_def statics_initial_def load_initial_def battery_initial_def tcp_initial_def)

lemma call_init_frame:
  assumes "call_init f mc st m = Some (ws, Inr (rc, st', m'))"
  shows "m' = m \<or> m' = m\<lparr>mod_ready := True\<rparr>"
proof (cases f)
  case No_init
  with assms show ?thesis by (auto simp: no_init_def)
next
  case Load_init
  with assms show ?thesis by (auto simp: load_init_def split: prod.splits)
next
  case Uptime_init
  with assms show ?thesis by (auto simp: uptime_init_def)
next
  case Nusers_init
  with assms show ?thesis by (auto simp: nusers_init_def Let_def split: if_splits)
next
  case Bat_init
  with assms show ?thesis by (auto simp: bat_init_def split: if_splits)
next
  case Mem_init
  with assms show ?thesis by (auto simp: mem_init_def split: prod.splits if_splits)
next
  case Fs_init
  with assms show ?thesis by (auto simp: fs_init_def split: if_splits)
next
  case Tcp_init
  with assms show ?thesis by (auto simp: tcp_init_def split: if_splits)
qed

lemma call_init_quiet:
  assumes "call_init f mc st m = Some (ws, r)"
  shows "written 1 ws = []"
proof (cases f)
  case No_init
  with assms show ?thesis by (auto simp: no_init_def)
next
  case Fs_init
  with assms show ?thesis by (auto simp: fs_init_def written_def split: if_splits)
qed (use assms in \<open>auto split: prod.splits\<close>)

text \<open>The initialisers that the three averages and the flag of the battery come from.\<close>

lemma load_init_length:
  "length load = 3 \<Longrightarrow> load_init (get_loadavg si) load m = (rc, load', m') \<Longrightarrow> length load' = 3"
  by (auto simp: load_init_def get_loadavg_def Let_def split: option.splits prod.splits)

lemma get_battery_info_flag:
  assumes "get_battery_info status capacity bi = Some (rc, bi')" and "unat (bat_is_charging bi) < 2"
  shows "unat (bat_is_charging bi') < 2"
  using assms by (auto simp: get_battery_info_def Let_def split: option.splits if_splits)

lemma bat_init_flag:
  assumes "bat_init (get_battery_info status capacity) bi m = Some (rc, bi', m')"
    and "unat (bat_is_charging bi) < 2"
  shows "unat (bat_is_charging bi') < 2"
  using assms by (auto simp: bat_init_def dest: get_battery_info_flag split: if_splits)

lemma call_init_keeps:
  assumes "statics_ok st" and "call_init f mc st m = Some (ws, Inr (rc, st', m'))"
  shows "statics_ok st'"
proof (cases f)
  case No_init
  with assms show ?thesis by (auto simp: no_init_def)
next
  case Load_init
  with assms show ?thesis by (auto simp: statics_ok_def dest: load_init_length split: prod.splits)
next
  case Uptime_init
  with assms show ?thesis by (auto simp: statics_ok_def)
next
  case Nusers_init
  with assms show ?thesis by (auto simp: statics_ok_def)
next
  case Bat_init
  with assms show ?thesis by (auto simp: statics_ok_def dest: bat_init_flag)
next
  case Mem_init
  with assms show ?thesis by (auto simp: statics_ok_def split: prod.splits)
next
  case Fs_init
  with assms show ?thesis
    by (auto simp: statics_ok_def fs_init_def dest: fs_init_platform_nonempty split: if_splits)
next
  case Tcp_init
  with assms(2) obtain tcp' where t: "tcp_init (mc_tcp4 mc) (mc_tcp6 mc) (st_tcp st) m = Some (rc, tcp', m')"
    "st' = st\<lparr>st_tcp := tcp'\<rparr>" by auto
  with tcp_init_length [OF t(1)] assms(1) show ?thesis by (simp add: statics_ok_def)
qed

lemma call_init_returns: "call_init f mc st m \<noteq> Some (ws, Inl code)"
  by (cases f) (auto simp: no_init_def split: prod.splits)

interpretation ustat: returning_initialiser call_init statics_ok
  by unfold_locales (rule call_init_frame call_init_quiet call_init_keeps call_init_returns; assumption?)+

end
