(* ===== verification/Runs.thy ===== *)
theory Runs
  imports Ustat
begin

text \<open>
  Runs of \<open>main\<close> in any build: what the second loop writes, arguments that are text, and two modules
  that share what the first of them has read. The locale \<open>build\<close> holds what these runs need of the
  two dispatchers.
\<close>

section \<open>The module for an argument\<close>

text \<open>The module that \<open>main\<close> takes for an argument.\<close>

definition chosen :: "cstr \<Rightarrow> ustat_module" where
  "chosen arg = modules ! (selected modules (ctext arg) mod nmodules)"

section \<open>The second loop\<close>

lemma written_concat: "written fd (concat outs) = concat (map (written fd) outs)"
  by (induction outs) simp_all

lemma print_args_outputs:
  assumes "print_args prt mach i args js mods st = Some ws" and "length js = length args"
    and "list_all terminated args"
  shows "\<exists>outs. length outs = length args \<and> ws = concat outs \<and> (\<forall>n < length args. \<exists>r.
    prt (mod_print (mods ! (js ! n))) (mach (i + n)) st STDOUT_FILENO (mods ! (js ! n)) (args ! n)
      (length (ctext (args ! n))) = Some (outs ! n, r))"
  using assms
proof (induction args arbitrary: i js ws)
  case Nil
  then show ?case by simp
next
  case (Cons arg args)
  then obtain j js' where js: "js = j # js'" by (cases js) auto
  with Cons.prems obtain w r ws' where
    c: "prt (mod_print (mods ! j)) (mach i) st 1 (mods ! j) arg (length (ctext arg)) = Some (w, r)"
      "print_args prt mach (i + 1) args js' mods st = Some ws'" "ws = w @ ws'"
    by (auto simp: str_len_eq)
  from Cons.IH [OF c(2)] Cons.prems(2,3) js obtain outs where o: "length outs = length args" "ws' = concat outs"
    "\<forall>n < length args. \<exists>r. prt (mod_print (mods ! (js' ! n))) (mach (Suc i + n)) st 1 (mods ! (js' ! n))
      (args ! n) (length (ctext (args ! n))) = Some (outs ! n, r)" by auto
  show ?case
  proof (intro exI [of _ "w # outs"] conjI allI impI)
    fix n assume n: "n < length (arg # args)"
    show "\<exists>r. prt (mod_print (mods ! (js ! n))) (mach (i + n)) st 1 (mods ! (js ! n)) ((arg # args) ! n)
        (length (ctext ((arg # args) ! n))) = Some ((w # outs) ! n, r)"
      using n c(1) o(3) js by (cases n) auto
  qed (simp_all add: o c(3))
qed

section \<open>Runs that do not ask for help\<close>

lemma help_diffn:
  "terminated arg \<Longrightarrow> prefix ''-h'' (ctext arg) \<Longrightarrow> str_diffn arg (cstring ''-h'') 2 = Some 0"
  using str_diffn_zero [of arg "cstring ''-h''" 2] by (auto simp: prefix_def)

text \<open>A run without \<open>-h\<close> as its only argument.\<close>

definition no_help :: "cstr list \<Rightarrow> bool" where
  "no_help args \<longleftrightarrow> (case args of [arg] \<Rightarrow> \<not> prefix ''-h'' (ctext arg) | _ \<Rightarrow> True)"

lemma main_of_no_help:
  assumes "no_help args" and "list_all terminated args"
  shows "main_of ini prt mach mach' args = do {
    (ws, r) \<leftarrow> init_args ini mach 1 args modules statics_initial;
    (case r of
       Inl code \<Rightarrow> Some (ws, code)
     | Inr (mods, st, js) \<Rightarrow> do {
         ws' \<leftarrow> print_args prt mach' 1 args js mods st;
         Some (ws @ ws', 0) }) }"
proof (cases args rule: list.exhaust [case_names Nil Cons])
  case (Cons arg rest)
  show ?thesis
  proof (cases rest)
    case Nil
    with Cons assms obtain d where "str_diffn arg (cstring ''-h'') 2 = Some d" "d \<noteq> 0"
      using str_diffn_zero [of arg "cstring ''-h''" 2] take_is_prefix [of 2 "ctext arg"] by (auto simp: no_help_def)
    then show ?thesis unfolding Cons Nil main_of_def by (simp del: One_nat_def)
  next
    case (Cons a list)
    then have "args = arg # a # list" using \<open>args = arg # rest\<close> by simp
    show ?thesis unfolding \<open>args = arg # a # list\<close> main_of_def by (simp del: One_nat_def init_args.simps)
  qed
qed (simp add: main_of_def)

lemma modules_ne [simp]: "modules \<noteq> []"
  using length_modules by auto

section \<open>Usage\<close>

definition usage_text :: string where
  "usage_text = concat (map (\<lambda>m. ctext (mod_name m) @ [TAB] @ ctext (mod_descr m) @ [LF]) (drop 1 modules))"

lemma usage_lines_written:
  "list_all (\<lambda>m. terminated (mod_name m) \<and> terminated (mod_descr m)) ms \<Longrightarrow>
    \<exists>ws. usage_lines ms = Some ws \<and> written 2 ws = [] \<and>
      written 1 ws = concat (map (\<lambda>m. ctext (mod_name m) @ [TAB] @ ctext (mod_descr m) @ [LF]) ms)"
  by (induction ms) (auto simp: str_len_eq ctext_take)

lemma usage_written: "\<exists>ws. usage = Some (ws, 0) \<and> written 1 ws = usage_text \<and> written 2 ws = []"
proof -
  have "list_all (\<lambda>m. terminated (mod_name m) \<and> terminated (mod_descr m)) (drop 1 modules)" by code_simp
  from usage_lines_written [OF this] show ?thesis by (auto simp: usage_def usage_text_def)
qed

section \<open>Arguments that are text\<close>

text \<open>The text that an argument stands for when no module but \<open>%\<close> is named by it.\<close>

definition literal :: "string \<Rightarrow> string option" where
  "literal s = (if prefix ''%'' s then Some (tl s)
     else if list_all (\<lambda>m. \<not> prefix (name_of m) s) (drop 1 modules) then Some s else None)"

lemma modules_0_1:
  "modules ! 0 = entry '''' '''' No_init Pass_print" "modules ! 1 = entry ''%'' ''pass through'' No_init Pass_print"
  by (simp_all add: modules_def)

lemma literal_selected:
  assumes "literal s = Some t"
  shows "\<exists>j \<in> {0, 1}. selected modules s mod nmodules = j \<and> t = drop j s \<and> j \<le> length s \<and>
    selected modules s \<in> {1, nmodules}"
proof (cases "prefix ''%'' s")
  case True
  have d: "drop 1 modules = modules ! 1 # drop 2 modules"
    using Cons_nth_drop_Suc [of 1 modules] length_modules by (simp add: numeral_2_eq_2)
  have "selected modules s = 1"
    unfolding selected_def d modules_0_1(2) using True by simp
  moreover have "t = drop 1 s" using True assms by (simp add: literal_def drop_Suc)
  moreover have "1 \<le> length s" using prefix_length_le [OF True] by simp
  ultimately show ?thesis using length_modules by (simp add: nmodules_def)
next
  case False
  with assms have a: "list_all (\<lambda>m. \<not> prefix (name_of m) s) (drop 1 modules)" "t = s"
    by (simp_all add: literal_def split: if_splits)
  then have t: "takeWhile (\<lambda>m. \<not> prefix (name_of m) s) (drop 1 modules) = drop 1 modules"
    by (simp only: takeWhile_eq_all_conv list_all_iff)
  have "selected modules s = nmodules" unfolding selected_def t nmodules_def using length_modules by simp
  with a(2) show ?thesis by simp
qed

lemma literal_slash: "literal ''/'' = Some ''/''"
  by code_simp

section \<open>Any build\<close>

text \<open>The functions that no platform replaces: the first module of the table prints its argument.\<close>

locale build =
  fixes ini :: "'mc caller" and prt :: "'mc printer"
  assumes ini_none: "ini No_init mc st m = no_init st m"
    and pass: "prt Pass_print mc st = pass_print"
begin

lemma pass_run:
  assumes "literal (ctext arg) = Some t" and "terminated arg" and "same_table modules mods"
    and "j = selected modules (ctext arg) mod nmodules"
  shows "prt (mod_print (mods ! j)) mc st fd (mods ! j) arg (length (ctext arg)) = Some ([(1, t)], 1)"
proof -
  from literal_selected [OF assms(1)] assms(4) have j: "j = 0 \<or> j = 1" "t = drop j (ctext arg)" "j \<le> length (ctext arg)"
    by auto
  have l: "j < length modules" using j(1) length_modules by auto
  have n: "mod_print (modules ! j) = Pass_print" "str_len (mod_name (modules ! j)) = Some j"
    using j(1) modules_0_1 by auto
  have "length (ctext arg) \<le> length arg" using ctext_take [OF assms(2)] by (metis length_take min.cobounded1)
  moreover have "take (length (ctext arg) - j) (drop j arg) = drop j (ctext arg)"
    using drop_take [of j "length (ctext arg)" arg] ctext_take [OF assms(2)] by simp
  ultimately show ?thesis
    using n same_table_fields [OF assms(3) l] j(2,3) by (simp add: pass pass_print_def)
qed

text \<open>The first loop calls only \<open>no_init\<close> for such arguments, and always succeeds.\<close>

lemma literal_init_arg:
  assumes "literal (ctext arg) = Some t" and "terminated arg" and "same_table modules mods"
  shows "\<exists>mods'. init_arg ini mc arg mods st = Some ([], Inr (mods', st, selected modules (ctext arg) mod nmodules)) \<and>
    same_table modules mods'"
proof -
  let ?j = "selected modules (ctext arg)"
  have len: "length mods = nmodules" "mods \<noteq> []"
    using same_table_length [OF assms(3)] length_modules by (auto simp: nmodules_def)
  have f: "find_module arg mods 1 = Some ?j"
    using find_module_selected [OF assms(2) names_ok_same [OF assms(3) names_ok_modules] len(2)]
      selected_same [OF assms(3)] by simp
  show ?thesis
  proof (cases "?j < length mods \<and> \<not> mod_ready (mods ! ?j)")
    case True
    then have "?j = 1" using literal_selected [OF assms(1)] len by auto
    then have "mod_init (mods ! ?j) = No_init"
      using same_table_fields(2) [OF assms(3), of 1] modules_0_1(2) length_modules by simp
    moreover have "same_table modules (mods[?j := (mods ! ?j)\<lparr>mod_ready := True\<rparr>])"
      by (rule same_table_trans [OF assms(3)], rule same_table_update) (use True in \<open>simp_all add: fixed_part_def\<close>)
    ultimately show ?thesis using True f len(1) assms(2) by (auto simp: init_arg_def ini_none no_init_def str_len_eq)
  next
    case False
    then show ?thesis using f len(1) assms(3) by (auto simp: init_arg_def)
  qed
qed

lemma literal_init_args:
  assumes "list_all (\<lambda>arg. terminated arg \<and> literal (ctext arg) \<noteq> None) args" and "same_table modules mods"
  shows "\<exists>mods'. init_args ini mach i args mods st =
      Some ([], Inr (mods', st, map (\<lambda>arg. selected modules (ctext arg) mod nmodules) args)) \<and>
    same_table modules mods'"
  using assms
proof (induction args arbitrary: i mods)
  case Nil
  then show ?case by simp
next
  case (Cons arg args)
  from Cons.prems obtain t where "literal (ctext arg) = Some t" "terminated arg" by auto
  from literal_init_arg [OF this Cons.prems(2), of "mach i" st] obtain mods1 where
    m: "init_arg ini (mach i) arg mods st = Some ([], Inr (mods1, st, selected modules (ctext arg) mod nmodules))"
      "same_table modules mods1" by auto
  from Cons.IH [OF _ m(2), of "i + 1"] Cons.prems(1) obtain mods2 where
    "init_args ini mach (i + 1) args mods1 st =
      Some ([], Inr (mods2, st, map (\<lambda>arg. selected modules (ctext arg) mod nmodules) args))"
    "same_table modules mods2" by auto
  with m show ?case by simp
qed

lemma literal_print_args:
  assumes "list_all (\<lambda>arg. terminated arg \<and> literal (ctext arg) \<noteq> None) args" and "same_table modules mods"
  shows "print_args prt mach i args (map (\<lambda>arg. selected modules (ctext arg) mod nmodules) args) mods st =
    Some (map (\<lambda>arg. (1, the (literal (ctext arg)))) args)"
  using assms(1)
proof (induction args arbitrary: i)
  case Nil
  then show ?case by simp
next
  case (Cons arg args)
  then obtain t where t: "literal (ctext arg) = Some t" "terminated arg" by auto
  show ?case using pass_run [OF t assms(2) refl, of "mach i" st STDOUT_FILENO] Cons t by (simp add: str_len_eq)
qed

lemma literal_run:
  assumes "list_all (\<lambda>arg. terminated arg \<and> literal (ctext arg) \<noteq> None) args" and "no_help args"
  shows "main_of ini prt mach mach' args = Some (map (\<lambda>arg. (1, the (literal (ctext arg)))) args, 0)"
proof -
  have "list_all terminated args" using assms(1) by (simp add: list_all_iff)
  with literal_init_args [OF assms(1) same_table_refl, of mach 1 statics_initial] literal_print_args [OF assms(1)]
  show ?thesis by (auto simp: main_of_no_help [OF assms(2)] simp del: One_nat_def)
qed

text \<open>
  Two modules of the sockets with a text between them. The second one finds the counters that the
  first one has read.
\<close>

lemma tcp_run:
  assumes first: "ini Tcp_init (mach 1) statics_initial (modules ! 27) =
      Some ([], Inr (1, st, (modules ! 27)\<lparr>mod_ready := True\<rparr>))"
    and again: "\<And>mc m. ini Tcp_init mc st m = Some ([], Inr (1, st, m\<lparr>mod_ready := True\<rparr>))"
    and p6: "\<And>mc m s l. prt Ntcp6_established_print mc st 1 m s l = Some (w6, 1)"
    and p: "\<And>mc m s l. prt Ntcp_all_print mc st 1 m s l = Some (w, 1)"
  shows "\<exists>mods. init_args ini mach 1 [cstring ''tcp6.e'', cstring ''/'', cstring ''tcp''] modules statics_initial =
      Some ([], Inr (mods, st, [27, 0, 39])) \<and>
    print_args prt mach' 1 [cstring ''tcp6.e'', cstring ''/'', cstring ''tcp''] [27, 0, 39] mods st =
      Some (w6 @ [(1, ''/'')] @ w)"
proof -
  let ?args = "[cstring ''tcp6.e'', cstring ''/'', cstring ''tcp'']"
  have sel: "selected modules ''tcp6.e'' = 27" "selected modules ''/'' = 49" "selected modules ''tcp'' = 39" by code_simp+
  have md: "modules ! 27 = entry ''tcp6.e'' ''tcp6 established'' Tcp_init Ntcp6_established_print"
    "modules ! 39 = entry ''tcp'' ''tcp total'' Tcp_init Ntcp_all_print" by (simp_all add: modules_def)
  define mods1 where "mods1 = modules[27 := (modules ! 27)\<lparr>mod_ready := True\<rparr>]"
  define mods2 where "mods2 = mods1[39 := (modules ! 39)\<lparr>mod_ready := True\<rparr>]"
  have m39: "mods1 ! 39 = modules ! 39" by (simp add: mods1_def)
  have same1: "same_table modules mods1"
    unfolding mods1_def by (rule same_table_update) (simp_all add: length_modules fixed_part_def)
  have "same_table mods1 mods2"
    unfolding mods2_def
    by (rule same_table_update) (simp_all add: m39 same_table_length [OF same1] length_modules fixed_part_def)
  note same = same1 same_table_trans [OF same1 this]
  have find: "find_module (cstring s) mods 1 = Some (selected modules s)" if "same_table modules mods" "is_text s" for mods s
  proof -
    have "mods \<noteq> []" using same_table_length [OF that(1)] length_modules by auto
    with find_module_selected [OF _ names_ok_same [OF that(1) names_ok_modules]] selected_same [OF that(1)] that(2)
    show ?thesis by simp
  qed
  have i1: "init_arg ini (mach 1) (cstring ''tcp6.e'') modules statics_initial = Some ([], Inr (mods1, st, 27))"
    using find [OF same_table_refl, of "''tcp6.e''"] first [unfolded md]
    by (simp add: init_arg_def sel md length_modules mods1_def)
  have i2: "init_arg ini mc (cstring ''/'') mods1 st = Some ([], Inr (mods1, st, 0))" for mc
    using find [OF same(1), of "''/''"] same_table_length [OF same(1)] by (simp add: init_arg_def sel length_modules)
  have i3: "init_arg ini mc (cstring ''tcp'') mods1 st = Some ([], Inr (mods2, st, 39))" for mc
    using find [OF same(1), of "''tcp''"] same_table_length [OF same(1)] m39 again
    by (simp add: init_arg_def sel md length_modules mods2_def)
  have pr: "mod_print (mods2 ! 27) = Ntcp6_established_print" "mod_print (mods2 ! 39) = Ntcp_all_print"
    using same_table_fields(3) [OF same(2)] md length_modules by simp_all
  have p0: "prt (mod_print (mods2 ! 0)) mc st 1 (mods2 ! 0) (cstring ''/'') 1 = Some ([(1, ''/'')], 1)" for mc
    using pass_run [OF _ _ same(2), of "cstring ''/''" "''/''" 0 mc st 1] sel(2)
    by (simp add: literal_slash nmodules_def length_modules)
  have "init_args ini mach 1 ?args modules statics_initial = Some ([], Inr (mods2, st, [27, 0, 39]))"
    by (simp add: i1 [unfolded One_nat_def] i2 i3)
  moreover have "print_args prt mach' 1 ?args [27, 0, 39] mods2 st = Some (w6 @ [(1, ''/'')] @ w)"
    using pr p6 p by (simp add: p0 [unfolded One_nat_def])
  ultimately show ?thesis by blast
qed

lemma tcp_main:
  assumes "ini Tcp_init (mach 1) statics_initial (modules ! 27) =
      Some ([], Inr (1, st, (modules ! 27)\<lparr>mod_ready := True\<rparr>))"
    and "\<And>mc m. ini Tcp_init mc st m = Some ([], Inr (1, st, m\<lparr>mod_ready := True\<rparr>))"
    and "\<And>mc m s l. prt Ntcp6_established_print mc st 1 m s l = Some (w6, 1)"
    and "\<And>mc m s l. prt Ntcp_all_print mc st 1 m s l = Some (w, 1)"
  shows "main_of ini prt mach mach' [cstring ''tcp6.e'', cstring ''/'', cstring ''tcp''] =
    Some (w6 @ [(1, ''/'')] @ w, 0)"
proof -
  have args: "no_help [cstring ''tcp6.e'', cstring ''/'', cstring ''tcp'']"
    "list_all terminated [cstring ''tcp6.e'', cstring ''/'', cstring ''tcp'']" by (simp_all add: no_help_def)
  from tcp_run [where mach = mach and mach' = mach', OF assms] show ?thesis
    by (auto simp: main_of_no_help [OF args] simp del: init_args.simps print_args.simps)
qed

end

interpretation linux: build call_init call_print
  by unfold_locales simp_all

section \<open>A machine\<close>

text \<open>
  A machine for the witnesses: one file system, two users and three sockets.
\<close>

definition example_machine :: "unit machine" where
  "example_machine = \<lparr>mc_sysinfo = Some sample_sysinfo, mc_uptime = Some [Bytes ''86461.07 1.23''],
     mc_utmpx = ([login ''ann'', login ''bob'', login ''ann''], [login ''ann'', login ''bob'', login ''ann'']),
     mc_qsort = insertion_sort, mc_heap = zero_heap,
     mc_bat_status = Some [Bytes ''Charging''], mc_bat_capacity = Some [Bytes ''97''],
     mc_mountinfo = Some ([Bytes (mline_text (mount_at ''/home''))], [Bytes (mline_text (mount_at ''/home''))]),
     mc_statvfs = stat_1000,
     mc_tcp4 = Some [Bytes (proc_text proc_head [listening_line, established_line])],
     mc_tcp6 = Some [Bytes (proc_text proc_head [established_line])],
     mc_time = (0, 0), mc_gmtime = (\<lambda>t. Some ()), mc_strftime = (\<lambda>n f t. []), mc_uid = 1000,
     mc_pw_name = Some (cstring ''ann''), mc_proc = Some [cstring ''.'', cstring ''1''], mc_ncpus = 4,
     mc_getenv = (\<lambda>k. None)\<rparr>"

end
