(* ===== verification/Steps.thy ===== *)
theory Steps
  imports Ustat
begin

text \<open>
  \<open>main\<close> as a state machine: one step for each iteration of a loop and for each call of \<open>init\<close> and
  \<open>print\<close>. A configuration without a successor that has not exited is undefined behaviour. The
  machine refines \<open>main_of\<close>, every run is bounded, and the invariants of the reachable
  configurations are proved by rule induction.
\<close>

section \<open>Configurations\<close>

text \<open>
  Where the control is: at the start, at the test of the outer loop, at the test of the inner loop,
  at the assignment to \<open>m[i]\<close>, at the test of the second loop, or behind the end of the program.
\<close>

datatype pc = Enter | Outer | Inner | Chosen | Printing | Exited int

text \<open>
  The variables of \<open>main\<close> (\<open>i\<close>, \<open>j\<close>, and of the array \<open>m\<close> the indices of the pointers that are
  set), the table, the static variables, and what has been written.
\<close>

record config =
  cf_pc :: pc
  cf_i :: nat
  cf_j :: nat
  cf_m :: "nat list"
  cf_mods :: "ustat_module list"
  cf_st :: statics
  cf_out :: out

definition main_start :: config where
  "main_start = \<lparr>cf_pc = Enter, cf_i = 0, cf_j = 0, cf_m = [], cf_mods = modules, cf_st = statics_initial,
     cf_out = []\<rparr>"

text \<open>\<open>argc == 2 && str_diffn(argv[1], "-h", 2) == 0\<close>\<close>

definition asks_help :: "cstr list \<Rightarrow> bool option" where
  "asks_help args = (case args of
     [arg] \<Rightarrow> do { d \<leftarrow> str_diffn arg (cstring ''-h'') 2; Some (d = 0) }
   | _ \<Rightarrow> Some False)"

text \<open>\<open>argv[i]\<close>\<close>

abbreviation arg_at :: "cstr list \<Rightarrow> nat \<Rightarrow> cstr" where
  "arg_at args i \<equiv> args ! (i - 1)"

section \<open>Steps\<close>

inductive main_step ::
  "'mc caller \<Rightarrow> 'mc printer \<Rightarrow> (nat \<Rightarrow> 'mc) \<Rightarrow> (nat \<Rightarrow> 'mc) \<Rightarrow> cstr list \<Rightarrow> config \<Rightarrow> config \<Rightarrow> bool"
  for ini prt mach mach' args where
  enter_help: "cf_pc c = Enter \<Longrightarrow> asks_help args = Some True \<Longrightarrow> usage = Some (ws, rc) \<Longrightarrow>
    main_step ini prt mach mach' args c (c\<lparr>cf_pc := Exited rc, cf_out := cf_out c @ ws\<rparr>)"
| enter_run: "cf_pc c = Enter \<Longrightarrow> asks_help args = Some False \<Longrightarrow>
    main_step ini prt mach mach' args c (c\<lparr>cf_pc := Outer, cf_i := 1\<rparr>)"
| outer_next: "cf_pc c = Outer \<Longrightarrow> cf_i c < length args + 1 \<Longrightarrow>
    main_step ini prt mach mach' args c (c\<lparr>cf_pc := Inner, cf_j := 1\<rparr>)"
| outer_end: "cf_pc c = Outer \<Longrightarrow> \<not> cf_i c < length args + 1 \<Longrightarrow>
    main_step ini prt mach mach' args c (c\<lparr>cf_pc := Printing, cf_i := 1\<rparr>)"
| inner_end: "cf_pc c = Inner \<Longrightarrow> \<not> cf_j c < length (cf_mods c) \<Longrightarrow>
    main_step ini prt mach mach' args c (c\<lparr>cf_pc := Chosen\<rparr>)"
| inner_next: "cf_pc c = Inner \<Longrightarrow> cf_j c < length (cf_mods c) \<Longrightarrow>
    str_start (arg_at args (cf_i c)) (mod_name (cf_mods c ! cf_j c)) = Some 0 \<Longrightarrow>
    main_step ini prt mach mach' args c (c\<lparr>cf_j := cf_j c + 1\<rparr>)"
| inner_ready: "cf_pc c = Inner \<Longrightarrow> cf_j c < length (cf_mods c) \<Longrightarrow>
    str_start (arg_at args (cf_i c)) (mod_name (cf_mods c ! cf_j c)) = Some r \<Longrightarrow> r \<noteq> 0 \<Longrightarrow>
    mod_ready (cf_mods c ! cf_j c) \<Longrightarrow>
    main_step ini prt mach mach' args c (c\<lparr>cf_pc := Chosen\<rparr>)"
| inner_init: "cf_pc c = Inner \<Longrightarrow> cf_j c < length (cf_mods c) \<Longrightarrow>
    str_start (arg_at args (cf_i c)) (mod_name (cf_mods c ! cf_j c)) = Some r \<Longrightarrow> r \<noteq> 0 \<Longrightarrow>
    \<not> mod_ready (cf_mods c ! cf_j c) \<Longrightarrow> str_len (arg_at args (cf_i c)) = Some l \<Longrightarrow>
    ini (mod_init (cf_mods c ! cf_j c)) (mach (cf_i c)) (cf_st c) (cf_mods c ! cf_j c) =
      Some (ws, Inr (rc, st, m)) \<Longrightarrow> rc \<noteq> 0 \<Longrightarrow>
    main_step ini prt mach mach' args c
      (c\<lparr>cf_pc := Chosen, cf_mods := (cf_mods c)[cf_j c := m], cf_st := st, cf_out := cf_out c @ ws\<rparr>)"
| inner_fail: "cf_pc c = Inner \<Longrightarrow> cf_j c < length (cf_mods c) \<Longrightarrow>
    str_start (arg_at args (cf_i c)) (mod_name (cf_mods c ! cf_j c)) = Some r \<Longrightarrow> r \<noteq> 0 \<Longrightarrow>
    \<not> mod_ready (cf_mods c ! cf_j c) \<Longrightarrow> str_len (arg_at args (cf_i c)) = Some l \<Longrightarrow>
    ini (mod_init (cf_mods c ! cf_j c)) (mach (cf_i c)) (cf_st c) (cf_mods c ! cf_j c) =
      Some (ws, Inr (rc, st, m)) \<Longrightarrow> rc = 0 \<Longrightarrow> str_len (mod_name m) = Some n \<Longrightarrow>
    os_exit 1 (Some (cstring [CHR 0x22])) = Some (ex, code) \<Longrightarrow>
    main_step ini prt mach mach' args c
      (c\<lparr>cf_pc := Exited code, cf_mods := (cf_mods c)[cf_j c := m], cf_st := st, cf_out := cf_out c @ ws @
        [(STDERR_FILENO, error_cant_init_module), (STDERR_FILENO, take n (mod_name m))] @ ex\<rparr>)"
| inner_exit: "cf_pc c = Inner \<Longrightarrow> cf_j c < length (cf_mods c) \<Longrightarrow>
    str_start (arg_at args (cf_i c)) (mod_name (cf_mods c ! cf_j c)) = Some r \<Longrightarrow> r \<noteq> 0 \<Longrightarrow>
    \<not> mod_ready (cf_mods c ! cf_j c) \<Longrightarrow> str_len (arg_at args (cf_i c)) = Some l \<Longrightarrow>
    ini (mod_init (cf_mods c ! cf_j c)) (mach (cf_i c)) (cf_st c) (cf_mods c ! cf_j c) =
      Some (ws, Inl code) \<Longrightarrow>
    main_step ini prt mach mach' args c (c\<lparr>cf_pc := Exited code, cf_out := cf_out c @ ws\<rparr>)"
| chosen: "cf_pc c = Chosen \<Longrightarrow>
    main_step ini prt mach mach' args c
      (c\<lparr>cf_pc := Outer, cf_i := cf_i c + 1, cf_m := cf_m c @ [cf_j c mod length (cf_mods c)]\<rparr>)"
| print_arg: "cf_pc c = Printing \<Longrightarrow> cf_i c < length args + 1 \<Longrightarrow> str_len (arg_at args (cf_i c)) = Some l \<Longrightarrow>
    k = cf_m c ! (cf_i c - 1) \<Longrightarrow>
    prt (mod_print (cf_mods c ! k)) (mach' (cf_i c)) (cf_st c) STDOUT_FILENO (cf_mods c ! k)
      (arg_at args (cf_i c)) l = Some (ws, rc) \<Longrightarrow>
    main_step ini prt mach mach' args c (c\<lparr>cf_i := cf_i c + 1, cf_out := cf_out c @ ws\<rparr>)"
| finish: "cf_pc c = Printing \<Longrightarrow> \<not> cf_i c < length args + 1 \<Longrightarrow>
    main_step ini prt mach mach' args c (c\<lparr>cf_pc := Exited 0\<rparr>)"

text \<open>The successors of a configuration can be computed.\<close>

code_pred (modes: i \<Rightarrow> i \<Rightarrow> i \<Rightarrow> i \<Rightarrow> i \<Rightarrow> i \<Rightarrow> o \<Rightarrow> bool) main_step .

inductive reachable ::
  "'mc caller \<Rightarrow> 'mc printer \<Rightarrow> (nat \<Rightarrow> 'mc) \<Rightarrow> (nat \<Rightarrow> 'mc) \<Rightarrow> cstr list \<Rightarrow> config \<Rightarrow> bool"
  for ini prt mach mach' args where
  start: "reachable ini prt mach mach' args main_start"
| step: "reachable ini prt mach mach' args c \<Longrightarrow> main_step ini prt mach mach' args c c' \<Longrightarrow>
    reachable ini prt mach mach' args c'"

lemma reachable_star:
  assumes "reachable ini prt mach mach' args c" and "(main_step ini prt mach mach' args)\<^sup>*\<^sup>* c c'"
  shows "reachable ini prt mach mach' args c'"
  using assms(2,1) by induction (auto intro: reachable.step)

section \<open>The steps as a function\<close>

text \<open>The rules decide the next configuration: they are the graph of a function that computes.\<close>

definition inner_config ::
  "'mc caller \<Rightarrow> (nat \<Rightarrow> 'mc) \<Rightarrow> cstr list \<Rightarrow> config \<Rightarrow> config option" where
  "inner_config ini mach args c = (let arg = arg_at args (cf_i c); j = cf_j c; md = cf_mods c ! j in
     if \<not> j < length (cf_mods c) then Some (c\<lparr>cf_pc := Chosen\<rparr>)
     else do {
       r \<leftarrow> str_start arg (mod_name md);
       if r = 0 then Some (c\<lparr>cf_j := j + 1\<rparr>)
       else if mod_ready md then Some (c\<lparr>cf_pc := Chosen\<rparr>)
       else do {
         l \<leftarrow> str_len arg;
         (ws, r) \<leftarrow> ini (mod_init md) (mach (cf_i c)) (cf_st c) md;
         (case r of
            Inl code \<Rightarrow> Some (c\<lparr>cf_pc := Exited code, cf_out := cf_out c @ ws\<rparr>)
          | Inr (rc, st, m) \<Rightarrow>
              if rc \<noteq> 0
              then Some (c\<lparr>cf_pc := Chosen, cf_mods := (cf_mods c)[j := m], cf_st := st, cf_out := cf_out c @ ws\<rparr>)
              else do {
                n \<leftarrow> str_len (mod_name m);
                (ex, code) \<leftarrow> os_exit 1 (Some (cstring [CHR 0x22]));
                Some (c\<lparr>cf_pc := Exited code, cf_mods := (cf_mods c)[j := m], cf_st := st, cf_out := cf_out c @ ws @
                  [(STDERR_FILENO, error_cant_init_module), (STDERR_FILENO, take n (mod_name m))] @ ex\<rparr>) }) }})"

definition print_config ::
  "'mc printer \<Rightarrow> (nat \<Rightarrow> 'mc) \<Rightarrow> cstr list \<Rightarrow> config \<Rightarrow> config option" where
  "print_config prt mach' args c = (let arg = arg_at args (cf_i c); k = cf_m c ! (cf_i c - 1) in
     if \<not> cf_i c < length args + 1 then Some (c\<lparr>cf_pc := Exited 0\<rparr>)
     else do {
       l \<leftarrow> str_len arg;
       (ws, _) \<leftarrow> prt (mod_print (cf_mods c ! k)) (mach' (cf_i c)) (cf_st c) STDOUT_FILENO (cf_mods c ! k) arg l;
       Some (c\<lparr>cf_i := cf_i c + 1, cf_out := cf_out c @ ws\<rparr>) })"

definition next_config ::
  "'mc caller \<Rightarrow> 'mc printer \<Rightarrow> (nat \<Rightarrow> 'mc) \<Rightarrow> (nat \<Rightarrow> 'mc) \<Rightarrow> cstr list \<Rightarrow> config \<Rightarrow> config option" where
  "next_config ini prt mach mach' args c = (case cf_pc c of
     Enter \<Rightarrow> do {
       h \<leftarrow> asks_help args;
       if h then do { (ws, rc) \<leftarrow> usage; Some (c\<lparr>cf_pc := Exited rc, cf_out := cf_out c @ ws\<rparr>) }
       else Some (c\<lparr>cf_pc := Outer, cf_i := 1\<rparr>) }
   | Outer \<Rightarrow> Some (if cf_i c < length args + 1 then c\<lparr>cf_pc := Inner, cf_j := 1\<rparr>
       else c\<lparr>cf_pc := Printing, cf_i := 1\<rparr>)
   | Inner \<Rightarrow> inner_config ini mach args c
   | Chosen \<Rightarrow> Some (c\<lparr>cf_pc := Outer, cf_i := cf_i c + 1, cf_m := cf_m c @ [cf_j c mod length (cf_mods c)]\<rparr>)
   | Printing \<Rightarrow> print_config prt mach' args c
   | Exited _ \<Rightarrow> None)"

lemma main_step_next: "main_step ini prt mach mach' args c c' \<Longrightarrow> next_config ini prt mach mach' args c = Some c'"
proof (induction rule: main_step.induct)
  case (enter_help c ws rc)
  then show ?case unfolding next_config_def enter_help(3) by simp
qed (simp_all add: next_config_def inner_config_def print_config_def Let_def del: bind_eq_Some One_nat_def)

lemma inner_config_step:
  assumes "cf_pc c = Inner" and "inner_config ini mach args c = Some c'"
  shows "main_step ini prt mach mach' args c c'"
proof (cases "cf_j c < length (cf_mods c)")
  case j: True
  let ?md = "cf_mods c ! cf_j c" and ?arg = "arg_at args (cf_i c)"
  from assms(2) j obtain r where r: "str_start ?arg (mod_name ?md) = Some r"
    by (auto simp: inner_config_def Let_def)
  consider "r = 0" | "r \<noteq> 0" "mod_ready ?md" | "r \<noteq> 0" "\<not> mod_ready ?md" by blast
  then show ?thesis
  proof cases
    case 1
    with assms(2) j r have "c' = c\<lparr>cf_j := cf_j c + 1\<rparr>" by (simp add: inner_config_def Let_def del: bind_eq_Some)
    with assms(1) j r 1 show ?thesis by (simp only: main_step.inner_next)
  next
    case 2
    with assms(2) j r have "c' = c\<lparr>cf_pc := Chosen\<rparr>" by (simp add: inner_config_def Let_def del: bind_eq_Some)
    with main_step.inner_ready [OF assms(1) j r 2] show ?thesis by simp
  next
    case 3
    with assms(2) j r obtain l ws x where l: "str_len ?arg = Some l"
      "ini (mod_init ?md) (mach (cf_i c)) (cf_st c) ?md = Some (ws, x)"
      by (auto simp: inner_config_def Let_def)
    note step = assms(1) j r 3 l
    show ?thesis
    proof (cases x)
      case (Inl code)
      with assms(2) step have "c' = c\<lparr>cf_pc := Exited code, cf_out := cf_out c @ ws\<rparr>"
        by (simp add: inner_config_def Let_def del: bind_eq_Some)
      with main_step.inner_exit [where ini = ini and mach = mach, OF step [unfolded Inl]] show ?thesis by simp
    next
      case (Inr y)
      obtain rc st m where y: "y = (rc, st, m)" by (cases y)
      show ?thesis
      proof (cases "rc = 0")
        case True
        with assms(2) step Inr y obtain n ex code where n: "str_len (mod_name m) = Some n"
          "os_exit 1 (Some (cstring [CHR 0x22])) = Some (ex, code)" "c' = c\<lparr>cf_pc := Exited code,
            cf_mods := (cf_mods c)[cf_j c := m], cf_st := st, cf_out := cf_out c @ ws @
            [(STDERR_FILENO, error_cant_init_module), (STDERR_FILENO, take n (mod_name m))] @ ex\<rparr>"
          by (auto simp: inner_config_def Let_def)
        from main_step.inner_fail [where ini = ini and mach = mach, OF step [unfolded Inr y] True n(1,2)] show ?thesis unfolding n(3) .
      next
        case False
        with assms(2) step Inr y have "c' = c\<lparr>cf_pc := Chosen, cf_mods := (cf_mods c)[cf_j c := m],
            cf_st := st, cf_out := cf_out c @ ws\<rparr>"
          by (simp add: inner_config_def Let_def del: bind_eq_Some)
        with main_step.inner_init [where ini = ini and mach = mach, OF step [unfolded Inr y] False] show ?thesis by simp
      qed
    qed
  qed
next
  case False
  with assms show ?thesis by (auto simp: inner_config_def Let_def intro: main_step.inner_end)
qed

lemma next_config_step:
  assumes "next_config ini prt mach mach' args c = Some c'"
  shows "main_step ini prt mach mach' args c c'"
proof (cases "cf_pc c")
  case Enter
  with assms obtain h where h: "asks_help args = Some h" by (auto simp: next_config_def)
  show ?thesis
  proof (cases h)
    case True
    with assms Enter h obtain ws rc where "usage = Some (ws, rc)"
      "c' = c\<lparr>cf_pc := Exited rc, cf_out := cf_out c @ ws\<rparr>" by (auto simp: next_config_def)
    with main_step.enter_help [OF Enter] h True show ?thesis by simp
  next
    case False
    with assms Enter h have "c' = c\<lparr>cf_pc := Outer, cf_i := 1\<rparr>"
      by (simp add: next_config_def del: bind_eq_Some)
    with main_step.enter_run [OF Enter] h False show ?thesis by simp
  qed
next
  case Outer
  with assms show ?thesis
    by (auto simp: next_config_def intro: main_step.outer_next [unfolded One_nat_def] main_step.outer_end [unfolded One_nat_def]
        split: if_splits)
next
  case Inner
  with assms show ?thesis by (intro inner_config_step) (simp_all add: next_config_def)
next
  case Chosen
  with assms main_step.chosen [OF Chosen] show ?thesis by (simp add: next_config_def)
next
  case Printing
  show ?thesis
  proof (cases "cf_i c < length args + 1")
    case True
    let ?md = "cf_mods c ! (cf_m c ! (cf_i c - 1))"
    from assms Printing True obtain l ws rc where
      "str_len (arg_at args (cf_i c)) = Some l"
      "prt (mod_print ?md) (mach' (cf_i c)) (cf_st c) STDOUT_FILENO ?md (arg_at args (cf_i c)) l = Some (ws, rc)"
      "c' = c\<lparr>cf_i := cf_i c + 1, cf_out := cf_out c @ ws\<rparr>"
      by (auto simp: next_config_def print_config_def Let_def)
    with main_step.print_arg [OF Printing True] show ?thesis by blast
  next
    case False
    with assms Printing show ?thesis
      by (auto simp: next_config_def print_config_def intro: main_step.finish)
  qed
next
  case (Exited code)
  with assms show ?thesis by (simp add: next_config_def)
qed

theorem main_step_iff:
  "main_step ini prt mach mach' args c c' \<longleftrightarrow> next_config ini prt mach mach' args c = Some c'"
  by (blast intro: main_step_next next_config_step)

corollary main_step_deterministic:
  "main_step ini prt mach mach' args c c1 \<Longrightarrow> main_step ini prt mach mach' args c c2 \<Longrightarrow> c1 = c2"
  by (simp add: main_step_iff)

lemma exited_final: "cf_pc c = Exited code \<Longrightarrow> \<not> main_step ini prt mach mach' args c c'"
  by (auto elim: main_step.cases)

section \<open>What is left to do\<close>

definition prepend :: "out \<Rightarrow> (out \<times> 'a) option \<Rightarrow> (out \<times> 'a) option" where
  "prepend ws r = map_option (map_prod ((@) ws) id) r"

lemma prepend_simps [simp]:
  "prepend ws None = None" "prepend ws (Some (ws', x)) = Some (ws @ ws', x)"
  by (simp_all add: prepend_def)

lemma prepend_Nil [simp]: "prepend [] r = r"
  by (cases r) (auto simp: prepend_def)

lemma prepend_append [simp]: "prepend ws (prepend ws' r) = prepend (ws @ ws') r"
  by (cases r) (auto simp: prepend_def)

lemma prepend_bind: "prepend ws (Option.bind r f) = Option.bind r (\<lambda>x. prepend ws (f x))"
  by (cases r) simp_all

text \<open>The second loop from index \<open>i\<close>, and the first loop from index \<open>i\<close> with the second one.\<close>

definition print_rest ::
  "'mc printer \<Rightarrow> (nat \<Rightarrow> 'mc) \<Rightarrow> cstr list \<Rightarrow> nat \<Rightarrow> nat list \<Rightarrow> ustat_module list \<Rightarrow> statics \<Rightarrow> (out \<times> int) option" where
  "print_rest prt mach' args i m mods st =
     map_option (\<lambda>ws. (ws, 0)) (print_args prt mach' i (drop (i - 1) args) (drop (i - 1) m) mods st)"

definition init_rest ::
  "'mc caller \<Rightarrow> 'mc printer \<Rightarrow> (nat \<Rightarrow> 'mc) \<Rightarrow> (nat \<Rightarrow> 'mc) \<Rightarrow> cstr list \<Rightarrow> nat \<Rightarrow> nat list \<Rightarrow>
     ustat_module list \<Rightarrow> statics \<Rightarrow> (out \<times> int) option" where
  "init_rest ini prt mach mach' args i m mods st = do {
     (ws, r) \<leftarrow> init_args ini mach i (drop (i - 1) args) mods st;
     (case r of
        Inl code \<Rightarrow> Some (ws, code)
      | Inr (mods, st, js) \<Rightarrow> prepend ws (print_rest prt mach' args 1 (m @ js) mods st)) }"

lemma drop_arg_at: "1 \<le> i \<Longrightarrow> i \<le> length xs \<Longrightarrow> drop (i - 1) xs = xs ! (i - 1) # drop i xs"
  using Cons_nth_drop_Suc [of "i - 1" xs] by simp

lemma print_rest_next:
  assumes "1 \<le> i" and "i \<le> length args" and "length m = length args"
  shows "print_rest prt mach' args i m mods st = do {
    l \<leftarrow> str_len (arg_at args i);
    (ws, _) \<leftarrow> prt (mod_print (mods ! (m ! (i - 1)))) (mach' i) st STDOUT_FILENO (mods ! (m ! (i - 1))) (arg_at args i) l;
    prepend ws (print_rest prt mach' args (i + 1) m mods st) }"
proof -
  have d: "drop (i - 1) args = arg_at args i # drop i args" "drop (i - 1) m = m ! (i - 1) # drop i m"
    using drop_arg_at [OF assms(1)] assms(2,3) by metis+
  show ?thesis unfolding print_rest_def d
    by (cases "print_args prt mach' (Suc i) (drop i args) (drop i m) mods st")
      (auto simp: map_option_bind comp_def case_prod_unfold intro!: Option.bind_cong)
qed

lemma print_rest_end: "length args < i \<Longrightarrow> print_rest prt mach' args i m mods st = Some ([], 0)"
  by (simp add: print_rest_def)

lemma init_rest_next:
  assumes "1 \<le> i" and "i \<le> length args"
  shows "init_rest ini prt mach mach' args i m mods st = do {
    (ws, r) \<leftarrow> init_arg ini (mach i) (arg_at args i) mods st;
    (case r of
       Inl code \<Rightarrow> Some (ws, code)
     | Inr (mods, st, k) \<Rightarrow> prepend ws (init_rest ini prt mach mach' args (i + 1) (m @ [k]) mods st)) }"
proof (cases "init_arg ini (mach i) (arg_at args i) mods st")
  case None
  then show ?thesis using drop_arg_at [OF assms] by (simp add: init_rest_def)
next
  case (Some a)
  obtain ws r where a: "a = (ws, r)" by (cases a)
  show ?thesis
  proof (cases r)
    case (Inl code)
    then show ?thesis using drop_arg_at [OF assms] Some a by (simp add: init_rest_def)
  next
    case (Inr x)
    obtain mods1 st1 k where x: "x = (mods1, st1, k)" by (cases x)
    show ?thesis
    proof (cases "init_args ini mach (i + 1) (drop i args) mods1 st1")
      case None
      then show ?thesis using drop_arg_at [OF assms] Some a Inr x by (simp add: init_rest_def)
    next
      case (Some b)
      obtain w s where b: "b = (w, s)" by (cases b)
      then show ?thesis
        using drop_arg_at [OF assms] Some a Inr x \<open>init_arg ini (mach i) (arg_at args i) mods st = Some a\<close>
        by (cases s) (auto simp: init_rest_def)
    qed
  qed
qed

lemma init_rest_end:
  "length args < i \<Longrightarrow> init_rest ini prt mach mach' args i m mods st = print_rest prt mach' args 1 m mods st"
  by (simp add: init_rest_def)

text \<open>The rest of an iteration of the first loop, from the index \<open>j\<close> of the inner one.\<close>

definition iteration_rest ::
  "'mc caller \<Rightarrow> 'mc \<Rightarrow> cstr \<Rightarrow> ustat_module list \<Rightarrow> statics \<Rightarrow> nat \<Rightarrow>
     (out \<times> (int + ustat_module list \<times> statics \<times> nat)) option" where
  "iteration_rest ini mc arg mods st j = do {
     j \<leftarrow> find_module arg mods j;
     if j < length mods \<and> \<not> mod_ready (mods ! j) then do {
       l \<leftarrow> str_len arg;
       (ws, r) \<leftarrow> ini (mod_init (mods ! j)) mc st (mods ! j);
       (case r of
          Inl code \<Rightarrow> Some (ws, Inl code)
        | Inr (rc, st, m) \<Rightarrow>
            if rc = 0 then do {
              n \<leftarrow> str_len (mod_name m);
              (ex, code) \<leftarrow> os_exit 1 (Some (cstring [CHR 0x22]));
              Some (ws @ [(STDERR_FILENO, error_cant_init_module), (STDERR_FILENO, take n (mod_name m))] @ ex,
                Inl code) }
            else Some (ws, Inr (mods[j := m], st, j mod length mods))) }
     else Some ([], Inr (mods, st, j mod length mods)) }"

lemma init_arg_iteration: "init_arg ini mc arg mods st = iteration_rest ini mc arg mods st 1"
  by (simp only: init_arg_def iteration_rest_def)

definition iterations_rest ::
  "'mc caller \<Rightarrow> 'mc printer \<Rightarrow> (nat \<Rightarrow> 'mc) \<Rightarrow> (nat \<Rightarrow> 'mc) \<Rightarrow> cstr list \<Rightarrow> nat \<Rightarrow> nat list \<Rightarrow>
     (out \<times> (int + ustat_module list \<times> statics \<times> nat)) option \<Rightarrow> (out \<times> int) option" where
  "iterations_rest ini prt mach mach' args i m x = do {
     (ws, r) \<leftarrow> x;
     (case r of
        Inl code \<Rightarrow> Some (ws, code)
      | Inr (mods, st, k) \<Rightarrow> prepend ws (init_rest ini prt mach mach' args (i + 1) (m @ [k]) mods st)) }"

text \<open>The writes and the exit code that a configuration leads to.\<close>

definition outcome ::
  "'mc caller \<Rightarrow> 'mc printer \<Rightarrow> (nat \<Rightarrow> 'mc) \<Rightarrow> (nat \<Rightarrow> 'mc) \<Rightarrow> cstr list \<Rightarrow> config \<Rightarrow> (out \<times> int) option" where
  "outcome ini prt mach mach' args c = prepend (cf_out c) (case cf_pc c of
     Enter \<Rightarrow> do {
       h \<leftarrow> asks_help args;
       if h then usage else init_rest ini prt mach mach' args 1 (cf_m c) (cf_mods c) (cf_st c) }
   | Outer \<Rightarrow> init_rest ini prt mach mach' args (cf_i c) (cf_m c) (cf_mods c) (cf_st c)
   | Inner \<Rightarrow> iterations_rest ini prt mach mach' args (cf_i c) (cf_m c)
       (iteration_rest ini (mach (cf_i c)) (arg_at args (cf_i c)) (cf_mods c) (cf_st c) (cf_j c))
   | Chosen \<Rightarrow> init_rest ini prt mach mach' args (cf_i c + 1) (cf_m c @ [cf_j c mod length (cf_mods c)])
       (cf_mods c) (cf_st c)
   | Printing \<Rightarrow> print_rest prt mach' args (cf_i c) (cf_m c) (cf_mods c) (cf_st c)
   | Exited code \<Rightarrow> Some ([], code))"

text \<open>The ranges of the variables at each place of the control.\<close>

definition config_wf :: "cstr list \<Rightarrow> config \<Rightarrow> bool" where
  "config_wf args c \<longleftrightarrow> (case cf_pc c of
     Enter \<Rightarrow> cf_m c = []
   | Outer \<Rightarrow> 1 \<le> cf_i c \<and> cf_i c \<le> length args + 1 \<and> length (cf_m c) + 1 = cf_i c
   | Printing \<Rightarrow> 1 \<le> cf_i c \<and> cf_i c \<le> length args + 1 \<and> length (cf_m c) = length args
   | Exited _ \<Rightarrow> True
   | _ \<Rightarrow> 1 \<le> cf_i c \<and> cf_i c \<le> length args \<and> length (cf_m c) + 1 = cf_i c)"

lemma main_step_wf:
  "main_step ini prt mach mach' args c c' \<Longrightarrow> config_wf args c \<Longrightarrow> config_wf args c'"
  by (induction rule: main_step.induct) (simp_all add: config_wf_def)

lemma reachable_wf: "reachable ini prt mach mach' args c \<Longrightarrow> config_wf args c"
  by (induction rule: reachable.induct) (simp_all add: config_wf_def main_start_def main_step_wf [unfolded config_wf_def])

lemma outcome_start:
  "outcome ini prt mach mach' args main_start = main_of ini prt mach mach' args"
proof -
  have e: "init_rest ini prt mach mach' args 1 [] modules statics_initial = do {
     (ws, r) \<leftarrow> init_args ini mach 1 args modules statics_initial;
     (case r of
        Inl code \<Rightarrow> Some (ws, code)
      | Inr (mods, st, js) \<Rightarrow> do {
          ws' \<leftarrow> print_args prt mach' 1 args js mods st;
          Some (ws @ ws', 0) }) }"
    by (auto simp: init_rest_def print_rest_def prepend_def option.map_comp comp_def map_conv_bind_option
        intro!: Option.bind_cong split: sum.split)
  show ?thesis
    unfolding outcome_def main_of_def asks_help_def main_start_def config.simps pc.case e prepend_Nil ..
qed

lemma iteration_rest_end:
  "\<not> j < length mods \<Longrightarrow> iteration_rest ini mc arg mods st j = Some ([], Inr (mods, st, j mod length mods))"
  by (simp add: iteration_rest_def find_module.simps [of arg mods j])

lemma iteration_rest_next:
  "j < length mods \<Longrightarrow> str_start arg (mod_name (mods ! j)) = Some 0 \<Longrightarrow>
    iteration_rest ini mc arg mods st j = iteration_rest ini mc arg mods st (j + 1)"
  by (simp add: iteration_rest_def find_module.simps [of arg mods j])

lemma iteration_rest_found:
  assumes "j < length mods" and "str_start arg (mod_name (mods ! j)) = Some r" and "r \<noteq> 0"
  shows "find_module arg mods j = Some j"
  using assms by (simp add: find_module.simps [of arg mods j])

lemma outcome_inner:
  assumes "cf_pc c = Inner"
  shows "outcome ini prt mach mach' args c =
    Option.bind (inner_config ini mach args c) (outcome ini prt mach mach' args)"
proof -
  let ?j = "cf_j c" and ?md = "cf_mods c ! cf_j c" and ?arg = "arg_at args (cf_i c)"
  let ?rest = "\<lambda>x. prepend (cf_out c) (iterations_rest ini prt mach mach' args (cf_i c) (cf_m c) x)"
  have l: "outcome ini prt mach mach' args c =
      ?rest (iteration_rest ini (mach (cf_i c)) ?arg (cf_mods c) (cf_st c) ?j)"
    by (simp add: outcome_def assms)
  show ?thesis
  proof (cases "?j < length (cf_mods c)")
    case False
    then show ?thesis
      unfolding l by (simp add: iteration_rest_end inner_config_def outcome_def iterations_rest_def)
  next
    case j: True
    show ?thesis
    proof (cases "str_start ?arg (mod_name ?md)")
      case None
      with j show ?thesis
        unfolding l by (simp add: iteration_rest_def find_module.simps [of _ _ ?j] inner_config_def Let_def iterations_rest_def)
    next
      case (Some r)
      consider "r = 0" | "r \<noteq> 0" "mod_ready ?md" | "r \<noteq> 0" "\<not> mod_ready ?md" by blast
      then show ?thesis
      proof cases
        case 1
        with j Some show ?thesis
          unfolding l by (simp add: iteration_rest_next inner_config_def Let_def outcome_def assms)
      next
        case 2
        with j Some iteration_rest_found [OF j Some] show ?thesis
          unfolding l by (simp add: iteration_rest_def inner_config_def Let_def outcome_def iterations_rest_def)
      next
        case 3
        note f = iteration_rest_found [OF j Some 3(1)]
        show ?thesis
        proof (cases "do { l \<leftarrow> str_len ?arg; ini (mod_init ?md) (mach (cf_i c)) (cf_st c) ?md }")
          case None
          then show ?thesis
            using j Some 3 f unfolding l
            by (cases "str_len ?arg") (simp_all add: iteration_rest_def inner_config_def Let_def iterations_rest_def)
        next
          case (Some x)
          then obtain k ws y where x: "str_len ?arg = Some k"
            "ini (mod_init ?md) (mach (cf_i c)) (cf_st c) ?md = Some (ws, y)" by (cases x) auto
          show ?thesis
          proof (cases y)
            case (Inl code)
            then show ?thesis
              using j \<open>str_start ?arg (mod_name ?md) = Some r\<close> 3 f x unfolding l
              by (simp add: iteration_rest_def inner_config_def Let_def iterations_rest_def outcome_def)
          next
            case (Inr z)
            obtain rc st m where "z = (rc, st, m)" by (cases z)
            then show ?thesis
              using j \<open>str_start ?arg (mod_name ?md) = Some r\<close> 3 f x Inr unfolding l
              by (cases "str_len (mod_name m)"; cases "rc = 0")
                (simp_all add: iteration_rest_def inner_config_def Let_def iterations_rest_def outcome_def os_exit_def
                  split: option.split)
          qed
        qed
      qed
    qed
  qed
qed

lemma outcome_next:
  assumes "config_wf args c" and "\<forall>code. cf_pc c \<noteq> Exited code"
  shows "outcome ini prt mach mach' args c =
    Option.bind (next_config ini prt mach mach' args c) (outcome ini prt mach mach' args)"
proof (cases "cf_pc c")
  case Enter
  with assms(1) have "cf_m c = []" by (simp add: config_wf_def)
  moreover have "prepend w u = Option.bind u (\<lambda>(ws, rc). Some (w @ ws, rc))" for w and u :: "(out \<times> int) option"
    by (cases u) auto
  ultimately show ?thesis using Enter
    by (cases "asks_help args") (auto simp: outcome_def next_config_def intro!: Option.bind_cong)
next
  case Outer
  show ?thesis
  proof (cases "cf_i c < length args + 1")
    case True
    with Outer assms(1) show ?thesis
      by (simp add: outcome_def next_config_def config_wf_def init_rest_next init_arg_iteration iterations_rest_def)
  next
    case False
    with Outer assms(1) show ?thesis
      by (simp add: outcome_def next_config_def config_wf_def init_rest_end)
  qed
next
  case Inner
  then show ?thesis by (simp add: outcome_inner next_config_def)
next
  case Chosen
  then show ?thesis by (simp add: outcome_def next_config_def)
next
  case Printing
  let ?md = "cf_mods c ! (cf_m c ! (cf_i c - 1))" and ?arg = "arg_at args (cf_i c)"
  show ?thesis
  proof (cases "cf_i c < length args + 1")
    case True
    with Printing assms(1) have w: "1 \<le> cf_i c" "cf_i c \<le> length args" "length (cf_m c) = length args"
      by (simp_all add: config_wf_def)
    show ?thesis
      using Printing True
      by (cases "str_len ?arg"; cases "\<forall>l. prt (mod_print ?md) (mach' (cf_i c)) (cf_st c) STDOUT_FILENO ?md ?arg l = None")
        (auto simp: outcome_def next_config_def print_config_def Let_def print_rest_next [OF w] prepend_bind
          intro!: Option.bind_cong)
  next
    case False
    with Printing show ?thesis
      by (simp add: outcome_def next_config_def print_config_def print_rest_end)
  qed
qed (use assms(2) in simp)

lemma reachable_outcome:
  "reachable ini prt mach mach' args c \<Longrightarrow>
    outcome ini prt mach mach' args c = main_of ini prt mach mach' args"
proof (induction rule: reachable.induct)
  case (step c c')
  have "\<forall>code. cf_pc c \<noteq> Exited code" using step.hyps(2) exited_final by blast
  from outcome_next [OF reachable_wf [OF step.hyps(1)] this, of ini prt mach mach'] step.IH step.hyps(2)
  show ?case by (simp add: main_step_iff)
qed (rule outcome_start)

section \<open>Runs are bounded\<close>

text \<open>A number that every step makes smaller, for \<open>n\<close> arguments and a table of \<open>k\<close> modules.\<close>

definition steps_left :: "nat \<Rightarrow> nat \<Rightarrow> config \<Rightarrow> nat" where
  "steps_left n k c = (let i = cf_i c in case cf_pc c of
     Enter \<Rightarrow> n + 3 + (n + 1) * (k + 3)
   | Outer \<Rightarrow> n + 3 + (n + 1 - i) * (k + 3)
   | Inner \<Rightarrow> n + 3 + (n - i) * (k + 3) + 2 + (k - cf_j c)
   | Chosen \<Rightarrow> n + 3 + (n - i) * (k + 3) + 1
   | Printing \<Rightarrow> n + 2 - i
   | Exited _ \<Rightarrow> 0)"

lemma main_step_length: "main_step ini prt mach mach' args c c' \<Longrightarrow> length (cf_mods c') = length (cf_mods c)"
  by (induction rule: main_step.induct) simp_all

lemma reachable_length: "reachable ini prt mach mach' args c \<Longrightarrow> length (cf_mods c) = nmodules"
  by (induction rule: reachable.induct) (simp_all add: main_start_def nmodules_def main_step_length)

lemma steps_left_decreases:
  assumes "main_step ini prt mach mach' args c c'" and "config_wf args c"
  shows "steps_left (length args) (length (cf_mods c)) c' < steps_left (length args) (length (cf_mods c)) c"
  using assms
proof (induction rule: main_step.induct)
  case (outer_next c)
  then have "length args + 1 - cf_i c = Suc (length args - cf_i c)" by simp
  then show ?case using outer_next by (simp add: steps_left_def Let_def)
qed (auto simp: steps_left_def Let_def config_wf_def)

lemma reachable_steps:
  assumes "(main_step ini prt mach mach' args ^^ n) main_start c"
  shows "reachable ini prt mach mach' args c \<and>
    n + steps_left (length args) nmodules c \<le> steps_left (length args) nmodules main_start"
  using assms
proof (induction n arbitrary: c)
  case 0
  then show ?case by (auto intro: reachable.start)
next
  case (Suc n)
  then obtain b where b: "(main_step ini prt mach mach' args ^^ n) main_start b" "main_step ini prt mach mach' args b c"
    by auto
  from Suc.IH [OF b(1)] have r: "reachable ini prt mach mach' args b" by blast
  from steps_left_decreases [OF b(2) reachable_wf [OF r]] Suc.IH [OF b(1)] reachable.step [OF r b(2)]
  show ?case by (simp add: reachable_length [OF r])
qed

text \<open>A configuration with an outcome is not stuck, and reaches the exit.\<close>

lemma outcome_exits:
  assumes "reachable ini prt mach mach' args c" and "outcome ini prt mach mach' args c = Some (ws, code)"
  shows "\<exists>c'. (main_step ini prt mach mach' args)\<^sup>*\<^sup>* c c' \<and> cf_pc c' = Exited code \<and> cf_out c' = ws"
  using assms
proof (induction "steps_left (length args) nmodules c" arbitrary: c rule: less_induct)
  case less
  show ?case
  proof (cases "\<exists>code. cf_pc c = Exited code")
    case True
    with less.prems(2) show ?thesis by (auto simp: outcome_def)
  next
    case False
    then have "Option.bind (next_config ini prt mach mach' args c) (outcome ini prt mach mach' args) = Some (ws, code)"
      using outcome_next [OF reachable_wf [OF less.prems(1)], of ini prt mach mach'] less.prems(2) by simp
    then obtain c1 where
      s: "main_step ini prt mach mach' args c c1" "outcome ini prt mach mach' args c1 = Some (ws, code)"
      by (auto simp: main_step_iff)
    have "steps_left (length args) nmodules c1 < steps_left (length args) nmodules c"
      using steps_left_decreases [OF s(1) reachable_wf [OF less.prems(1)]] reachable_length [OF less.prems(1)] by simp
    from less.hyps [OF this reachable.step [OF less.prems(1) s(1)] s(2)] obtain c' where
      "(main_step ini prt mach mach' args)\<^sup>*\<^sup>* c1 c'" "cf_pc c' = Exited code" "cf_out c' = ws" by blast
    with converse_rtranclp_into_rtranclp [of "main_step ini prt mach mach' args", OF s(1)] show ?thesis by blast
  qed
qed

theorem main_of_refined:
  "main_of ini prt mach mach' args = Some (ws, code) \<longleftrightarrow>
    (\<exists>c. reachable ini prt mach mach' args c \<and> cf_pc c = Exited code \<and> cf_out c = ws)"
proof
  assume "main_of ini prt mach mach' args = Some (ws, code)"
  with outcome_exits [OF reachable.start, of ini prt mach mach' args ws code] reachable_star [OF reachable.start]
  show "\<exists>c. reachable ini prt mach mach' args c \<and> cf_pc c = Exited code \<and> cf_out c = ws"
    by (metis outcome_start)
next
  assume "\<exists>c. reachable ini prt mach mach' args c \<and> cf_pc c = Exited code \<and> cf_out c = ws"
  then show "main_of ini prt mach mach' args = Some (ws, code)"
    using reachable_outcome by (fastforce simp: outcome_def)
qed

section \<open>An invariant of the reachable configurations\<close>

text \<open>
  The table differs from the first one only in its flags, the static variables satisfy their
  invariant, \<open>m\<close> holds the selected modules of the arguments so far, the inner loop is on its way to
  the selected module, and nothing is on standard output before the second loop.
\<close>

definition config_ok :: "(statics \<Rightarrow> bool) \<Rightarrow> cstr list \<Rightarrow> config \<Rightarrow> bool" where
  "config_ok ok args c \<longleftrightarrow> same_table modules (cf_mods c) \<and> ok (cf_st c) \<and>
     cf_m c = map (\<lambda>arg. selected modules (ctext arg) mod nmodules) (take (length (cf_m c)) args) \<and>
     (case cf_pc c of
        Inner \<Rightarrow> find_module (arg_at args (cf_i c)) (cf_mods c) (cf_j c) =
          Some (selected modules (ctext (arg_at args (cf_i c))))
      | Chosen \<Rightarrow> cf_j c = selected modules (ctext (arg_at args (cf_i c)))
      | _ \<Rightarrow> True) \<and>
     (cf_pc c \<in> {Enter, Outer, Inner, Chosen} \<longrightarrow> written 1 (cf_out c) = [])"

lemma find_module_reached:
  assumes "find_module arg mods j = Some k" and "j < length mods" and "str_start arg (mod_name (mods ! j)) = Some r"
  shows "if r = 0 then find_module arg mods (j + 1) = Some k else k = j"
  using assms by (simp add: find_module.simps [of arg mods j] split: if_splits)

context initialiser
begin

lemma config_ok_called:
  assumes "config_ok inv args c" and "cf_pc c = Inner" and "cf_j c < length (cf_mods c)"
    and "str_start (arg_at args (cf_i c)) (mod_name (cf_mods c ! cf_j c)) = Some r" and "r \<noteq> 0"
    and "call (mod_init (cf_mods c ! cf_j c)) mc (cf_st c) (cf_mods c ! cf_j c) = Some (ws, Inr (rc, st, m))"
  shows "same_table modules ((cf_mods c)[cf_j c := m])" and "inv st" and "written 1 ws = []"
    and "cf_j c = selected modules (ctext (arg_at args (cf_i c)))"
proof -
  show "same_table modules ((cf_mods c)[cf_j c := m])"
    using assms(1) same_table_update [OF assms(3) fixed [OF assms(6)]]
    by (auto simp: config_ok_def intro: same_table_trans)
  show "inv st" using keeps [OF _ assms(6)] assms(1) by (simp add: config_ok_def)
  show "written 1 ws = []" by (rule quiet [OF assms(6)])
  show "cf_j c = selected modules (ctext (arg_at args (cf_i c)))"
    using find_module_reached [OF _ assms(3,4)] assms(1,2,5) by (simp add: config_ok_def)
qed

lemma main_step_ok:
  assumes "main_step call prt mach mach' args c c'" and "config_ok inv args c" and "config_wf args c"
    and "list_all terminated args"
  shows "config_ok inv args c'"
  using assms(1-3)
proof (induction rule: main_step.induct)
  case (outer_next c)
  then have "cf_i c - 1 < length args" by (auto simp: config_wf_def)
  then have "terminated (arg_at args (cf_i c))" using assms(4) unfolding list_all_length by blast
  moreover have "names_ok (cf_mods c)" "cf_mods c \<noteq> []" "selected (cf_mods c) s = selected modules s" for s
    using outer_next.prems(1) names_ok_same [OF _ names_ok_modules] same_table_length [of modules "cf_mods c"]
      length_modules selected_same by (auto simp: config_ok_def)
  ultimately show ?case using outer_next find_module_selected [of "arg_at args (cf_i c)" "cf_mods c"]
    by (simp add: config_ok_def)
next
  case (inner_end c)
  then show ?case by (simp add: config_ok_def find_module.simps [of _ _ "cf_j c"])
next
  case (inner_next c)
  then show ?case using find_module_reached [of "arg_at args (cf_i c)" "cf_mods c" "cf_j c"]
    by (fastforce simp: config_ok_def)
next
  case (inner_ready c r)
  then show ?case using find_module_reached [of "arg_at args (cf_i c)" "cf_mods c" "cf_j c"]
    by (fastforce simp: config_ok_def)
next
  case (inner_init c r l ws rc st m)
  note i = config_ok_called [OF inner_init.prems(1) inner_init.hyps(1-4,7)]
  then show ?case using inner_init.prems(1) inner_init.hyps(1) by (simp add: config_ok_def)
next
  case (inner_fail c r l ws rc st m n ex code)
  note i = config_ok_called [OF inner_fail.prems(1) inner_fail.hyps(1-4,7)]
  then show ?case using inner_fail.prems(1) inner_fail.hyps(1) by (simp add: config_ok_def)
next
  case (chosen c)
  let ?n = "length (cf_m c)"
  from chosen have n: "?n < length args" "cf_i c - 1 = ?n" by (auto simp: config_wf_def)
  then have "take (Suc ?n) args = take ?n args @ [arg_at args (cf_i c)]" by (simp add: take_Suc_conv_app_nth)
  moreover have "length (cf_mods c) = nmodules"
    using chosen.prems(1) by (simp add: config_ok_def nmodules_def same_table_length)
  ultimately show ?case using chosen by (simp add: config_ok_def)
qed (auto simp: config_ok_def)

lemma reachable_ok:
  assumes "reachable call prt mach mach' args c" and "inv statics_initial" and "list_all terminated args"
  shows "config_ok inv args c"
  using assms(1)
proof (induction rule: reachable.induct)
  case start
  show ?case using assms(2) by (simp add: config_ok_def main_start_def)
next
  case (step c c')
  from main_step_ok [OF step.hyps(2) step.IH reachable_wf [OF step.hyps(1)] assms(3)] show ?case .
qed

end

section \<open>What a run does not read again\<close>

text \<open>A relation between the static variables before and after a call of \<open>init\<close> holds along a run.\<close>

locale growing_initialiser =
  fixes call :: "'mc caller" and grows :: "statics \<Rightarrow> statics \<Rightarrow> bool"
  assumes grows_refl: "grows st st"
    and grows_trans: "grows st st' \<Longrightarrow> grows st' st'' \<Longrightarrow> grows st st''"
    and call_grows: "call f mc st m = Some (ws, Inr (rc, st', m')) \<Longrightarrow> grows st st'"
begin

lemma main_step_grows: "main_step call prt mach mach' args c c' \<Longrightarrow> grows (cf_st c) (cf_st c')"
  by (induction rule: main_step.induct) (auto intro: grows_refl call_grows)

lemma steps_grow: "(main_step call prt mach mach' args)\<^sup>*\<^sup>* c c' \<Longrightarrow> grows (cf_st c) (cf_st c')"
  by (induction rule: rtranclp_induct) (auto intro: grows_refl grows_trans main_step_grows)

end

text \<open>
  The counters of sockets are read once, a table of file systems is never replaced, and the two
  amounts of memory are not read again once both are known.
\<close>

definition snapshot :: "statics \<Rightarrow> statics \<Rightarrow> bool" where
  "snapshot st st' \<longleftrightarrow> (tcp_inited (st_tcp st) \<longrightarrow> st_tcp st' = st_tcp st) \<and>
     (st_fs st \<noteq> None \<longrightarrow> st_fs st' = st_fs st) \<and>
     (0 < fst (st_mem st) \<and> 0 < snd (st_mem st) \<longrightarrow> st_mem st' = st_mem st)"

lemma call_init_snapshot:
  assumes "call_init f mc st m = Some (ws, Inr (rc, st', m'))"
  shows "snapshot st st'"
  using assms
  by (cases f) (auto simp: snapshot_def no_init_def mem_init_def fs_init_def tcp_init_def split: prod.splits if_splits)

interpretation ustat_grow: growing_initialiser call_init snapshot
  by unfold_locales (auto simp: snapshot_def dest: call_init_snapshot [unfolded snapshot_def])

text \<open>The second loop only reads.\<close>

lemma printing_frame:
  assumes "(main_step ini prt mach mach' args)\<^sup>*\<^sup>* c c'" and "cf_pc c = Printing"
  shows "cf_st c' = cf_st c \<and> cf_mods c' = cf_mods c \<and> cf_m c' = cf_m c \<and>
    (cf_pc c' = Printing \<or> cf_pc c' = Exited 0)"
  using assms
proof (induction rule: rtranclp_induct)
  case (step b d)
  then consider "cf_pc b = Printing" | "cf_pc b = Exited 0" by blast
  then show ?case
  proof cases
    case 1
    with step.hyps(2) step.IH [OF step.prems] show ?thesis by (cases rule: main_step.cases) simp_all
  next
    case 2
    with step.hyps(2) exited_final show ?thesis by blast
  qed
qed simp

end
