(* ===== verification/Definedness.thy ===== *)
theory Definedness
  imports Runs Steps
begin

text \<open>
  Runs without undefined behaviour, in any build. The locale \<open>safe_build\<close> states what is needed of
  the two dispatchers: an initialiser, within the limits of the code, promises something of the static
  variables and keeps the promises of the others, and a print function is defined under the promise of
  the initialiser whose results it reads.
\<close>

section \<open>Modules and arguments\<close>

text \<open>The initialiser whose results a print function reads.\<close>

fun reads :: "print_fn \<Rightarrow> init_fn" where
  "reads Load_print = Load_init"
| "reads Nusers_print = Nusers_init"
| "reads p = (
     if p \<in> {Uptime_print_human, Uptime_print} then Uptime_init
     else if p \<in> {Bat_level_print, Bat_charging_human_print, Bat_charging_print} then Bat_init
     else if p \<in> {Mem_free_human_print, Mem_free_print, Mem_ratio_print, Mem_total_human_print, Mem_total_print}
     then Mem_init
     else if p \<in> {Fs_total_human_print, Fs_total_print, Fs_ratio_print, Fs_free_human_print, Fs_free_print,
       Fs_used_human_print, Fs_used_print} then Fs_init
     else if p \<in> {Ntcp6_established_print, Ntcp6_listen_print, Ntcp6_closing_print, Ntcp6_all_print,
       Ntcp4_established_print, Ntcp4_listen_print, Ntcp4_closing_print, Ntcp4_all_print, Ntcp_print,
       Ntcp_established_print, Ntcp_listen_print, Ntcp_closing_print, Ntcp_all_print} then Tcp_init
     else No_init)"

definition color8_modules :: "print_fn set" where
  "color8_modules = {Color8_fg_normal_print, Color8_fg_bright_print, Color8_bg_normal_print, Color8_bg_bright_print}"

lemma modules_reads: "list_all (\<lambda>m. mod_init m = reads (mod_print m)) modules"
  by code_simp

text \<open>An argument for one of the eight colors does not end with 8.\<close>

definition arg_safe :: "string \<Rightarrow> bool" where
  "arg_safe s \<longleftrightarrow> is_text s \<and>
     (mod_print (modules ! (selected modules s mod nmodules)) \<in> color8_modules \<longrightarrow> last s \<noteq> CHR ''8'')"

lemma modules_names:
  "list_all (\<lambda>m. mod_name m = cstring (name_of m) \<and> is_text (name_of m) \<and>
     (mod_print m \<in> color8_modules \<longrightarrow> name_of m \<noteq> [])) modules"
  by code_simp

lemma selected_prefix:
  "\<exists>t. s = name_of (modules ! (selected modules s mod nmodules)) @ t"
proof (cases "selected modules s < nmodules")
  case True
  let ?n = "length (takeWhile (\<lambda>m. \<not> prefix (name_of m) s) (drop 1 modules))"
  have n: "?n < length (drop 1 modules)" using True by (simp add: selected_def nmodules_def)
  from nth_length_takeWhile [OF n] have "prefix (name_of (drop 1 modules ! ?n)) s" by simp
  then have "prefix (name_of (modules ! selected modules s)) s" using n by (simp add: selected_def)
  with True show ?thesis by (auto simp: prefix_def)
next
  case False
  have "modules \<noteq> []" using length_modules by auto
  then have "selected modules s = nmodules" using False selected_le [of modules s] by (simp add: nmodules_def)
  moreover have "name_of (modules ! 0) = []" by code_simp
  ultimately show ?thesis by simp
qed

section \<open>Safe builds\<close>

text \<open>
  \<open>usable\<close> are the initialisers that the build can call at all, and \<open>codes\<close> the exit codes of runs that
  fail. What a ready module was promised is still true.
\<close>

definition table_promised :: "(init_fn \<Rightarrow> statics \<Rightarrow> bool) \<Rightarrow> ustat_module list \<Rightarrow> statics \<Rightarrow> bool" where
  "table_promised promise mods st \<longleftrightarrow>
     (\<forall>j < length mods. mod_ready (mods ! j) \<longrightarrow> promise (mod_init (mods ! j)) st)"

lemma modules_promised: "table_promised promise modules st"
proof -
  have "list_all (\<lambda>m. \<not> mod_ready m) modules" by code_simp
  then show ?thesis by (simp add: table_promised_def list_all_length)
qed

lemma modules_0: "mod_init (modules ! 0) = No_init"
  by (simp add: modules_def)

text \<open>The first loop needs only the initialisers.\<close>

locale safe_inits = initialiser ini sane
  for ini :: "'mc caller" and sane :: "statics \<Rightarrow> bool" +
  fixes safe :: "'mc \<Rightarrow> bool" and inv :: "statics \<Rightarrow> bool"
    and promise :: "init_fn \<Rightarrow> statics \<Rightarrow> bool" and usable :: "init_fn \<Rightarrow> bool" and codes :: "int set"
  assumes starts: "inv statics_initial"
    and no_promise: "promise No_init st"
    and init_safe: "safe mc \<Longrightarrow> inv st \<Longrightarrow> usable f \<Longrightarrow>
      (\<exists>ws code. ini f mc st m = Some (ws, Inl code) \<and> code \<in> codes) \<or>
      (\<exists>ws rc st' m'. ini f mc st m = Some (ws, Inr (rc, st', m')) \<and> inv st' \<and>
        (rc = 0 \<longrightarrow> 1 \<in> codes) \<and> (rc \<noteq> 0 \<longrightarrow> mod_ready m \<or> promise f st') \<and> (\<forall>g. promise g st \<longrightarrow> promise g st'))"
begin

lemma init_arg_safe:
  assumes mc: "safe mc" and st: "inv st" and tab: "table_promised promise mods st"
    and same: "same_table modules mods" and arg: "terminated arg" and use: "usable (mod_init (chosen arg))"
  shows "(\<exists>ws code. init_arg ini mc arg mods st = Some (ws, Inl code) \<and> code \<in> codes) \<or>
    (\<exists>ws mods' st' k. init_arg ini mc arg mods st = Some (ws, Inr (mods', st', k)) \<and> inv st' \<and>
      table_promised promise mods' st' \<and> same_table modules mods' \<and> k = selected modules (ctext arg) mod nmodules \<and>
      promise (mod_init (modules ! k)) st' \<and> (\<forall>g. promise g st \<longrightarrow> promise g st'))"
proof -
  let ?j = "selected modules (ctext arg)"
  have len: "length mods = nmodules" "mods \<noteq> []" "0 < nmodules"
    using same_table_length [OF same] length_modules by (auto simp: nmodules_def)
  have names: "names_ok mods" by (rule names_ok_same [OF same names_ok_modules])
  have f: "find_module arg mods (Suc 0) = Some ?j"
    using find_module_selected [OF arg names len(2)] selected_same [OF same] by simp
  have "modules \<noteq> []" using length_modules by auto
  then have le: "?j \<le> nmodules" by (simp add: selected_le nmodules_def)
  have same_init: "mod_init (mods ! i) = mod_init (modules ! i)" if "i < nmodules" for i
    using same_table_fields(2) [OF same] that by (simp add: nmodules_def)
  show ?thesis
  proof (cases "?j < nmodules \<and> \<not> mod_ready (mods ! ?j)")
    case True
    then have "usable (mod_init (mods ! ?j))" using use same_init by (simp add: chosen_def)
    from init_safe [OF mc st this, of "mods ! ?j"] consider
      (ended) ws code where "ini (mod_init (mods ! ?j)) mc st (mods ! ?j) = Some (ws, Inl code)" "code \<in> codes"
    | (returned) ws rc st' m' where "ini (mod_init (mods ! ?j)) mc st (mods ! ?j) = Some (ws, Inr (rc, st', m'))" "inv st'"
        "rc = 0 \<longrightarrow> 1 \<in> codes" "rc \<noteq> 0 \<longrightarrow> promise (mod_init (mods ! ?j)) st'" "\<forall>g. promise g st \<longrightarrow> promise g st'"
      using True by blast
    then show ?thesis
    proof cases
      case ended
      with True f len(1) arg show ?thesis by (simp add: init_arg_def str_len_eq)
    next
      case c: (returned ws rc st' m')
      have fx: "fixed_part m' = fixed_part (mods ! ?j)" by (rule fixed [OF c(1)])
      have nm: "mod_name m' = mod_name (mods ! ?j)" "mod_init m' = mod_init (mods ! ?j)"
        using arg_cong [OF fx, of mod_name] arg_cong [OF fx, of mod_init] by simp_all
      obtain l where l: "str_len arg = Some l" using arg by (simp add: str_len_eq)
      show ?thesis
      proof (cases "rc = 0")
        case rc: True
        have "terminated (mod_name (mods ! ?j))" using names True len(1) by (simp add: names_ok_def list_all_length)
        with rc True f l c(1) nm len(1) c(3) show ?thesis
          by (simp add: init_arg_def str_len_eq os_exit_def)
      next
        case False
        have "table_promised promise (mods[?j := m']) st'"
          unfolding table_promised_def
        proof (intro allI impI)
          fix i assume i: "i < length (mods[?j := m'])" "mod_ready (mods[?j := m'] ! i)"
          show "promise (mod_init (mods[?j := m'] ! i)) st'"
            using i tab c(4,5) False nm(2) by (cases "i = ?j") (auto simp: table_promised_def)
        qed
        moreover have "same_table modules (mods[?j := m'])"
          by (rule same_table_trans [OF same], rule same_table_update) (use True len fx in simp_all)
        ultimately show ?thesis
          using False True f l c same_init len(1) by (simp add: init_arg_def)
      qed
    qed
  next
    case False
    have "promise (mod_init (modules ! (?j mod nmodules))) st"
    proof (cases "?j < nmodules")
      case True
      with False tab same_init len(1) show ?thesis by (auto simp: table_promised_def)
    next
      case False
      with le show ?thesis by (simp add: modules_0 no_promise)
    qed
    with False f st tab same len(1) show ?thesis by (auto simp: init_arg_def)
  qed
qed

lemma init_args_safe:
  assumes "\<And>i. safe (mach i)" and "inv st" and "table_promised promise mods st"
    and "same_table modules mods" and "list_all (\<lambda>arg. terminated arg \<and> usable (mod_init (chosen arg))) args"
  shows "(\<exists>ws code. init_args ini mach i args mods st = Some (ws, Inl code) \<and> code \<in> codes) \<or>
    (\<exists>ws mods' st' js. init_args ini mach i args mods st = Some (ws, Inr (mods', st', js)) \<and>
      same_table modules mods' \<and> inv st' \<and> (\<forall>g. promise g st \<longrightarrow> promise g st') \<and>
      js = map (\<lambda>arg. selected modules (ctext arg) mod nmodules) args \<and>
      (\<forall>k \<in> set js. promise (mod_init (modules ! k)) st'))"
  using assms(2-5)
proof (induction args arbitrary: i mods st)
  case Nil
  then show ?case by simp
next
  case (Cons arg args)
  from Cons.prems(4) have u: "terminated arg" "usable (mod_init (chosen arg))"
    "list_all (\<lambda>arg. terminated arg \<and> usable (mod_init (chosen arg))) args" by simp_all
  from init_arg_safe [OF assms(1) Cons.prems(1-3) u(1,2), of i] show ?case
  proof (elim disjE exE conjE)
    fix ws code assume "init_arg ini (mach i) arg mods st = Some (ws, Inl code)" "code \<in> codes"
    then show ?thesis by simp
  next
    fix ws mods1 st1 k
    assume a: "init_arg ini (mach i) arg mods st = Some (ws, Inr (mods1, st1, k))" "inv st1"
      "table_promised promise mods1 st1" "same_table modules mods1" "k = selected modules (ctext arg) mod nmodules"
      "promise (mod_init (modules ! k)) st1" "\<forall>g. promise g st \<longrightarrow> promise g st1"
    from Cons.IH [OF a(2-4) u(3), of "Suc i"] a show ?thesis by fastforce
  qed
qed

end

text \<open>With the print functions, whole runs.\<close>

locale safe_build = safe_inits ini sane safe inv promise usable codes
  for ini :: "'mc caller" and sane :: "statics \<Rightarrow> bool" and safe :: "'mc \<Rightarrow> bool" and inv :: "statics \<Rightarrow> bool"
    and promise :: "init_fn \<Rightarrow> statics \<Rightarrow> bool" and usable :: "init_fn \<Rightarrow> bool" and codes :: "int set" +
  fixes prt :: "'mc printer"
  assumes print_safe: "safe mc \<Longrightarrow> promise (reads (mod_print m)) st \<Longrightarrow> mod_name m = cstring nm \<Longrightarrow>
      is_text (nm @ t) \<Longrightarrow> (mod_print m \<in> color8_modules \<Longrightarrow> nm @ t \<noteq> [] \<and> last (nm @ t) \<noteq> CHR ''8'') \<Longrightarrow>
      prt (mod_print m) mc st fd m (cstring (nm @ t)) (length (nm @ t)) \<noteq> None"
begin

lemma print_args_safe:
  assumes mach: "\<And>i. safe (mach i)" and same: "same_table modules mods"
    and "list_all arg_safe ss"
    and "\<forall>s \<in> set ss. promise (mod_init (modules ! (selected modules s mod nmodules))) st"
  shows "print_args prt mach i (map cstring ss) (map (\<lambda>s. selected modules s mod nmodules) ss) mods st \<noteq> None"
  using assms(3,4)
proof (induction ss arbitrary: i)
  case Nil
  then show ?case by simp
next
  case (Cons s ss)
  let ?k = "selected modules s mod nmodules"
  have k: "?k < length modules" using length_modules by (simp add: nmodules_def)
  note f = same_table_fields [OF same k]
  have all: "mod_name (modules ! ?k) = cstring (name_of (modules ! ?k)) \<and> is_text (name_of (modules ! ?k)) \<and>
      (mod_print (modules ! ?k) \<in> color8_modules \<longrightarrow> name_of (modules ! ?k) \<noteq> [])"
    "mod_init (modules ! ?k) = reads (mod_print (modules ! ?k))"
    using modules_names modules_reads k by (simp_all add: list_all_length)
  obtain t where t: "s = name_of (modules ! ?k) @ t" using selected_prefix by blast
  have s: "is_text s" "mod_print (modules ! ?k) \<in> color8_modules \<longrightarrow> last s \<noteq> CHR ''8''"
    using Cons.prems(1) by (simp_all add: arg_safe_def)
  have "prt (mod_print (mods ! ?k)) (mach i) st 1 (mods ! ?k) (cstring (name_of (modules ! ?k) @ t))
      (length (name_of (modules ! ?k) @ t)) \<noteq> None"
    by (rule print_safe [OF mach]) (use Cons.prems(2) f all s t in auto)
  then obtain ws r where "prt (mod_print (mods ! ?k)) (mach i) st 1 (mods ! ?k) (cstring s) (length s) = Some (ws, r)"
    unfolding t [symmetric] by auto
  with Cons.IH [of "Suc i"] Cons.prems s(1) show ?case by auto
qed

lemma run_defined:
  assumes "\<forall>i. safe (mach i) \<and> safe (mach' i)" and "list_all arg_safe ss"
    and "list_all (\<lambda>s. usable (mod_init (chosen (cstring s)))) ss"
  shows "\<exists>ws code. main_of ini prt mach mach' (map cstring ss) = Some (ws, code) \<and> code \<in> insert 0 codes"
proof (cases "no_help (map cstring ss)")
  case True
  have "list_all is_text ss" using assms(2) by (simp add: list_all_iff arg_safe_def)
  then have ctexts: "map (\<lambda>arg. selected modules (ctext arg) mod nmodules) (map cstring ss) =
      map (\<lambda>s. selected modules s mod nmodules) ss"
    by (simp add: list_all_iff)
  have args: "list_all terminated (map cstring ss)"
    "list_all (\<lambda>arg. terminated arg \<and> usable (mod_init (chosen arg))) (map cstring ss)"
    using assms(3) by (simp_all add: list_all_iff)
  note run = main_of_no_help [OF True args(1), of ini prt mach mach']
  from init_args_safe [OF _ starts modules_promised same_table_refl args(2), of mach 1] assms(1)
  consider (failed) ws code where "init_args ini mach 1 (map cstring ss) modules statics_initial = Some (ws, Inl code)"
      "code \<in> codes"
    | (printed) ws mods st where "init_args ini mach 1 (map cstring ss) modules statics_initial =
        Some (ws, Inr (mods, st, map (\<lambda>s. selected modules s mod nmodules) ss))" "same_table modules mods"
      "\<forall>s \<in> set ss. promise (mod_init (modules ! (selected modules s mod nmodules))) st"
    unfolding ctexts by auto
  then show ?thesis
  proof cases
    case failed
    with run show ?thesis by simp
  next
    case printed
    from print_args_safe [OF _ printed(2) assms(2) printed(3), of mach' 1] assms(1) obtain ws' where
      "print_args prt mach' 1 (map cstring ss) (map (\<lambda>s. selected modules s mod nmodules) ss) mods st = Some ws'"
      by auto
    with run printed(1) show ?thesis by simp
  qed
next
  case False
  then obtain s where s: "ss = [s]" "prefix ''-h'' (ctext (cstring s))"
    by (auto simp: no_help_def split: list.splits)
  with usage_written help_diffn [OF terminated_cstring s(2)] show ?thesis by (auto simp: main_of_def)
qed

lemma safe_run:
  assumes "\<forall>i. safe (mach i) \<and> safe (mach' i)" and "list_all arg_safe ss"
    and "list_all (\<lambda>s. usable (mod_init (chosen (cstring s)))) ss"
  obtains ws code where "main_of ini prt mach mach' (map cstring ss) = Some (ws, code)" "code \<in> insert 0 codes"
  using run_defined [OF assms] by blast

text \<open>From wherever a run is it gets to the exit, in a bounded number of steps.\<close>

lemma run_live:
  assumes "\<forall>i. safe (mach i) \<and> safe (mach' i)" and "list_all arg_safe ss"
    and "list_all (\<lambda>s. usable (mod_init (chosen (cstring s)))) ss"
    and "(main_step ini prt mach mach' (map cstring ss) ^^ n) main_start c"
  shows "n \<le> (length ss + 1) * (nmodules + 4) + 2 \<and>
    (\<exists>c' code. (main_step ini prt mach mach' (map cstring ss))\<^sup>*\<^sup>* c c' \<and>
      cf_pc c' = Exited code \<and> code \<in> insert 0 codes)"
proof -
  obtain ws code where o: "main_of ini prt mach mach' (map cstring ss) = Some (ws, code)" "code \<in> insert 0 codes"
    using safe_run [OF assms(1-3)] by blast
  from reachable_steps [OF assms(4)] have r: "reachable ini prt mach mach' (map cstring ss) c"
    and n: "n \<le> steps_left (length ss) nmodules main_start" by simp_all
  from n have "n \<le> (length ss + 1) * (nmodules + 4) + 2" by (simp add: steps_left_def main_start_def algebra_simps)
  moreover from outcome_exits [OF r] reachable_outcome [OF r] o
  have "\<exists>c'. (main_step ini prt mach mach' (map cstring ss))\<^sup>*\<^sup>* c c' \<and> cf_pc c' = Exited code" by auto
  ultimately show ?thesis using o(2) by blast
qed

text \<open>A reachable configuration is the exit or has a next step.\<close>

lemma run_progress:
  assumes "\<forall>i. safe (mach i) \<and> safe (mach' i)" and "list_all arg_safe ss"
    and "list_all (\<lambda>s. usable (mod_init (chosen (cstring s)))) ss"
    and "reachable ini prt mach mach' (map cstring ss) c"
  shows "(\<exists>code. cf_pc c = Exited code) \<or> (\<exists>c'. main_step ini prt mach mach' (map cstring ss) c c')"
proof -
  obtain ws code where o: "main_of ini prt mach mach' (map cstring ss) = Some (ws, code)"
    using safe_run [OF assms(1-3)] by blast
  have "\<exists>c'. main_step ini prt mach mach' (map cstring ss) c c'" if "\<forall>code. cf_pc c \<noteq> Exited code"
    using outcome_next [OF reachable_wf [OF assms(4)] that, of ini prt mach mach'] reachable_outcome [OF assms(4)] o
    by (cases "next_config ini prt mach mach' (map cstring ss) c") (simp_all add: main_step_iff)
  then show ?thesis by blast
qed

end

end
