(* ===== verification/Safety.thy ===== *)
theory Safety
  imports Definedness
begin

text \<open>
  Runs without undefined behaviour. The limits within which the code is safe are collected in
  \<open>machine_safe\<close> for the answers of the system and \<open>arg_safe\<close> for an argument. Each initialiser
  promises something of the static variables (\<open>promised\<close>) and keeps the promises of the others; each
  print function is defined under the promise of the initialiser whose results it reads.
\<close>

section \<open>Output functions that are defined\<close>

lemma write_human_defined: "unat v < 2 * 10 ^ 18 \<Longrightarrow> write_uint64_human fd 1 v \<noteq> None"
  using write_uint64_human_1 [of v fd] units_le [of "unat v" 5] by auto

text \<open>The quotient of two integers below 2^53 of which the second is not less.\<close>

lemma ratio_defined:
  assumes "a \<le> b" and "0 < b" and "b < 2 ^ 53"
  shows "write_double fd (d_div (Fin (of_nat a)) (Fin (of_nat b))) 2 \<noteq> None"
proof -
  have "rnd_rat (of_nat a / of_nat b) \<le> 2 ^ 55"
    using ratio_quotient(3) [OF assms(1,2)] by (rule order_trans) simp
  from write_double_2_Fin [OF ratio_quotient(2) [OF assms(1,2)] this, of fd]
  show ?thesis unfolding ratio_quotient(1) [OF assms(1,2)] by auto
qed

lemma mem_ratio_defined:
  assumes "snd st \<le> fst st" and "0 < fst st" and "unat (fst st) < 2 ^ 53"
  shows "mem_ratio_print st fd m s l \<noteq> None"
proof -
  have rep: "repr (of_nat n)" if "n < 2 ^ 53" for n
    using repr_int [of "int n"] that by simp
  have v: "d_of_u64 v = Fin (of_nat (unat v))" if "unat v < 2 ^ 53" for v
    unfolding d_of_u64_eq rnd_rat_repr [OF rep [OF that]] ..
  have le: "unat (snd st) \<le> unat (fst st)" "0 < unat (fst st)"
    using assms(1,2) by (simp_all add: word_le_nat_alt word_less_nat_alt)
  show ?thesis
    unfolding mem_ratio_print_def v [OF assms(3)] v [OF le_less_trans [OF le(1) assms(3)]]
    by (rule ratio_defined [OF le assms(3)])
qed

text \<open>Entries of file systems with less than 2^53 bytes.\<close>

definition entry_safe :: "ustat_fs \<Rightarrow> bool" where
  "entry_safe e \<longleftrightarrow> entry_ok e \<and> fs_n_free e \<le> fs_n_total e \<and> unat (fs_n_total e) < 2 ^ 53"

lemma named_entry_in:
  assumes "es \<noteq> []"
  shows "named_entry es t \<in> set es"
proof (cases "filter (\<lambda>e. fs_name e = t) es")
  case (Cons e rest)
  then have "set (e # rest) \<subseteq> set es" by (metis filter_is_subset)
  with Cons show ?thesis by (simp add: named_entry_def)
qed (simp add: named_entry_def assms)

lemma fs_select_safe:
  assumes "mod_name m = cstring nm" and "is_text (nm @ t)" and "list_all entry_safe es" and "es \<noteq> []"
  shows "\<exists>e. entry_safe e \<and> fs_select m (Some es) (cstring (nm @ t)) (length (nm @ t)) = Some e"
proof -
  have ok: "list_all entry_ok es" using assms(3) by (simp add: list_all_iff entry_safe_def)
  have "hd es \<in> set es" using assms(4) by simp
  moreover have "named_entry es t \<in> set es" by (rule named_entry_in [OF assms(4)])
  ultimately show ?thesis
    using fs_select_eq [OF assms(1) _ _ ok assms(4), of t] assms(2,3) by (auto simp: list_all_iff)
qed

lemma fs_prints_defined:
  assumes "entry_safe e" and "fs_select m tab s l = Some e"
  shows "fs_total_print tab fd m s l \<noteq> None" "fs_total_human_print tab fd m s l \<noteq> None"
    "fs_free_print tab fd m s l \<noteq> None" "fs_free_human_print tab fd m s l \<noteq> None"
    "fs_used_print tab fd m s l \<noteq> None" "fs_used_human_print tab fd m s l \<noteq> None"
    "fs_ratio_print tab fd m s l \<noteq> None"
proof -
  from assms(1) have le: "unat (fs_n_free e) \<le> unat (fs_n_total e)" "unat (fs_n_total e) < 2 ^ 53"
    by (simp_all add: entry_safe_def word_le_nat_alt)
  have "unat (fs_n_total e) < 2 ^ 63" using le(2) by simp
  with assms(1) have sub: "i64_sub (fs_n_total e) (fs_n_free e) = Some (fs_n_total e - fs_n_free e)"
    by (simp add: i64_sub_le entry_safe_def)
  have h: "write_uint64_human fd 1 v \<noteq> None" if "unat v \<le> unat (fs_n_total e)" for v
    using that le(2) by (intro write_human_defined) simp
  have "unat (fs_n_total e - fs_n_free e) \<le> unat (fs_n_total e)"
    using assms(1) by (simp add: entry_safe_def unat_sub)
  note h' = h [OF this] h [OF le(1)] h [OF order_refl]
  show "fs_total_print tab fd m s l \<noteq> None" "fs_total_human_print tab fd m s l \<noteq> None"
    "fs_free_print tab fd m s l \<noteq> None" "fs_free_human_print tab fd m s l \<noteq> None"
    "fs_used_print tab fd m s l \<noteq> None" "fs_used_human_print tab fd m s l \<noteq> None"
    using h' by (simp_all add: fs_total_print_def fs_total_human_print_def fs_free_print_def fs_free_human_print_def
      fs_used_print_def fs_used_human_print_def assms(2) sub write_uint64_eq)
  have rep: "d_of_int (int n) = Fin (of_nat n)" if "n < 2 ^ 53" for n
    using d_of_int_exact [of "int n"] that by simp
  have s: "sint v = int (unat v)" if "unat v < 2 ^ 53" for v :: u64
    using that by (intro sint_u64) simp
  show "fs_ratio_print tab fd m s l \<noteq> None"
  proof (cases "fs_n_total e = 0")
    case True
    with write_double_2_Fin [of 0 fd] show ?thesis by (auto simp: fs_ratio_print_def assms(2))
  next
    case False
    then have "0 < unat (fs_n_total e)" by (simp add: unat_gt_0)
    from ratio_defined [OF le(1) this le(2)] False show ?thesis
      using s [OF le(2)] s [OF le_less_trans [OF le]] rep [OF le(2)] rep [OF le_less_trans [OF le]]
      by (simp add: fs_ratio_print_def assms(2))
  qed
qed

lemma load_print_defined:
  assumes "load = map (\<lambda>v. Fin (of_nat v / 65536)) [a, b, c]" and "a < 2 ^ 40" and "b < 2 ^ 40" and "c < 2 ^ 40"
  shows "load_print load fd m s l \<noteq> None"
proof -
  obtain wa wb wc where w: "write_double fd (Fin (of_nat a / 65536)) 2 = Some (wa, 1)"
      "write_double fd (Fin (of_nat b / 65536)) 2 = Some (wb, 1)"
      "write_double fd (Fin (of_nat c / 65536)) 2 = Some (wc, 1)"
    using load_write assms(2-4) by meson
  from load_print_three [OF w] assms(1) show ?thesis by simp
qed

lemma uptime_print_human_defined: "uptime_print_human uptime fd m s l \<noteq> None"
  by (simp add: uptime_print_human_def uptime_part_def write_uint64_eq Let_def)

lemma nusers_print_defined: "0 \<le> n \<Longrightarrow> n < 10 ^ 6 \<Longrightarrow> nusers_print n fd m s l \<noteq> None"
  using user_numbers [of n] by simp

lemma uid_print_defined: "unat uid < 10 ^ 6 \<Longrightarrow> uid_print uid fd m s l \<noteq> None"
  using user_numbers [of 0 uid] by simp

section \<open>Answers of the system within the limits of the code\<close>

text \<open>A file that cannot be opened, or that one \<open>read\<close> delivers with fewer than \<open>n\<close> bytes.\<close>

definition short_file :: "nat \<Rightarrow> stream option \<Rightarrow> bool" where
  "short_file n file \<longleftrightarrow> (case file of
     None \<Rightarrow> True
   | Some fd \<Rightarrow> (case fd of Bytes t # _ \<Rightarrow> length t < n | _ \<Rightarrow> False))"

text \<open>Three load averages below 2^24, and less than 2^53 bytes of memory.\<close>

definition sysinfo_safe :: "sysinfo \<Rightarrow> bool" where
  "sysinfo_safe si \<longleftrightarrow> length (si_loads si) = 3 \<and> list_all (\<lambda>v. unat v < 2 ^ 40) (si_loads si) \<and>
     si_freeram si \<le> si_totalram si \<and> 0 < unat (si_totalram si) * unat (si_mem_unit si) \<and>
     unat (si_totalram si) * unat (si_mem_unit si) < 2 ^ 53"

definition utmpx_safe :: "utmpx list \<times> utmpx list \<Rightarrow> bool" where
  "utmpx_safe db \<longleftrightarrow> snd db = fst db \<and> list_all utmpx_ok (fst db) \<and> prefix_free (set (users (fst db))) \<and>
     card (set (users (fst db))) < 10 ^ 6"

text \<open>File systems of less than 2^53 bytes with no more free blocks than blocks.\<close>

definition mounts_safe :: "statvfs \<Rightarrow> (stream \<times> stream) option \<Rightarrow> bool" where
  "mounts_safe stat mi \<longleftrightarrow> (\<forall>fd fd'. mi = Some (fd, fd') \<longrightarrow> clean fd \<and> content fd \<noteq> [] \<and>
     (\<exists>xs later. fd' = Bytes (concat (map mline_text xs)) # later \<and>
       length (concat (map mline_text xs)) \<le> 2 * length (content fd) \<and> list_all mline_ok xs \<and>
       (\<forall>x \<in> set xs. \<forall>bl bf fr. stat (ml_point x) = Some (bl, bf, fr) \<longrightarrow>
         unat (bl * fr) < 2 ^ 53 \<and> bf * fr \<le> bl * fr)))"

text \<open>The states of all sockets are the documented ones.\<close>

definition sockets_safe :: "stream option \<Rightarrow> bool" where
  "sockets_safe file \<longleftrightarrow> (\<forall>fd. file = Some fd \<longrightarrow> clean fd \<and>
     (\<exists>h xs. content fd = proc_text h xs \<and> LF \<notin> set h \<and> known_lines xs))"

text \<open>The answers that are only asked for in the second loop.\<close>

definition print_answers_safe :: "'tm machine \<Rightarrow> bool" where
  "print_answers_safe mc \<longleftrightarrow>
     mc_gmtime mc (sint (date_seconds (fst (mc_time mc)) (snd (mc_time mc)))) \<noteq> None \<and>
     unat (mc_uid mc) < 10 ^ 6 \<and> (\<exists>p. mc_pw_name mc = Some p \<and> terminated p) \<and>
     (\<forall>ds. mc_proc mc = Some ds \<longrightarrow> list_all (\<lambda>d. d \<noteq> []) ds) \<and>
     (\<forall>k v. mc_getenv mc k = Some v \<longrightarrow> terminated v)"

definition machine_safe :: "'tm machine \<Rightarrow> bool" where
  "machine_safe mc \<longleftrightarrow>
     (\<exists>si. mc_sysinfo mc = Some si \<and> sysinfo_safe si) \<and>
     short_file FMT_ULONG (mc_uptime mc) \<and>
     short_file MAX_BYTES (mc_bat_status mc) \<and> short_file MAX_BYTES (mc_bat_capacity mc) \<and>
     utmpx_safe (mc_utmpx mc) \<and> sorts (mc_qsort mc) \<and> (\<forall>i. zeroed (mc_heap mc i)) \<and>
     mounts_safe (mc_statvfs mc) (mc_mountinfo mc) \<and>
     sockets_safe (mc_tcp4 mc) \<and> sockets_safe (mc_tcp6 mc) \<and>
     print_answers_safe mc"

section \<open>What the initialisers promise\<close>

definition load_safe :: "double list \<Rightarrow> bool" where
  "load_safe load \<longleftrightarrow> (\<exists>a b c. load = map (\<lambda>v. Fin (of_nat v / 65536)) [a, b, c] \<and>
     a < 2 ^ 40 \<and> b < 2 ^ 40 \<and> c < 2 ^ 40)"

definition mem_safe :: "mem_state \<Rightarrow> bool" where
  "mem_safe st \<longleftrightarrow> snd st \<le> fst st \<and> 0 < fst st \<and> unat (fst st) < 2 ^ 53"

definition table_safe :: "fs_table \<Rightarrow> bool" where
  "table_safe fs \<longleftrightarrow> (\<exists>es. fs = Some es \<and> es \<noteq> [] \<and> list_all entry_safe es)"

definition counters_safe :: "tcp_state \<Rightarrow> bool" where
  "counters_safe st \<longleftrightarrow> length (tcp_counters st) = n_tcp_states \<and>
     length (tcp4_counters st) = n_tcp_states \<and> length (tcp6_counters st) = n_tcp_states"

text \<open>The static variables after a successful call, and those that are safe at any time.\<close>

fun promised :: "init_fn \<Rightarrow> statics \<Rightarrow> bool" where
  "promised Load_init st = load_safe (st_load st)"
| "promised Nusers_init st = (0 \<le> st_nusers st \<and> st_nusers st < 10 ^ 6)"
| "promised Bat_init st = (unat (bat_is_charging (st_battery st)) < 2)"
| "promised Mem_init st = mem_safe (st_mem st)"
| "promised Fs_init st = table_safe (st_fs st)"
| "promised Tcp_init st = counters_safe (st_tcp st)"
| "promised No_init st = True"
| "promised Uptime_init st = True"

definition statics_safe :: "statics \<Rightarrow> bool" where
  "statics_safe st \<longleftrightarrow> (st_nusers st = -1 \<or> promised Nusers_init st) \<and> promised Bat_init st \<and>
     (st_mem st = mem_initial \<or> promised Mem_init st) \<and> (st_fs st = None \<or> promised Fs_init st) \<and>
     promised Tcp_init st"

lemma statics_initial_safe: "statics_safe statics_initial"
  by (simp add: statics_safe_def statics_initial_def battery_initial_def tcp_initial_def counters_safe_def)

lemma load_init_safe:
  assumes "sysinfo_safe si"
  shows "\<exists>load'. load_init (get_loadavg (Some si)) load m = (1, load', m\<lparr>mod_ready := True\<rparr>) \<and> load_safe load'"
proof -
  from assms obtain a b c where l: "si_loads si = [a, b, c]" "unat a < 2 ^ 40" "unat b < 2 ^ 40" "unat c < 2 ^ 40"
    by (auto simp: sysinfo_safe_def numeral_3_eq_3 length_Suc_conv)
  then have "load_init (get_loadavg (Some si)) load m =
      (1, map (\<lambda>v. Fin (of_nat v / 65536)) [unat a, unat b, unat c], m\<lparr>mod_ready := True\<rparr>)"
    by (simp add: load_init_def get_loadavg_def load_quotient Let_def del: of_nat_unat)
  with l show ?thesis unfolding load_safe_def by blast
qed

lemma short_file_text:
  assumes "short_file (length b) (Some fd)"
  shows "\<exists>b' n v. read_text fd b = Some b' \<and> length b' = length b \<and> scan_ulong (buf_str b') = Some (n, v) \<and>
    terminated (buf_str b')"
proof -
  from assms obtain t later where fd: "fd = Bytes t # later" "length t < length b"
    by (auto simp: short_file_def split: list.splits chunk.splits)
  let ?b = "map Some t @ Some NUL # drop (Suc (length t)) b"
  obtain rest where s: "buf_str ?b = t @ NUL # rest" using buf_str_prefix by blast
  have "length ?b = length b" using fd(2) by simp
  then show ?thesis
    using read_text_fits [OF fd] scan_ulong_text [of NUL t rest] s by (auto simp: terminated_def)
qed

lemma uptime_init_safe:
  assumes "short_file FMT_ULONG f"
  shows "\<exists>v. uptime_init (get_boottime f) u m = Some (1, v, m\<lparr>mod_ready := True\<rparr>)"
proof (cases f)
  case (Some fd)
  with short_file_text [of "buf_new FMT_ULONG" fd] assms show ?thesis
    by (auto simp: uptime_init_def get_boottime_def)
qed (simp add: uptime_init_def get_boottime_def)

lemma bat_init_safe:
  assumes "short_file MAX_BYTES status" and "short_file MAX_BYTES capacity"
    and "unat (bat_is_charging bi) < 2"
  shows "\<exists>bi' m'. bat_init (get_battery_info status capacity) bi m = Some (1, bi', m') \<and>
    unat (bat_is_charging bi') < 2"
proof -
  have "\<exists>rc bi'. get_battery_info status capacity bi = Some (rc, bi')"
  proof (cases status)
    case (Some fd)
    with short_file_text [of "buf_new MAX_BYTES" fd] assms(1) obtain b where
      b: "read_text fd (buf_new MAX_BYTES) = Some b" "length b = MAX_BYTES" "terminated (buf_str b)" by auto
    have "terminated CHARGING_MARKER" by (simp add: CHARGING_MARKER_def)
    then obtain c where c: "str_start (buf_str b) CHARGING_MARKER = Some c" using b(3) by (simp add: str_start_eq)
    show ?thesis
    proof (cases capacity)
      case (Some fd')
      with short_file_text [of b fd'] assms(2) b(2) \<open>status = Some fd\<close> b(1) c show ?thesis
        by (auto simp: get_battery_info_def Let_def)
    qed (simp add: get_battery_info_def \<open>status = Some fd\<close> b(1) c Let_def)
  qed (simp add: get_battery_info_def)
  then show ?thesis using get_battery_info_flag assms(3) by (auto simp: bat_init_def)
qed

lemma mem_init_safe:
  assumes "sysinfo_safe si" and "st = mem_initial \<or> mem_safe st"
  shows "\<exists>st' m'. mem_init (mem_get_linux (Some si)) st m = (1, st', m') \<and> mem_safe st'"
proof -
  let ?t = "si_totalram si * ucast (si_mem_unit si)" and ?f = "si_freeram si * ucast (si_mem_unit si)"
  let ?u = "unat (si_mem_unit si)"
  from assms(1) have s: "unat (si_freeram si) \<le> unat (si_totalram si)" "0 < unat (si_totalram si) * ?u"
    "unat (si_totalram si) * ?u < 2 ^ 53"
    by (simp_all add: sysinfo_safe_def word_le_nat_alt)
  have le: "unat (si_freeram si) * ?u \<le> unat (si_totalram si) * ?u" using s(1) by (rule mult_le_mono1)
  have "unat ?t = unat (si_totalram si) * ?u" "unat ?f = unat (si_freeram si) * ?u"
  proof -
    have "unat (si_totalram si) * ?u < 2 ^ 64" by (rule less_trans [OF s(3)]) simp
    note this le_less_trans [OF le this]
    then show "unat ?t = unat (si_totalram si) * ?u" "unat ?f = unat (si_freeram si) * ?u"
      by (simp_all only: unat_mult_u32)
  qed
  then have "mem_safe (?t, ?f)" using s le
    by (simp add: mem_safe_def word_le_nat_alt word_less_nat_alt)
  with assms(2) show ?thesis by (cases st) (auto simp: mem_init_def mem_get_linux_def Let_def mem_initial_def)
qed

lemma nusers_init_safe:
  assumes "utmpx_safe db" and "sorts qsort" and "\<And>i. zeroed (heap i)"
    and "n = -1 \<or> 0 \<le> n \<and> n < 10 ^ 6"
  shows "\<exists>n'. nusers_init qsort heap (fst db) (snd db) n m = Some (1, n', m\<lparr>mod_ready := True\<rparr>) \<and>
    0 \<le> n' \<and> n' < 10 ^ 6"
proof (cases "n = -1")
  case True
  with assms nusers_init_count [OF assms(2,3), where us = "fst db" and m = m] show ?thesis
    by (simp add: utmpx_safe_def)
next
  case False
  with assms(4) show ?thesis by (simp add: nusers_init_def)
qed


lemma mounts_entry_safe:
  assumes "list_all mline_ok xs"
    and "\<forall>x \<in> set xs. \<forall>bl bf fr. stat (ml_point x) = Some (bl, bf, fr) \<longrightarrow>
      unat (bl * fr) < 2 ^ 53 \<and> bf * fr \<le> bl * fr"
  shows "list_all entry_safe (mounts stat xs)"
  unfolding list_all_iff
proof
  fix e assume "e \<in> set (mounts stat xs)"
  then obtain x where x: "x \<in> set xs" "e \<in> set (mount_entries stat (ml_point x))" by (auto simp: mounts_def)
  then obtain bl bf fr where "stat (ml_point x) = Some (bl, bf, fr)"
    by (cases "stat (ml_point x)") (auto simp: mount_entries_def)
  with x have "stat (ml_point x) = Some (bl, bf, fr)" "e = fs_entry (ml_point x) (bl * fr) (bf * fr)"
    by (auto simp: mount_entries_def split: if_splits)
  moreover have "is_text (ml_point x)" using assms(1) x(1) by (auto simp: list_all_iff mline_ok_def is_word_text)
  ultimately show "entry_safe e" using assms(2) x(1) by (auto simp: entry_safe_def)
qed

lemma fs_init_safe:
  assumes "mounts_safe stat mi" and "fs = None \<or> table_safe fs"
  shows "\<exists>ws rc fs' m'. fs_init (fs_init_platform stat mi) fs m = Some (ws, rc, fs', m') \<and>
    (fs' = None \<or> table_safe fs') \<and> (rc \<noteq> 0 \<longrightarrow> mod_ready m \<or> table_safe fs')"
proof (cases "fs = None \<and> \<not> mod_ready m")
  case True
  have "\<exists>rc fs'. fs_init_platform stat mi None = Some (rc, fs') \<and> (fs' = None \<or> table_safe fs')"
  proof (cases mi)
    case None
    then show ?thesis by (simp add: fs_init_platform_def)
  next
    case (Some p)
    obtain fd fd' where p: "mi = Some (fd, fd')" using Some by (cases p) auto
    with assms(1) obtain xs later where x: "clean fd" "content fd \<noteq> []" "fd' = Bytes (concat (map mline_text xs)) # later"
      "length (concat (map mline_text xs)) \<le> 2 * length (content fd)" "list_all mline_ok xs"
      "\<forall>x \<in> set xs. \<forall>bl bf fr. stat (ml_point x) = Some (bl, bf, fr) \<longrightarrow>
        unat (bl * fr) < 2 ^ 53 \<and> bf * fr \<le> bl * fr"
      unfolding mounts_safe_def by blast
    from fs_init_platform_lines [OF x(1-5)] mounts_entry_safe [OF x(5,6)] show ?thesis
      unfolding p by (auto simp: fs_extend_def fs_entries_def table_safe_def)
  qed
  then obtain rc fs' where "fs_init_platform stat mi None = Some (rc, fs')" "fs' = None \<or> table_safe fs'"
    by blast
  with True show ?thesis by (cases fs') (simp_all add: fs_init_def)
next
  case False
  with assms(2) show ?thesis by (auto simp: fs_init_def)
qed

lemma sockets_process:
  assumes "sockets_safe (Some fd)"
  shows "\<exists>store rc. process_proc_tcp fd 3 (replicate n_tcp_states 0) n_tcp_states = Some (store, rc) \<and>
    length store = n_tcp_states"
proof -
  from assms obtain h xs where x: "clean fd" "content fd = proc_text h xs" "LF \<notin> set h" "known_lines xs"
    by (auto simp: sockets_safe_def)
  have "list_all line_ok xs" "\<forall>x \<in> set xs. line_state x < n_tcp_states"
    using x(4) known_states [OF x(4)] by (auto simp: known_lines_def list_all_iff)
  from process_lines [OF x(1-3) this] show ?thesis by simp
qed

lemma tcp_init_safe:
  assumes "sockets_safe tcp4" and "sockets_safe tcp6" and "counters_safe st"
  shows "\<exists>rc st' m'. tcp_init tcp4 tcp6 st m = Some (rc, st', m') \<and> counters_safe st'"
proof (cases "tcp_inited st \<or> tcp4 = None")
  case True
  with assms(3) show ?thesis
    by (auto simp: tcp_init_def init_tcp_stats_def init_tcp_stats_via_proc_net_tcp_def)
next
  case False
  then obtain fd4 where fd4: "tcp4 = Some fd4" "\<not> tcp_inited st" by auto
  with assms(1) obtain c4 k4 where c4: "process_proc_tcp fd4 3 (replicate n_tcp_states 0) n_tcp_states = Some (c4, k4)"
    "length c4 = n_tcp_states" using sockets_process by blast
  obtain c6 k6 where c6: "\<And>fd6. tcp6 = Some fd6 \<Longrightarrow>
      process_proc_tcp fd6 3 (replicate n_tcp_states 0) n_tcp_states = Some (c6, k6)"
    "length c6 = n_tcp_states" "tcp6 = None \<Longrightarrow> c6 = replicate n_tcp_states 0"
  proof (cases tcp6)
    case None
    then show ?thesis by (intro that [of "replicate n_tcp_states 0" 0]) simp_all
  next
    case (Some fd6)
    with assms(2) sockets_process obtain c6 k6 where
      "process_proc_tcp fd6 3 (replicate n_tcp_states 0) n_tcp_states = Some (c6, k6)" "length c6 = n_tcp_states"
      by blast
    with Some show ?thesis by (intro that [of c6 k6]) simp_all
  qed
  show ?thesis
    unfolding fd4(1) using tcp_init_tables [OF fd4(2) c4 c6] c4(2) c6(2)
    by (simp add: counters_safe_def with_total_def)
qed


section \<open>The first loop\<close>

lemma machine_safeE:
  assumes "machine_safe mc"
  obtains si where "mc_sysinfo mc = Some si" "sysinfo_safe si"
  using assms unfolding machine_safe_def by blast

lemma call_init_safe:
  assumes mc: "machine_safe mc" and st: "statics_safe st"
  shows "\<exists>ws rc st' m'. call_init f mc st m = Some (ws, Inr (rc, st', m')) \<and> statics_safe st' \<and>
    (rc \<noteq> 0 \<longrightarrow> mod_ready m \<or> promised f st') \<and> (\<forall>g. promised g st \<longrightarrow> promised g st')"
proof -
  obtain si where si: "mc_sysinfo mc = Some si" "sysinfo_safe si" using mc by (rule machine_safeE)
  show ?thesis
  proof (cases f)
    case No_init
    with st show ?thesis by (simp add: no_init_def)
  next
    case Load_init
    from load_init_safe [OF si(2), of "st_load st" m] obtain v where
      v: "load_init (get_loadavg (Some si)) (st_load st) m = (1, v, m\<lparr>mod_ready := True\<rparr>)" "load_safe v" by blast
    have "\<forall>g. promised g st \<longrightarrow> promised g (st\<lparr>st_load := v\<rparr>)"
      by (rule allI, case_tac g) (simp_all add: v(2))
    with st v si show ?thesis by (simp add: Load_init statics_safe_def)
  next
    case Uptime_init
    from mc uptime_init_safe [of "mc_uptime mc" "st_uptime st" m] obtain v where
      v: "uptime_init (get_boottime (mc_uptime mc)) (st_uptime st) m = Some (1, v, m\<lparr>mod_ready := True\<rparr>)"
      by (auto simp: machine_safe_def)
    have "\<forall>g. promised g st \<longrightarrow> promised g (st\<lparr>st_uptime := v\<rparr>)"
      by (rule allI, case_tac g) simp_all
    with st v show ?thesis by (simp add: Uptime_init statics_safe_def)
  next
    case Nusers_init
    from mc st nusers_init_safe [of "mc_utmpx mc" "mc_qsort mc" "mc_heap mc" "st_nusers st" m] obtain n where
      v: "nusers_init (mc_qsort mc) (mc_heap mc) (fst (mc_utmpx mc)) (snd (mc_utmpx mc)) (st_nusers st) m =
        Some (1, n, m\<lparr>mod_ready := True\<rparr>)" "0 \<le> n" "n < 10 ^ 6"
      by (auto simp: machine_safe_def statics_safe_def)
    have "\<forall>g. promised g st \<longrightarrow> promised g (st\<lparr>st_nusers := n\<rparr>)"
      by (rule allI, case_tac g) (simp_all add: v(2) v(3) [simplified])
    with st v show ?thesis by (simp add: Nusers_init statics_safe_def)
  next
    case Bat_init
    from mc st bat_init_safe [of "mc_bat_status mc" "mc_bat_capacity mc" "st_battery st" m] obtain v m' where
      v: "bat_init (get_battery_info (mc_bat_status mc) (mc_bat_capacity mc)) (st_battery st) m = Some (1, v, m')"
        "unat (bat_is_charging v) < 2"
      by (auto simp: machine_safe_def statics_safe_def)
    have "\<forall>g. promised g st \<longrightarrow> promised g (st\<lparr>st_battery := v\<rparr>)"
      by (rule allI, case_tac g) (simp_all add: v(2))
    with st v show ?thesis by (simp add: Bat_init statics_safe_def)
  next
    case Mem_init
    from st mem_init_safe [OF si(2), of "st_mem st" m] obtain v m' where
      v: "mem_init (mem_get_linux (Some si)) (st_mem st) m = (1, v, m')" "mem_safe v"
      by (auto simp: statics_safe_def)
    have "\<forall>g. promised g st \<longrightarrow> promised g (st\<lparr>st_mem := v\<rparr>)"
      by (rule allI, case_tac g) (simp_all add: v(2))
    with st v si show ?thesis by (simp add: Mem_init statics_safe_def)
  next
    case Fs_init
    from mc st fs_init_safe [of "mc_statvfs mc" "mc_mountinfo mc" "st_fs st" m] obtain ws rc v m' where
      v: "fs_init (fs_init_platform (mc_statvfs mc) (mc_mountinfo mc)) (st_fs st) m = Some (ws, rc, v, m')"
        "v = None \<or> table_safe v" "rc \<noteq> 0 \<longrightarrow> mod_ready m \<or> table_safe v"
      by (auto simp: machine_safe_def statics_safe_def)
    have "v = st_fs st" if "st_fs st \<noteq> None" using that v(1) by (simp add: fs_init_def)
    then have "table_safe v" if "table_safe (st_fs st)" using that by (auto simp: table_safe_def)
    then have "\<forall>g. promised g st \<longrightarrow> promised g (st\<lparr>st_fs := v\<rparr>)"
      by (intro allI, case_tac g) simp_all
    with st v show ?thesis by (simp add: Fs_init statics_safe_def)
  next
    case Tcp_init
    from mc st tcp_init_safe [of "mc_tcp4 mc" "mc_tcp6 mc" "st_tcp st" m] obtain rc v m' where
      v: "tcp_init (mc_tcp4 mc) (mc_tcp6 mc) (st_tcp st) m = Some (rc, v, m')" "counters_safe v"
      by (auto simp: machine_safe_def statics_safe_def)
    have "\<forall>g. promised g st \<longrightarrow> promised g (st\<lparr>st_tcp := v\<rparr>)"
      by (rule allI, case_tac g) (simp_all add: v(2))
    with st v show ?thesis by (simp add: Tcp_init statics_safe_def)
  qed
qed

section \<open>The second loop\<close>

lemma color8_defined:
  assumes "k < 4" and "s \<noteq> []" and "last s \<noteq> CHR ''8''"
  shows "do { c \<leftarrow> last_char (cstring s) (length s); color8_print fd c (int k) } \<noteq> None"
proof -
  have "s = butlast s @ [last s]" using assms(2) by simp
  then obtain t c where "s = t @ [c]" "c \<noteq> CHR ''8''" using assms(3) by blast
  with color8_print_eq [OF assms(1), of fd c] show ?thesis
    using last_char_snoc [of t c] by auto
qed

lemma xterm256_defined:
  assumes "mod_name m = cstring nm" and "is_text nm"
  shows "xterm256_print fd m (cstring (nm @ t)) l mode \<noteq> None"
  using xterm256_print_eq [OF assms, of fd t l mode] by (simp add: Let_def)

lemma rgb_defined:
  assumes "mod_name m = cstring nm" and "is_text nm"
  shows "rgb_print fd m (cstring (nm @ h)) (length (nm @ h)) mode \<noteq> None"
  using rgb_print_eq [OF assms, of fd h mode] by simp

lemma ntcp_print_loop_defined:
  assumes "counters_safe st" and "i \<le> n_tcp_states"
  shows "ntcp_print_loop st fd i \<noteq> None"
  using ntcp_print_loop_eq [of st i fd] assms by (auto simp: counters_safe_def)

lemma tcp_print_at_safe: "i < length counters \<Longrightarrow> tcp_print_at fd counters i \<noteq> None"
  by (simp add: tcp_print_at_def arr_get_def tcp_print_num_def u64_fmt.exact)

lemma counters_print_defined:
  assumes "counters_safe st"
  shows "tcp_print_at fd (tcp_counters st) TCP_ESTABLISHED \<noteq> None" "tcp_print_at fd (tcp_counters st) TCP_LISTEN \<noteq> None"
    "tcp_print_at fd (tcp_counters st) TCP_CLOSING \<noteq> None" "tcp_print_at fd (tcp_counters st) INDEX_TOTAL \<noteq> None"
    "tcp_print_at fd (tcp4_counters st) TCP_ESTABLISHED \<noteq> None" "tcp_print_at fd (tcp4_counters st) TCP_LISTEN \<noteq> None"
    "tcp_print_at fd (tcp4_counters st) TCP_CLOSING \<noteq> None" "tcp_print_at fd (tcp4_counters st) INDEX_TOTAL \<noteq> None"
    "tcp_print_at fd (tcp6_counters st) TCP_ESTABLISHED \<noteq> None" "tcp_print_at fd (tcp6_counters st) TCP_LISTEN \<noteq> None"
    "tcp_print_at fd (tcp6_counters st) TCP_CLOSING \<noteq> None" "tcp_print_at fd (tcp6_counters st) INDEX_TOTAL \<noteq> None"
  using assms
  by (intro tcp_print_at_safe; simp add: counters_safe_def n_tcp_states_def INDEX_TOTAL_def TCP_ESTABLISHED_def
      TCP_LISTEN_def TCP_CLOSING_def)+

lemma ntcp_print_defined: "counters_safe st \<Longrightarrow> ntcp_print st fd \<noteq> None"
  using ntcp_print_loop_defined [of st 0 fd] by (auto simp: ntcp_print_def tcp_print_num_def u64_fmt.exact)

lemma bat_charging_human_defined:
  assumes "unat (bat_is_charging bi) < 2" and "\<forall>k v. getenv k = Some v \<longrightarrow> terminated v"
  shows "bat_charging_human_print getenv bi fd \<noteq> None"
proof -
  have "\<exists>r. os_getenv_or_def (getenv k) (cstring d) = Some r" for k d
    using assms(2) by (cases "getenv k") (auto simp: os_getenv_or_def_def str_len_eq Let_def)
  then show ?thesis using assms(1)
    by (auto simp: bat_charging_human_print_def s1s2_def Let_def split: prod.splits)
qed

lemma call_print_safe:
  assumes mc: "print_answers_safe mc" and ini: "promised (reads (mod_print m)) st"
    and m: "mod_name m = cstring nm" and t: "is_text (nm @ t)"
    and col: "mod_print m \<in> color8_modules \<Longrightarrow> nm @ t \<noteq> [] \<and> last (nm @ t) \<noteq> CHR ''8''"
  shows "call_print (mod_print m) mc st fd m (cstring (nm @ t)) (length (nm @ t)) \<noteq> None"
proof -
  let ?s = "cstring (nm @ t)" and ?l = "length (nm @ t)"
  have nm: "is_text nm" using t by simp
  have c8: "do { c \<leftarrow> last_char ?s ?l; color8_print fd c k } \<noteq> None"
    if "k \<in> {0, 1, 2, 3}" "mod_print m \<in> color8_modules" for k
  proof -
    from that(1) have "k = int (nat k)" "nat k < 4" by auto
    with color8_defined [of "nat k" "nm @ t" fd] col [OF that(2)] show ?thesis by metis
  qed
  have fs: "fs_total_print (st_fs st) fd m ?s ?l \<noteq> None" "fs_total_human_print (st_fs st) fd m ?s ?l \<noteq> None"
    "fs_free_print (st_fs st) fd m ?s ?l \<noteq> None" "fs_free_human_print (st_fs st) fd m ?s ?l \<noteq> None"
    "fs_used_print (st_fs st) fd m ?s ?l \<noteq> None" "fs_used_human_print (st_fs st) fd m ?s ?l \<noteq> None"
    "fs_ratio_print (st_fs st) fd m ?s ?l \<noteq> None" if "table_safe (st_fs st)"
  proof -
    from that obtain es where es: "st_fs st = Some es" "es \<noteq> []" "list_all entry_safe es"
      by (auto simp: table_safe_def)
    from fs_select_safe [OF m t es(3,2)] obtain e where "entry_safe e" "fs_select m (st_fs st) ?s ?l = Some e"
      unfolding es(1) by blast
    note fs_prints_defined [OF this, of fd]
    then show "fs_total_print (st_fs st) fd m ?s ?l \<noteq> None" "fs_total_human_print (st_fs st) fd m ?s ?l \<noteq> None"
      "fs_free_print (st_fs st) fd m ?s ?l \<noteq> None" "fs_free_human_print (st_fs st) fd m ?s ?l \<noteq> None"
      "fs_used_print (st_fs st) fd m ?s ?l \<noteq> None" "fs_used_human_print (st_fs st) fd m ?s ?l \<noteq> None"
      "fs_ratio_print (st_fs st) fd m ?s ?l \<noteq> None" .
  qed
  have tcp: "ntcp_print (st_tcp st) fd \<noteq> None" if "counters_safe (st_tcp st)"
    using that by (rule ntcp_print_defined)
  note cnt = counters_print_defined [of "st_tcp st" fd]
  have mem: "write_uint64_human fd 1 (fst (st_mem st)) \<noteq> None" "write_uint64_human fd 1 (snd (st_mem st)) \<noteq> None"
    if "mem_safe (st_mem st)"
  proof -
    have "unat (snd (st_mem st)) \<le> unat (fst (st_mem st))" "unat (fst (st_mem st)) < 2 * 10 ^ 18"
      using that by (simp_all add: mem_safe_def word_le_nat_alt)
    then show "write_uint64_human fd 1 (fst (st_mem st)) \<noteq> None" "write_uint64_human fd 1 (snd (st_mem st)) \<noteq> None"
      by (intro write_human_defined; linarith)+
  qed
  show ?thesis
  proof (cases "mod_print m")
    case Pass_print
    show ?thesis unfolding Pass_print using m nm by (simp add: pass_print_def)
  next
    case Nl_print
    then show ?thesis by (simp add: nl_print_def)
  next
    case Load_print
    with ini show ?thesis using load_print_defined by (auto simp: load_safe_def)
  next
    case Date_print
    with mc m nm show ?thesis by (auto simp: print_answers_safe_def date_print_def Let_def split: prod.splits)
  next
    case Uid_print
    with mc show ?thesis using uid_print_defined by (simp add: print_answers_safe_def)
  next
    case User_print
    with mc show ?thesis by (auto simp: print_answers_safe_def user_print_def str_len_eq)
  next
    case Nusers_print
    with ini show ?thesis using nusers_print_defined by simp
  next
    case Nproc_print
    with mc show ?thesis
      by (auto simp: print_answers_safe_def nproc_print_def get_number_active_processes_def count_procs_eq djb_fmt.exact
          split: option.splits)
  next
    case Bat_charging_human_print
    with mc ini show ?thesis using bat_charging_human_defined by (simp add: print_answers_safe_def)
  next
    case Mem_ratio_print
    with ini show ?thesis using mem_ratio_defined by (simp add: mem_safe_def)
  next
    case Mem_free_human_print
    with ini mem show ?thesis by (simp add: mem_free_human_print_def)
  next
    case Mem_total_human_print
    with ini mem show ?thesis by (simp add: mem_total_human_print_def)
  next
    case Uptime_print_human
    then show ?thesis using uptime_print_human_defined by simp
  next
    case Xterm256_fg_print
    then show ?thesis using xterm256_defined [OF m nm] by (simp add: xterm256_fg_print_def)
  next
    case Xterm256_bg_print
    then show ?thesis using xterm256_defined [OF m nm] by (simp add: xterm256_bg_print_def)
  next
    case Rgb_fg_print
    then show ?thesis using rgb_defined [OF m nm, of fd t] by (simp add: rgb_fg_print_def)
  next
    case Rgb_bg_print
    then show ?thesis using rgb_defined [OF m nm, of fd t] by (simp add: rgb_bg_print_def)
  next
    case Color8_fg_normal_print
    then show ?thesis using c8 [of 0] by (simp add: color8_fg_normal_print_def color8_modules_def)
  next
    case Color8_fg_bright_print
    then show ?thesis using c8 [of 1] by (simp add: color8_fg_bright_print_def color8_modules_def)
  next
    case Color8_bg_normal_print
    then show ?thesis using c8 [of 2] by (simp add: color8_bg_normal_print_def color8_modules_def)
  next
    case Color8_bg_bright_print
    then show ?thesis using c8 [of 3] by (simp add: color8_bg_bright_print_def color8_modules_def)
  next
    case Ncpus_print
    then show ?thesis by (simp add: ncpus_print_def djb_fmt.exact)
  qed (use ini fs tcp cnt in \<open>simp_all add: uptime_print_def write_uint64_eq bat_level_print_def bat_charging_print_def
      djb_fmt.fixed_20 FMT_ULONG_def mem_free_print_def mem_total_print_def mem_print_def u64_fmt.fixed_20 color_off_def
      ntcp_established_print_def ntcp_all_print_def ntcp_listen_print_def ntcp_closing_print_def
      ntcp4_established_print_def ntcp4_all_print_def ntcp4_listen_print_def ntcp4_closing_print_def
      ntcp6_established_print_def ntcp6_all_print_def ntcp6_listen_print_def ntcp6_closing_print_def\<close>)
qed

section \<open>The whole program\<close>

lemma machine_safe_print: "machine_safe mc \<Longrightarrow> print_answers_safe mc"
  by (simp add: machine_safe_def)

interpretation linux_safe: safe_build call_init statics_ok machine_safe statics_safe promised "\<lambda>f. True" "{1}" call_print
proof unfold_locales
  fix mc :: "'tm machine" and st f m
  assume "machine_safe mc" "statics_safe st"
  from call_init_safe [OF this, of f m]
  show "(\<exists>ws code. call_init f mc st m = Some (ws, Inl code) \<and> code \<in> {1}) \<or>
      (\<exists>ws rc st' m'. call_init f mc st m = Some (ws, Inr (rc, st', m')) \<and> statics_safe st' \<and>
        (rc = 0 \<longrightarrow> 1 \<in> {1}) \<and> (rc \<noteq> 0 \<longrightarrow> mod_ready m \<or> promised f st') \<and> (\<forall>g. promised g st \<longrightarrow> promised g st'))" by blast
next
  fix mc :: "'tm machine" and m :: ustat_module and st nm t fd
  assume "machine_safe mc" "promised (reads (mod_print m)) st" "mod_name m = cstring nm" "is_text (nm @ t)"
    and "mod_print m \<in> color8_modules \<Longrightarrow> nm @ t \<noteq> [] \<and> last (nm @ t) \<noteq> CHR ''8''"
  then show "call_print (mod_print m) mc st fd m (cstring (nm @ t)) (length (nm @ t)) \<noteq> None"
    by (intro call_print_safe machine_safe_print) simp_all
qed (simp_all add: statics_initial_safe)

end
