(* ===== verification/Depends.thy ===== *)
theory Depends
  imports Runs
begin

text \<open>
  What a run depends on. Two builds, or two systems, give the same output when they agree on what the
  selected modules ask for; the locale \<open>same_runs\<close> carries this from single calls to whole runs. On
  Linux a module asks for the answers that \<open>init_agree\<close> and \<open>print_agree\<close> name, and the files that it
  opens, with \<^verbatim>\<open>djb/open_read.c\<close>, are those of \<open>opened_files\<close>.
\<close>

section \<open>Two runs\<close>

text \<open>
  What \<open>main\<close> uses of a call of \<open>init\<close>: the writes, as far as an observer sees them, the exit code,
  whether the result is 0, and the static variables and the module when the run goes on.
\<close>

definition seen ::
  "(out \<Rightarrow> 'v) \<Rightarrow> out \<times> (int + int \<times> statics \<times> ustat_module) \<Rightarrow>
     'v \<times> (int + ustat_module + statics \<times> ustat_module)" where
  "seen view c = (case c of (ws, r) \<Rightarrow> (view ws, (case r of
     Inl code \<Rightarrow> Inl code
   | Inr (rc, st, m) \<Rightarrow> Inr (if rc = 0 then Inl m else Inr (st, m)))))"

text \<open>
  Two pairs of dispatchers, and for each function pointer the relation of the answers for which both
  behave in the same way, as long as an invariant of the static variables holds.
\<close>

locale same_runs = initialiser ini sane
  for ini :: "'a caller" and sane :: "statics \<Rightarrow> bool" +
  fixes ini' :: "'b caller" and prt :: "'a printer" and prt' :: "'b printer"
    and view :: "out \<Rightarrow> 'v"
    and agree :: "init_fn \<Rightarrow> 'a \<Rightarrow> 'b \<Rightarrow> bool" and agree' :: "print_fn \<Rightarrow> 'a \<Rightarrow> 'b \<Rightarrow> bool"
    and inv :: "statics \<Rightarrow> bool"
  assumes starts: "inv statics_initial"
    and view_append: "view v = view v' \<Longrightarrow> view w = view w' \<Longrightarrow> view (v @ w) = view (v' @ w')"
    and init_same: "agree f mc mc' \<Longrightarrow> inv st \<Longrightarrow>
      map_option (seen view) (ini f mc st m) = map_option (seen view) (ini' f mc' st m)"
    and stays: "agree f mc mc' \<Longrightarrow> inv st \<Longrightarrow> ini f mc st m = Some (ws, Inr (rc, st', m')) \<Longrightarrow> rc \<noteq> 0 \<Longrightarrow> inv st'"
    and print_same: "agree' p mc mc' \<Longrightarrow> prt p mc st = prt' p mc' st"
begin

lemma init_same_cases:
  assumes "agree f mc mc'" and "inv st"
  obtains (undefined) "ini f mc st m = None" "ini' f mc' st m = None"
  | (ended) ws ws' code where "ini f mc st m = Some (ws, Inl code)" "ini' f mc' st m = Some (ws', Inl code)" "view ws = view ws'"
  | (failed) ws ws' st1 st2 m' where "ini f mc st m = Some (ws, Inr (0, st1, m'))"
      "ini' f mc' st m = Some (ws', Inr (0, st2, m'))" "view ws = view ws'"
  | (worked) ws ws' rc rc' st' m' where "ini f mc st m = Some (ws, Inr (rc, st', m'))" "rc \<noteq> 0"
      "ini' f mc' st m = Some (ws', Inr (rc', st', m'))" "rc' \<noteq> 0" "view ws = view ws'" "inv st'"
proof (cases "ini f mc st m")
  case None
  with init_same [OF assms, of m] undefined show ?thesis by simp
next
  case (Some c)
  obtain ws r where c: "c = (ws, r)" by (cases c)
  from Some init_same [OF assms, of m] obtain ws' r' where
    c': "ini' f mc' st m = Some (ws', r')" "seen view (ws, r) = seen view (ws', r')" unfolding c by (auto simp: map_option_case split: option.splits)
  note i = Some [unfolded c] c'(1)
  show ?thesis
  proof (cases r)
    case (Inl code)
    with c'(2) have "r' = Inl code" "view ws = view ws'" by (cases r'; auto simp: seen_def)+
    with i Inl ended show ?thesis by blast
  next
    case (Inr x)
    obtain rc st1 m1 where x: "x = (rc, st1, m1)" by (cases x)
    with Inr c'(2) obtain rc' st2 m2 where x': "r' = Inr (rc', st2, m2)" by (cases r') (auto simp: seen_def)
    with Inr x c'(2) have "rc = 0 \<longleftrightarrow> rc' = 0" "m1 = m2" "view ws = view ws'" "rc \<noteq> 0 \<longrightarrow> st1 = st2"
      by (auto simp: seen_def split: if_splits)
    with i Inr x x' failed worked stays [OF assms, of m ws rc st1 m1] show ?thesis by (cases "rc = 0") auto
  qed
qed

lemma init_arg_same:
  assumes "terminated arg" and "same_table modules mods" and "inv st" and "agree (mod_init (chosen arg)) mc mc'"
  shows "map_option (apfst view) (init_arg ini mc arg mods st) = map_option (apfst view) (init_arg ini' mc' arg mods st)"
    and "init_arg ini mc arg mods st = Some (ws, Inr (mods', st', k)) \<Longrightarrow> inv st'"
proof -
  let ?j = "selected modules (ctext arg)"
  have len: "length mods = nmodules" "mods \<noteq> []"
    using same_table_length [OF assms(2)] length_modules by (auto simp: nmodules_def)
  have names: "names_ok mods" by (rule names_ok_same [OF assms(2) names_ok_modules])
  have f: "find_module arg mods 1 = Some ?j"
    using find_module_selected [OF assms(1) names len(2)] selected_same [OF assms(2)] by simp
  have l: "str_len arg = Some (length (ctext arg))" using assms(1) by (simp add: str_len_eq)
  have a: "agree (mod_init (mods ! ?j)) mc mc'" if "?j < nmodules"
    using assms(4) that same_table_fields(2) [OF assms(2)] by (simp add: chosen_def nmodules_def)
  have both: "map_option (apfst view) (init_arg ini mc arg mods st) = map_option (apfst view) (init_arg ini' mc' arg mods st)
    \<and> (\<forall>ws mods' st' k. init_arg ini mc arg mods st = Some (ws, Inr (mods', st', k)) \<longrightarrow> inv st')"
  proof (cases "?j < nmodules \<and> \<not> mod_ready (mods ! ?j)")
    case True
    then have ag: "agree (mod_init (mods ! ?j)) mc mc'" by (intro a) simp
    from True have on: "?j < length mods" "\<not> mod_ready (mods ! ?j)" by (simp_all add: len)
    from ag assms(3) show ?thesis
    proof (cases rule: init_same_cases [where m = "mods ! ?j"])
      case (failed ws ws' st1 st2 m')
      from view_append [OF failed(3) refl] show ?thesis
        unfolding init_arg_def f using on l failed(1,2)
        by (auto simp: map_option_bind comp_def intro!: Option.bind_cong)
    qed (unfold init_arg_def f, use on l in \<open>auto split: if_splits\<close>)
  next
    case False
    then have "\<not> (?j < length mods \<and> \<not> mod_ready (mods ! ?j))" by (simp add: len)
    with assms(3) show ?thesis unfolding init_arg_def f by auto
  qed
  show "map_option (apfst view) (init_arg ini mc arg mods st) = map_option (apfst view) (init_arg ini' mc' arg mods st)"
    using both by blast
  show "inv st'" if "init_arg ini mc arg mods st = Some (ws, Inr (mods', st', k))" using both that by blast
qed

lemma init_args_same:
  assumes "list_all terminated args" and "same_table modules mods" and "inv st"
    and "\<forall>n < length args. agree (mod_init (chosen (args ! n))) (mach (i + n)) (mach' (i + n))"
  shows "map_option (apfst view) (init_args ini mach i args mods st) =
    map_option (apfst view) (init_args ini' mach' i args mods st)"
  using assms
proof (induction args arbitrary: i mods st)
  case Nil
  then show ?case by simp
next
  case (Cons arg args)
  from Cons.prems(4) [rule_format, of 0] have a: "agree (mod_init (chosen arg)) (mach i) (mach' i)" by simp
  from Cons.prems(1) have t: "terminated arg" "list_all terminated args" by simp_all
  note same = init_arg_same [OF t(1) Cons.prems(2,3) a]
  have IH: "map_option (apfst view) (init_args ini mach (i + 1) args mods1 st1) =
      map_option (apfst view) (init_args ini' mach' (i + 1) args mods1 st1)"
    if m: "init_arg ini (mach i) arg mods st = Some (ws, Inr (mods1, st1, k))" for ws mods1 st1 k
  proof (rule Cons.IH [OF t(2)])
    have "mods \<noteq> []" using same_table_length [OF Cons.prems(2)] length_modules by auto
    with init_arg_frame [OF m t(1) names_ok_same [OF Cons.prems(2) names_ok_modules]]
    show "same_table modules mods1" using same_table_trans [OF Cons.prems(2)] by blast
    show "inv st1" by (rule same(2) [OF m])
    show "\<forall>n < length args. agree (mod_init (chosen (args ! n))) (mach (i + 1 + n)) (mach' (i + 1 + n))"
      using Cons.prems(4) [rule_format, of "Suc n" for n] by simp
  qed
  show ?case
  proof (cases "init_arg ini (mach i) arg mods st")
    case None
    with same(1) show ?thesis by simp
  next
    case (Some c)
    obtain ws r where c: "c = (ws, r)" by (cases c)
    from same(1) Some c obtain ws' where c': "init_arg ini' (mach' i) arg mods st = Some (ws', r)" "view ws = view ws'"
      by (auto simp: map_option_case split: option.splits)
    show ?thesis
    proof (cases r)
      case (Inl code)
      with Some c c' show ?thesis by simp
    next
      case (Inr x)
      obtain mods1 st1 k where x: "x = (mods1, st1, k)" by (cases x)
      from IH [OF Some [unfolded c Inr x]] Some c c' Inr x show ?thesis
        by (cases "init_args ini mach (i + 1) args mods1 st1"; cases "init_args ini' mach' (i + 1) args mods1 st1")
          (auto intro: view_append [OF c'(2)])
    qed
  qed
qed

lemma print_args_same:
  assumes "same_table modules mods"
    and "\<forall>n < length args. agree' (mod_print (chosen (args ! n))) (mach (i + n)) (mach' (i + n))"
  shows "print_args prt mach i args (map (\<lambda>arg. selected modules (ctext arg) mod nmodules) args) mods st =
    print_args prt' mach' i args (map (\<lambda>arg. selected modules (ctext arg) mod nmodules) args) mods st"
  using assms(2)
proof (induction args arbitrary: i)
  case Nil
  then show ?case by simp
next
  case (Cons arg args)
  have IH: "print_args prt mach (i + 1) args (map (\<lambda>arg. selected modules (ctext arg) mod nmodules) args) mods st =
      print_args prt' mach' (i + 1) args (map (\<lambda>arg. selected modules (ctext arg) mod nmodules) args) mods st"
    by (rule Cons.IH) (use Cons.prems [rule_format, of "Suc n" for n] in simp)
  have "selected modules (ctext arg) mod nmodules < length modules" using length_modules by (simp add: nmodules_def)
  then have "agree' (mod_print (mods ! (selected modules (ctext arg) mod nmodules))) (mach i) (mach' i)"
    using Cons.prems [rule_format, of 0] same_table_fields(3) [OF assms(1)] by (simp add: chosen_def)
  from print_same [OF this] show ?case by (simp only: list.map print_args.simps IH)
qed

lemma run_same:
  assumes "list_all terminated args"
    and "\<forall>n < length args. agree (mod_init (chosen (args ! n))) (mach (n + 1)) (mach' (n + 1))"
    and "\<forall>n < length args. agree' (mod_print (chosen (args ! n))) (mach2 (n + 1)) (mach2' (n + 1))"
  shows "map_option (apfst view) (main_of ini prt mach mach2 args) =
    map_option (apfst view) (main_of ini' prt' mach' mach2' args)"
proof -
  let ?run = "\<lambda>prt mach2 i. do {
    (ws, r) \<leftarrow> i;
    (case r of
       Inl code \<Rightarrow> Some (ws, code)
     | Inr (mods, st, js) \<Rightarrow> do {
         ws' \<leftarrow> print_args prt mach2 1 args js mods st;
         Some (ws @ ws', 0) }) }"
  let ?i = "init_args ini mach 1 args modules statics_initial" and ?i' = "init_args ini' mach' 1 args modules statics_initial"
  have i: "map_option (apfst view) ?i = map_option (apfst view) ?i'"
    using assms(2) by (intro init_args_same assms(1) same_table_refl starts) (simp add: add.commute)
  have p: "print_args prt mach2 1 args js mods st = print_args prt' mach2' 1 args js mods st"
    if m: "?i = Some (ws, Inr (mods, st, js))" for ws mods st js
  proof -
    from init_args_frame [OF m assms(1) names_ok_modules modules_ne]
    have "same_table modules mods" "js = map (\<lambda>arg. selected modules (ctext arg) mod nmodules) args"
      by (simp_all add: nmodules_def)
    with print_args_same [of mods args mach2 1 mach2'] assms(3) show ?thesis by (simp add: add.commute)
  qed
  have "map_option (apfst view) (?run prt mach2 ?i) = map_option (apfst view) (?run prt' mach2' ?i')"
  proof (cases ?i)
    case None
    with i show ?thesis by simp
  next
    case (Some c)
    obtain ws r where c: "c = (ws, r)" by (cases c)
    from i Some c obtain ws' where c': "?i' = Some (ws', r)" "view ws = view ws'"
      by (auto simp: map_option_case split: option.splits)
    show ?thesis
    proof (cases r)
      case (Inl code)
      with Some c c' show ?thesis by simp
    next
      case (Inr x)
      obtain mods st js where x: "x = (mods, st, js)" by (cases x)
      from p [OF Some [unfolded c Inr x]] Some c c' Inr x view_append [OF c'(2) refl] show ?thesis
        by (simp del: One_nat_def add: map_option_bind comp_def)
    qed
  qed
  then show ?thesis
    unfolding main_of_def
    by (cases "case args of [arg] \<Rightarrow> do { d \<leftarrow> str_diffn arg (cstring ''-h'') 2; Some (d = 0) } | _ \<Rightarrow> Some False")
      (simp_all del: One_nat_def init_args.simps print_args.simps)
qed

end

section \<open>What the modules ask for on Linux\<close>

text \<open>Two systems give an initialiser, or a print function, the same answers.\<close>

fun init_agree :: "init_fn \<Rightarrow> 'tm machine \<Rightarrow> 'tm machine \<Rightarrow> bool" where
  "init_agree No_init a b \<longleftrightarrow> True"
| "init_agree Load_init a b \<longleftrightarrow> mc_sysinfo a = mc_sysinfo b"
| "init_agree Uptime_init a b \<longleftrightarrow> mc_uptime a = mc_uptime b"
| "init_agree Nusers_init a b \<longleftrightarrow> mc_utmpx a = mc_utmpx b \<and> mc_qsort a = mc_qsort b \<and> mc_heap a = mc_heap b"
| "init_agree Bat_init a b \<longleftrightarrow> mc_bat_status a = mc_bat_status b \<and> mc_bat_capacity a = mc_bat_capacity b"
| "init_agree Mem_init a b \<longleftrightarrow> mc_sysinfo a = mc_sysinfo b"
| "init_agree Fs_init a b \<longleftrightarrow> mc_mountinfo a = mc_mountinfo b \<and> mc_statvfs a = mc_statvfs b"
| "init_agree Tcp_init a b \<longleftrightarrow> mc_tcp4 a = mc_tcp4 b \<and> mc_tcp6 a = mc_tcp6 b"

fun print_agree :: "print_fn \<Rightarrow> 'tm machine \<Rightarrow> 'tm machine \<Rightarrow> bool" where
  "print_agree Date_print a b \<longleftrightarrow> mc_time a = mc_time b \<and> mc_gmtime a = mc_gmtime b \<and> mc_strftime a = mc_strftime b"
| "print_agree Uid_print a b \<longleftrightarrow> mc_uid a = mc_uid b"
| "print_agree User_print a b \<longleftrightarrow> mc_pw_name a = mc_pw_name b"
| "print_agree Nproc_print a b \<longleftrightarrow> mc_proc a = mc_proc b"
| "print_agree Ncpus_print a b \<longleftrightarrow> mc_ncpus a = mc_ncpus b"
| "print_agree Bat_charging_human_print a b \<longleftrightarrow> mc_getenv a = mc_getenv b"
| "print_agree _ a b \<longleftrightarrow> True"

lemma call_init_agree: "init_agree f a b \<Longrightarrow> call_init f a st m = call_init f b st m"
  by (cases f) simp_all

lemma call_print_agree: "print_agree p a b \<Longrightarrow> call_print p a st = call_print p b st"
  by (cases p) simp_all

interpretation linux_same: same_runs call_init statics_ok call_init call_print call_print "\<lambda>ws. ws" init_agree print_agree "\<lambda>st. True"
  by unfold_locales (simp_all add: call_init_agree call_print_agree)

lemma linux_same_run:
  assumes "list_all terminated args"
    and "\<forall>n < length args. init_agree (mod_init (chosen (args ! n))) (mach (n + 1)) (other (n + 1))"
    and "\<forall>n < length args. print_agree (mod_print (chosen (args ! n))) (mach' (n + 1)) (other' (n + 1))"
  shows "ustat_main mach mach' args = ustat_main other other' args"
proof -
  have "apfst (\<lambda>ws. ws) = (\<lambda>r :: out \<times> int. r)" by auto
  with linux_same.run_same [OF assms] show ?thesis by (simp add: ustat_main_def option.map_ident)
qed

text \<open>
  C10. A run depends only on what the modules named by its arguments ask the system for: two systems that
  agree on these answers, in each round of the two loops, get the same output and exit code, or both
  undefined behaviour. The table \<open>init_agree\<close> and \<open>print_agree\<close> lists what each module may ask.
\<close>

theorem main_depends:
  assumes "list_all terminated args"
    and "\<forall>n < length args. init_agree (mod_init (chosen (args ! n))) (mach (n + 1)) (other (n + 1))"
    and "\<forall>n < length args. print_agree (mod_print (chosen (args ! n))) (mach' (n + 1)) (other' (n + 1))"
  shows "ustat_main mach mach' args = ustat_main other other' args"
  using assms by (rule linux_same_run)

theorem main_depends_witness:
  "ustat_main (\<lambda>i. example_machine) (\<lambda>i. example_machine) (map cstring [''load'', '' '', ''uid'']) =
    ustat_main (\<lambda>i. example_machine\<lparr>mc_mountinfo := None, mc_tcp4 := None, mc_uptime := None\<rparr>)
      (\<lambda>i. example_machine\<lparr>mc_sysinfo := None, mc_proc := None\<rparr>) (map cstring [''load'', '' '', ''uid''])"
proof -
  have c: "mod_init (chosen (cstring ''load'')) = Load_init" "mod_print (chosen (cstring ''load'')) = Load_print"
    "mod_init (chosen (cstring '' '')) = No_init" "mod_print (chosen (cstring '' '')) = Pass_print"
    "mod_init (chosen (cstring ''uid'')) = No_init" "mod_print (chosen (cstring ''uid'')) = Uid_print"
    by code_simp+
  show ?thesis by (rule main_depends) (simp_all add: All_less_Suc c)
qed

section \<open>Files\<close>

text \<open>
  \<^verbatim>\<open>djb/open_read.c\<close>: \<open>opn\<close> is the system call, with the name of a file and the flags; the values of
  the flags are those of Linux.
\<close>

definition O_RDONLY :: int where "O_RDONLY = 0"
definition O_NDELAY :: int where "O_NDELAY = 0x800"

definition open_read :: "(string \<Rightarrow> int \<Rightarrow> 'fd option) \<Rightarrow> string \<Rightarrow> 'fd option" where
  "open_read opn fn = opn fn (or O_RDONLY O_NDELAY)"

text \<open>The names of the files that the program opens.\<close>

definition UPTIME_FILE :: string where "UPTIME_FILE = ''/proc/uptime''"
definition STATUS_FILE :: string where "STATUS_FILE = ''/sys/class/power_supply/BAT0/status''"
definition CAPACITY_FILE :: string where "CAPACITY_FILE = ''/sys/class/power_supply/BAT0/capacity''"
definition MOUNTINFO :: string where "MOUNTINFO = ''/proc/self/mountinfo''"
definition tcpv4_name :: string where "tcpv4_name = ''/proc/net/tcp''"
definition tcpv6_name :: string where "tcpv6_name = ''/proc/net/tcp6''"

text \<open>
  A descriptor: what calls of \<open>read\<close> deliver from the start, and what they deliver after \<open>lseek\<close> to the
  start. The open calls of the modules, on a system that answers \<open>open\<close> by \<open>opn\<close>.
\<close>

definition with_files ::
  "(string \<Rightarrow> int \<Rightarrow> (stream \<times> stream) option) \<Rightarrow> 'tm machine \<Rightarrow> 'tm machine" where
  "with_files opn mc = (let fd = (\<lambda>fn. map_option fst (open_read opn fn)) in mc\<lparr>
     mc_uptime := fd UPTIME_FILE, mc_bat_status := fd STATUS_FILE, mc_bat_capacity := fd CAPACITY_FILE,
     mc_mountinfo := open_read opn MOUNTINFO, mc_tcp4 := fd tcpv4_name, mc_tcp6 := fd tcpv6_name\<rparr>)"

fun opened_files :: "init_fn \<Rightarrow> string list" where
  "opened_files Uptime_init = [UPTIME_FILE]"
| "opened_files Bat_init = [STATUS_FILE, CAPACITY_FILE]"
| "opened_files Fs_init = [MOUNTINFO]"
| "opened_files Tcp_init = [tcpv4_name, tcpv6_name]"
| "opened_files _ = []"

lemma with_files_init_agree:
  assumes "\<forall>fn \<in> set (opened_files f). opn fn (or O_RDONLY O_NDELAY) = opn' fn (or O_RDONLY O_NDELAY)"
  shows "init_agree f (with_files opn mc) (with_files opn' mc)"
  using assms by (cases f) (simp_all add: with_files_def open_read_def Let_def)

lemma with_files_print_agree: "print_agree p (with_files opn mc) (with_files opn' mc)"
  by (cases p) (simp_all add: with_files_def Let_def)



end
