(* ===== verification/Tcp_bsd.thy ===== *)
theory Tcp_bsd
  imports Tcp
begin

text \<open>
  \<^verbatim>\<open>ustat_tcp_bsd.c\<close> and the numbers of the states in \<^verbatim>\<open>ustat_tcp.c\<close> for the BSDs: the counters are
  filled from the list of control blocks that \<open>sysctlbyname("net.inet.tcp.pcblist")\<close> delivers.
\<close>

section \<open>States and control blocks\<close>

text \<open>The enumeration \<open>TCPS_CLOSED\<close>, \dots, \<open>TCPS_TIME_WAIT\<close> of the system runs from 0 to 10.\<close>

definition BSD_TCP_STATE_FIRST :: nat where "BSD_TCP_STATE_FIRST = 0"
definition BSD_TCP_STATE_LAST :: nat where "BSD_TCP_STATE_LAST = 10"
definition BSD_INDEX_TOTAL :: nat where "BSD_INDEX_TOTAL = BSD_TCP_STATE_LAST + 1"

text \<open>
  The bytes that \<open>sysctlbyname\<close> stores, as the code reads them: their number and, for a structure
  that starts at an offset, the members \<open>xig_len\<close> of \<open>struct xinpgen\<close> and \<open>xt_len\<close>, \<open>t_state\<close> and
  \<open>inp_vflag\<close> of \<open>struct xtcpcb\<close>. The layouts depend on the system; \<open>nx\<close> and \<open>nt\<close> are the sizes of
  the two structures.
\<close>

record pcblist =
  pl_size :: nat
  pl_xig_len :: "nat \<Rightarrow> nat"
  pl_xt_len :: "nat \<Rightarrow> nat"
  pl_state :: "nat \<Rightarrow> u32"
  pl_vflag :: "nat \<Rightarrow> u8"

definition INP_IPV4 :: u8 where "INP_IPV4 = 1"
definition INP_IPV6 :: u8 where "INP_IPV6 = 2"

section \<open>Counting\<close>

text \<open>One control block; the state is an \<open>int\<close> that becomes a \<open>size_t\<close>.\<close>

definition count_pcb ::
  "u32 \<Rightarrow> u8 \<Rightarrow> u64 list \<times> u64 list \<Rightarrow> (u64 list \<times> u64 list) option" where
  "count_pcb state vflag c = (let i = unat (scast state :: u64) in
     if and vflag INP_IPV4 \<noteq> 0 then do { c4 \<leftarrow> arr_add (fst c) i 1; Some (c4, snd c) }
     else if and vflag INP_IPV6 \<noteq> 0 then do { c6 \<leftarrow> arr_add (snd c) i 1; Some (fst c, c6) }
     else Some c)"

text \<open>
  \<open>for (;;)\<close>: the loop has no bound of its own, it ends at the trailing \<open>struct xinpgen\<close>, at the
  offset \<open>l - nx\<close>, or at a block of another size. Here \<^term>\<open>None\<close> is also a loop that never ends.
\<close>

partial_function (option) pcb_loop ::
  "pcblist \<Rightarrow> nat \<Rightarrow> nat \<Rightarrow> nat \<Rightarrow> u64 list \<times> u64 list \<Rightarrow> int \<Rightarrow> ((u64 list \<times> u64 list) \<times> int) option" where
  "pcb_loop pl nx nt xig c rc = (let xig = xig + pl_xig_len pl xig in
     if pl_size pl - nx \<le> xig then Some (c, rc)
     else if pl_xt_len pl xig \<noteq> nt then Some (c, rc)
     else if pl_size pl < xig + nt then None
     else do {
       c \<leftarrow> count_pcb (pl_state pl xig) (pl_vflag pl xig) c;
       pcb_loop pl nx nt xig c 1 })"

definition xinpgen_mismatch :: cstr where
  "xinpgen_mismatch = cstring (''struct xinpgen size mismatch'' @ [LF])"

text \<open>
  The arguments are the results of the two calls of \<open>sysctlbyname\<close>, \<^term>\<open>None\<close> being a failure. The
  result holds the writes, and an exit code or the result with the counters.
\<close>

definition init_tcp_stats_bsd ::
  "nat \<Rightarrow> nat \<Rightarrow> nat option \<Rightarrow> pcblist option \<Rightarrow> tcp_state \<Rightarrow> (out \<times> (int + int \<times> tcp_state)) option" where
  "init_tcp_stats_bsd nx nt sz pcbs st = (case sz of
     None \<Rightarrow> Some ([], Inr (0, st))
   | Some _ \<Rightarrow> (case pcbs of
       None \<Rightarrow> Some ([], Inr (0, st))
     | Some pl \<Rightarrow>
         if pl_size pl < nx then None
         else if pl_xig_len pl 0 \<noteq> nx \<or> pl_xig_len pl (pl_size pl - nx) \<noteq> nx then do {
           (ws, code) \<leftarrow> os_exit 2 (Some xinpgen_mismatch);
           Some (ws, Inl code) }
         else do {
           ((c4, c6), rc) \<leftarrow> pcb_loop pl nx nt 0 (tcp4_counters st, tcp6_counters st) 0;
           if rc = 0 then Some ([], Inr (0, st\<lparr>tcp4_counters := c4, tcp6_counters := c6\<rparr>))
           else do {
             (all, c4) \<leftarrow> sum_counters BSD_TCP_STATE_FIRST BSD_TCP_STATE_LAST BSD_INDEX_TOTAL (tcp_counters st) c4;
             (all, c6) \<leftarrow> sum_counters BSD_TCP_STATE_FIRST BSD_TCP_STATE_LAST BSD_INDEX_TOTAL all c6;
             Some ([], Inr (rc, st\<lparr>tcp_counters := all, tcp4_counters := c4, tcp6_counters := c6\<rparr>)) }}))"

section \<open>Lists of sockets\<close>

text \<open>A socket, and the bytes for a list of sockets: a header, the blocks and a trailer.\<close>

record pcb =
  pcb_state :: nat
  pcb_vflag :: u8

definition pcb_bytes :: "nat \<Rightarrow> nat \<Rightarrow> pcb list \<Rightarrow> pcblist" where
  "pcb_bytes nx nt es = (let end_xig = nx + length es * nt; pcb = (\<lambda>p. es ! ((p - nx) div nt)) in
     \<lparr>pl_size = end_xig + nx, pl_xig_len = (\<lambda>p. if p = 0 \<or> p = end_xig then nx else nt),
      pl_xt_len = (\<lambda>p. nt), pl_state = (\<lambda>p. of_nat (pcb_state (pcb p))), pl_vflag = (\<lambda>p. pcb_vflag (pcb p))\<rparr>)"

definition is_ipv4 :: "pcb \<Rightarrow> bool" where
  "is_ipv4 e \<longleftrightarrow> and (pcb_vflag e) INP_IPV4 \<noteq> 0"

definition is_ipv6 :: "pcb \<Rightarrow> bool" where
  "is_ipv6 e \<longleftrightarrow> \<not> is_ipv4 e \<and> and (pcb_vflag e) INP_IPV6 \<noteq> 0"

abbreviation states :: "(pcb \<Rightarrow> bool) \<Rightarrow> pcb list \<Rightarrow> nat list" where
  "states p es \<equiv> map pcb_state (filter p es)"

lemma count_pcb_eq:
  assumes "pcb_state e < length c4" and "pcb_state e < length c6" and "pcb_state e < 2 ^ 31"
  shows "count_pcb (of_nat (pcb_state e)) (pcb_vflag e) (c4, c6) =
    Some (foldl bump c4 (states is_ipv4 [e]), foldl bump c6 (states is_ipv6 [e]))"
proof -
  have "unat (scast (of_nat (pcb_state e) :: u32) :: u64) = pcb_state e"
    using assms(3) by (simp add: scast_u32 unat_of_nat)
  then show ?thesis using assms
    by (simp add: count_pcb_def Let_def is_ipv4_def is_ipv6_def arr_add_def bump_def)
qed

lemma pcb_loop_layout:
  assumes "0 < nx" and "0 < nt" and "k \<le> length es"
    and "xig + pl_xig_len (pcb_bytes nx nt es) xig = nx + k * nt"
    and "length c4 = n_tcp_states" and "length c6 = n_tcp_states"
    and "\<forall>e \<in> set es. pcb_state e \<le> BSD_TCP_STATE_LAST"
  shows "pcb_loop (pcb_bytes nx nt es) nx nt xig (c4, c6) rc =
    Some ((foldl bump c4 (states is_ipv4 (drop k es)), foldl bump c6 (states is_ipv6 (drop k es))),
      if k = length es then rc else 1)"
  using assms(3-6)
proof (induction "length es - k" arbitrary: k xig c4 c6 rc)
  case 0
  then show ?case by (subst pcb_loop.simps) (simp add: pcb_bytes_def Let_def)
next
  case (Suc n)
  let ?pl = "pcb_bytes nx nt es" and ?p = "nx + k * nt"
  have k: "k < length es" using Suc.hyps(2) by simp
  have at: "?p < nx + length es * nt" using k assms(2) by simp
  have d: "drop k es = es ! k # drop (Suc k) es" using k by (simp add: Cons_nth_drop_Suc)
  have nth: "es ! ((?p - nx) div nt) = es ! k" using assms(2) by simp
  have e: "pcb_state (es ! k) \<le> BSD_TCP_STATE_LAST" using assms(7) k by auto
  have c: "count_pcb (pl_state ?pl ?p) (pl_vflag ?pl ?p) (c4, c6) =
      Some (foldl bump c4 (states is_ipv4 [es ! k]), foldl bump c6 (states is_ipv6 [es ! k]))"
    using count_pcb_eq [of "es ! k" c4 c6] e Suc.prems(3,4) assms(2)
    by (simp add: pcb_bytes_def Let_def BSD_TCP_STATE_LAST_def n_tcp_states_def)
  have fit: "\<not> pl_size ?pl - nx \<le> ?p" "pl_xt_len ?pl ?p = nt" "\<not> pl_size ?pl < ?p + nt"
  proof -
    have "k * nt + nt \<le> length es * nt" using k mult_le_mono1 [of "Suc k" "length es" nt] by simp
    then show "\<not> pl_size ?pl < ?p + nt" by (simp add: pcb_bytes_def Let_def)
  qed (use at in \<open>simp_all add: pcb_bytes_def Let_def\<close>)
  have nxt: "?p + pl_xig_len ?pl ?p = nx + Suc k * nt" using assms(1) at by (simp add: pcb_bytes_def Let_def)
  have "pcb_loop ?pl nx nt xig (c4, c6) rc =
      pcb_loop ?pl nx nt ?p (foldl bump c4 (states is_ipv4 [es ! k]), foldl bump c6 (states is_ipv6 [es ! k])) 1"
    using Suc.prems(2) fit c by (subst pcb_loop.simps) (simp add: Let_def)
  also have "\<dots> = Some ((foldl bump c4 (states is_ipv4 (drop k es)), foldl bump c6 (states is_ipv6 (drop k es))), 1)"
    using Suc.hyps(1) [of "Suc k" ?p] nxt k Suc.hyps(2) Suc.prems(3,4) by (simp add: d)
  finally show ?case using k by simp
qed


lemma bsd_sum_counters:
  assumes "length to = n_tcp_states" and "length from = n_tcp_states" and "from ! BSD_INDEX_TOTAL = 0"
  shows "sum_counters BSD_TCP_STATE_FIRST BSD_TCP_STATE_LAST BSD_INDEX_TOTAL to from =
    (let n = sum_list (map ((!) from) [0..<11]) in
     Some (map2 (+) to (from[BSD_INDEX_TOTAL := n]), from[BSD_INDEX_TOTAL := n]))"
proof -
  have maps: "map (\<lambda>k. if k = 11 then to ! k + w else if 0 \<le> k \<and> k \<le> 10 then to ! k + from ! k else to ! k)
      [0..<length to] = map2 (+) to (from[11 := w])" for w
    using assms by (intro nth_equalityI) (auto simp: n_tcp_states_def nth_list_update)
  have "sum_counters 0 10 11 to from = (let w = from ! 11 + sum_list (map ((!) from) [0..<10 + 1]) in
      Some (map2 (+) to (from[11 := w]), from[11 := w]))"
    using sum_counters_eq [of 10 "from" to 11 0] assms(1,2) unfolding maps by (simp add: n_tcp_states_def)
  moreover have "[0..<10 + 1] = [0..<11::nat]" by (simp add: upt_rec)
  ultimately show ?thesis
    using assms(3) by (simp add: BSD_TCP_STATE_FIRST_def BSD_TCP_STATE_LAST_def BSD_INDEX_TOTAL_def Let_def)
qed

text \<open>
  C27. On the BSDs: a list with at least one socket fills the tables; each table of a protocol counts
  its sockets by state with their number at the index of the total, and the combined table is the sum.
  Without any socket the initialisation fails, and the program with it.
\<close>

theorem bsd_init_counts:
  assumes "0 < nx" and "0 < nt" and "list_all (\<lambda>e. pcb_state e \<le> BSD_TCP_STATE_LAST) es"
  shows "let c = (\<lambda>p. map (\<lambda>i. of_nat (if i = BSD_INDEX_TOTAL then length (filter p es)
        else count_list (states p es) i)) [0..<n_tcp_states]) in
    init_tcp_stats_bsd nx nt (Some l) (Some (pcb_bytes nx nt es)) tcp_initial =
    Some ([], Inr (if es = [] then (0, tcp_initial)
      else (1, tcp_initial\<lparr>tcp_counters := map2 (+) (c is_ipv4) (c is_ipv6),
        tcp4_counters := c is_ipv4, tcp6_counters := c is_ipv6\<rparr>)))"
proof -
  let ?pl = "pcb_bytes nx nt es"
  let ?f = "\<lambda>p. foldl bump (replicate n_tcp_states 0) (states p es)"
  let ?c = "\<lambda>p. map (\<lambda>i. of_nat (if i = BSD_INDEX_TOTAL then length (filter p es)
    else count_list (states p es) i)) [0..<n_tcp_states] :: u64 list"
  have st: "\<forall>e \<in> set es. pcb_state e \<le> BSD_TCP_STATE_LAST" using assms(3) by (simp add: list_all_iff)
  have nth: "?f p ! i = of_nat (count_list (states p es) i)" if "i < n_tcp_states" for p i
    using that st by (subst foldl_bump_nth) (auto simp: n_tcp_states_def BSD_TCP_STATE_LAST_def)
  have z: "?f p ! BSD_INDEX_TOTAL = 0" for p
  proof -
    have "BSD_INDEX_TOTAL \<notin> set (states p es)" using st by (auto simp: BSD_INDEX_TOTAL_def)
    then have "count_list (states p es) BSD_INDEX_TOTAL = 0" by (simp only: count_list_0_iff not_False_eq_True)
    moreover have "BSD_INDEX_TOTAL < n_tcp_states"
      by (simp add: BSD_INDEX_TOTAL_def BSD_TCP_STATE_LAST_def n_tcp_states_def)
    ultimately show ?thesis by (simp only: nth semiring_1_class.of_nat_0)
  qed
  have total: "sum_list (map ((!) (?f p)) [0..<11]) = of_nat (length (filter p es))" for p
  proof -
    have "map ((!) (?f p)) [0..<11] = map (\<lambda>i. of_nat (count_list (states p es) i)) [0..<11]"
      by (intro map_cong refl nth) (simp add: n_tcp_states_def)
    moreover have "set (states p es) \<subseteq> {0..<11}" using st by (auto simp: BSD_TCP_STATE_LAST_def)
    ultimately show ?thesis using sum_counts [of "states p es" 0 11] by (simp only: length_map)
  qed
  have tab: "(?f p)[BSD_INDEX_TOTAL := of_nat (length (filter p es))] = ?c p" for p
    using nth by (intro nth_equalityI)
      (auto simp: nth_list_update BSD_INDEX_TOTAL_def BSD_TCP_STATE_LAST_def n_tcp_states_def)
  have loop: "pcb_loop ?pl nx nt 0 (replicate n_tcp_states 0, replicate n_tcp_states 0) 0 =
      Some ((?f is_ipv4, ?f is_ipv6), if es = [] then 0 else 1)"
    using pcb_loop_layout [OF assms(1,2), of 0 es 0] st by (simp add: pcb_bytes_def Let_def)
  have head: "pl_xig_len ?pl 0 = nx" "pl_xig_len ?pl (pl_size ?pl - nx) = nx" "\<not> pl_size ?pl < nx"
    by (simp_all add: pcb_bytes_def Let_def)
  have zero: "map2 (+) (replicate n_tcp_states 0) (?c p) = ?c p" for p
    by (rule nth_equalityI) simp_all
  have s4: "sum_counters BSD_TCP_STATE_FIRST BSD_TCP_STATE_LAST BSD_INDEX_TOTAL (replicate n_tcp_states 0) (?f is_ipv4) =
      Some (?c is_ipv4, ?c is_ipv4)"
    using bsd_sum_counters [of "replicate n_tcp_states 0" "?f is_ipv4"] z
    unfolding Let_def total tab zero by simp
  have s6: "sum_counters BSD_TCP_STATE_FIRST BSD_TCP_STATE_LAST BSD_INDEX_TOTAL (?c is_ipv4) (?f is_ipv6) =
      Some (map2 (+) (?c is_ipv4) (?c is_ipv6), ?c is_ipv6)"
    using bsd_sum_counters [of "?c is_ipv4" "?f is_ipv6"] z unfolding Let_def total tab by simp
  show ?thesis
  proof (cases "es = []")
    case True
    then show ?thesis
      using head loop by (simp add: init_tcp_stats_bsd_def tcp_initial_def)
  next
    case False
    then show ?thesis
      using head loop s4 s6 by (simp add: init_tcp_stats_bsd_def tcp_initial_def Let_def)
  qed
qed

theorem bsd_init_counts_witness:
  "\<exists>st. init_tcp_stats_bsd 24 208 (Some 1024) (Some (pcb_bytes 24 208 [\<lparr>pcb_state = 4, pcb_vflag = INP_IPV4\<rparr>,
      \<lparr>pcb_state = 1, pcb_vflag = INP_IPV6\<rparr>])) tcp_initial = Some ([], Inr (1, st)) \<and>
    tcp_counters st ! BSD_INDEX_TOTAL = 2"
proof -
  have "list_all (\<lambda>e. pcb_state e \<le> BSD_TCP_STATE_LAST) [\<lparr>pcb_state = 4, pcb_vflag = INP_IPV4\<rparr>,
      \<lparr>pcb_state = 1, pcb_vflag = INP_IPV6\<rparr>]" by code_simp
  from bsd_init_counts [OF _ _ this, of 24 208 1024] show ?thesis
    by (simp add: BSD_INDEX_TOTAL_def BSD_TCP_STATE_LAST_def n_tcp_states_def is_ipv4_def is_ipv6_def
        INP_IPV4_def INP_IPV6_def)
qed

end
