(* ===== verification/Bsd.thy ===== *)
theory Bsd
  imports Depends Steps Tcp_bsd
begin

text \<open>
  The program in a build for a BSD or for macOS: the dispatch of the function pointers to the platform's
  functions, the enumeration of the states of sockets that the BSD part of \<^verbatim>\<open>ustat_tcp.c\<close> selects, and
  runs of the whole program.
\<close>

section \<open>The modules of the sockets\<close>

text \<open>
  The enumeration for the BSDs, whose numbers are \<open>TCPS_CLOSED\<close>, \dots, \<open>TCPS_TIME_WAIT\<close> of the
  system.
\<close>

definition BSD_TCP_CLOSE :: nat where "BSD_TCP_CLOSE = 0"
definition BSD_TCP_LISTEN :: nat where "BSD_TCP_LISTEN = 1"
definition BSD_TCP_SYN_SENT :: nat where "BSD_TCP_SYN_SENT = 2"
definition BSD_TCP_SYN_RECV :: nat where "BSD_TCP_SYN_RECV = 3"
definition BSD_TCP_ESTABLISHED :: nat where "BSD_TCP_ESTABLISHED = 4"
definition BSD_TCP_CLOSE_WAIT :: nat where "BSD_TCP_CLOSE_WAIT = 5"
definition BSD_TCP_FIN_WAIT1 :: nat where "BSD_TCP_FIN_WAIT1 = 6"
definition BSD_TCP_CLOSING :: nat where "BSD_TCP_CLOSING = 7"
definition BSD_TCP_LAST_ACK :: nat where "BSD_TCP_LAST_ACK = 8"
definition BSD_TCP_FIN_WAIT2 :: nat where "BSD_TCP_FIN_WAIT2 = 9"
definition BSD_TCP_TIME_WAIT :: nat where "BSD_TCP_TIME_WAIT = 10"

lemmas bsd_tcp_enum = BSD_TCP_CLOSE_def BSD_TCP_LISTEN_def BSD_TCP_SYN_SENT_def BSD_TCP_SYN_RECV_def
  BSD_TCP_ESTABLISHED_def BSD_TCP_CLOSE_WAIT_def BSD_TCP_FIN_WAIT1_def BSD_TCP_CLOSING_def BSD_TCP_LAST_ACK_def
  BSD_TCP_FIN_WAIT2_def BSD_TCP_TIME_WAIT_def BSD_TCP_STATE_FIRST_def BSD_TCP_STATE_LAST_def BSD_INDEX_TOTAL_def

text \<open>Every counter but the total is that of exactly one enumerator.\<close>

lemma bsd_tcp_enum_complete:
  "[BSD_TCP_CLOSE, BSD_TCP_LISTEN, BSD_TCP_SYN_SENT, BSD_TCP_SYN_RECV, BSD_TCP_ESTABLISHED, BSD_TCP_CLOSE_WAIT,
     BSD_TCP_FIN_WAIT1, BSD_TCP_CLOSING, BSD_TCP_LAST_ACK, BSD_TCP_FIN_WAIT2, BSD_TCP_TIME_WAIT] =
     [BSD_TCP_STATE_FIRST..<Suc BSD_TCP_STATE_LAST]"
  "BSD_INDEX_TOTAL = Suc BSD_TCP_TIME_WAIT" "Suc BSD_INDEX_TOTAL = n_tcp_states"
  by (simp_all add: bsd_tcp_enum n_tcp_states_def upt_rec)

text \<open>
  \<open>tcp_init\<close> with the platform's \<open>_init_tcp_stats\<close>, which may end the program.
\<close>

definition bsd_tcp_init ::
  "(tcp_state \<Rightarrow> (out \<times> (int + int \<times> tcp_state)) option) \<Rightarrow> tcp_state \<Rightarrow> ustat_module \<Rightarrow>
     (out \<times> (int + int \<times> tcp_state \<times> ustat_module)) option" where
  "bsd_tcp_init stats st m =
     (if tcp_inited st then Some ([], Inr (1, st, m\<lparr>mod_ready := True\<rparr>))
      else do {
        (ws, r) \<leftarrow> stats st;
        (case r of
           Inl code \<Rightarrow> Some (ws, Inl code)
         | Inr (rc, st) \<Rightarrow>
             if rc = 0 then Some (ws, Inr (0, st, m))
             else Some (ws, Inr (1, st\<lparr>tcp_inited := True\<rparr>, m\<lparr>mod_ready := True\<rparr>))) })"

definition bsd_ntcp_established_print :: "tcp_state \<Rightarrow> nat \<Rightarrow> printed" where
  "bsd_ntcp_established_print st fd = tcp_print_at fd (tcp_counters st) BSD_TCP_ESTABLISHED"
definition bsd_ntcp_all_print :: "tcp_state \<Rightarrow> nat \<Rightarrow> printed" where
  "bsd_ntcp_all_print st fd = tcp_print_at fd (tcp_counters st) BSD_INDEX_TOTAL"
definition bsd_ntcp_closing_print :: "tcp_state \<Rightarrow> nat \<Rightarrow> printed" where
  "bsd_ntcp_closing_print st fd = tcp_print_at fd (tcp_counters st) BSD_TCP_CLOSING"
definition bsd_ntcp_listen_print :: "tcp_state \<Rightarrow> nat \<Rightarrow> printed" where
  "bsd_ntcp_listen_print st fd = tcp_print_at fd (tcp_counters st) BSD_TCP_LISTEN"
definition bsd_ntcp6_established_print :: "tcp_state \<Rightarrow> nat \<Rightarrow> printed" where
  "bsd_ntcp6_established_print st fd = tcp_print_at fd (tcp6_counters st) BSD_TCP_ESTABLISHED"
definition bsd_ntcp6_all_print :: "tcp_state \<Rightarrow> nat \<Rightarrow> printed" where
  "bsd_ntcp6_all_print st fd = tcp_print_at fd (tcp6_counters st) BSD_INDEX_TOTAL"
definition bsd_ntcp6_closing_print :: "tcp_state \<Rightarrow> nat \<Rightarrow> printed" where
  "bsd_ntcp6_closing_print st fd = tcp_print_at fd (tcp6_counters st) BSD_TCP_CLOSING"
definition bsd_ntcp6_listen_print :: "tcp_state \<Rightarrow> nat \<Rightarrow> printed" where
  "bsd_ntcp6_listen_print st fd = tcp_print_at fd (tcp6_counters st) BSD_TCP_LISTEN"
definition bsd_ntcp4_established_print :: "tcp_state \<Rightarrow> nat \<Rightarrow> printed" where
  "bsd_ntcp4_established_print st fd = tcp_print_at fd (tcp4_counters st) BSD_TCP_ESTABLISHED"
definition bsd_ntcp4_all_print :: "tcp_state \<Rightarrow> nat \<Rightarrow> printed" where
  "bsd_ntcp4_all_print st fd = tcp_print_at fd (tcp4_counters st) BSD_INDEX_TOTAL"
definition bsd_ntcp4_closing_print :: "tcp_state \<Rightarrow> nat \<Rightarrow> printed" where
  "bsd_ntcp4_closing_print st fd = tcp_print_at fd (tcp4_counters st) BSD_TCP_CLOSING"
definition bsd_ntcp4_listen_print :: "tcp_state \<Rightarrow> nat \<Rightarrow> printed" where
  "bsd_ntcp4_listen_print st fd = tcp_print_at fd (tcp4_counters st) BSD_TCP_LISTEN"

definition bsd_ntcp_print :: "tcp_state \<Rightarrow> nat \<Rightarrow> printed" where
  "bsd_ntcp_print st fd = do {
     (a, _) \<leftarrow> tcp_print_num fd (of_nat BSD_INDEX_TOTAL);
     rest \<leftarrow> ntcp_print_loop st fd 0;
     Some (a @ [(fd, '':'')] @ rest, 1) }"

section \<open>The machine\<close>

text \<open>
  What a BSD answers. The type of an entry of \<open>utmpx\<close> is only compared with \<open>USER_PROCESS\<close>; its
  values are those of \<open>Users\<close>, as is the length of the names. A build for macOS is one for a BSD in
  which the macro \<open>__APPLE__\<close> selects other functions for the battery and the memory: \<open>bm_apple\<close> holds
  what they are told, and is \<^term>\<open>None\<close> in the other builds.
\<close>

record apple =
  ap_sources :: "power_source list"
  ap_vm_pages :: "(u32 \<times> u32 \<times> u32 \<times> u32) option"

record 'tm bsd_machine =
  bm_apple :: "apple option"
  bm_loadavg :: "(u32 list \<times> int) option"
  bm_boottime :: "int option"
  bm_now :: int
  bm_utmpx :: "utmpx list \<times> utmpx list"
  bm_qsort :: qsort
  bm_heap :: "nat \<Rightarrow> name_t"
  bm_phys_pages :: int
  bm_page_size :: int
  bm_t_free :: "u64 option"
  bm_mnts :: "statfs list"
  bm_xinpgen_size :: nat
  bm_xtcpcb_size :: nat
  bm_pcblist_size :: "nat option"
  bm_pcblist :: "pcblist option"
  bm_time :: "u64 \<times> u64"
  bm_gmtime :: "int \<Rightarrow> 'tm option"
  bm_strftime :: "nat \<Rightarrow> string \<Rightarrow> 'tm \<Rightarrow> string"
  bm_uid :: u32
  bm_pw_name :: "cstr option"
  bm_procs_size :: "u64 option"
  bm_kinfo_size :: u64
  bm_ncpus :: int
  bm_getenv :: "string \<Rightarrow> cstr option"

section \<open>Calls through the function pointers\<close>

fun bsd_call_init :: "init_fn \<Rightarrow> 'tm bsd_machine \<Rightarrow> statics \<Rightarrow> ustat_module \<Rightarrow> inited" where
  "bsd_call_init No_init mc st m = no_init st m"
| "bsd_call_init Load_init mc st m = (case load_init (get_loadavg_bsd (bm_loadavg mc)) (st_load st) m of
     (rc, v, m) \<Rightarrow> Some ([], Inr (rc, st\<lparr>st_load := v\<rparr>, m)))"
| "bsd_call_init Uptime_init mc st m = do {
     (rc, v, m) \<leftarrow> uptime_init (get_boottime_bsd (bm_boottime mc) (bm_now mc)) (st_uptime st) m;
     Some ([], Inr (rc, st\<lparr>st_uptime := v\<rparr>, m)) }"
| "bsd_call_init Nusers_init mc st m = do {
     (rc, v, m) \<leftarrow> nusers_init (bm_qsort mc) (bm_heap mc) (fst (bm_utmpx mc)) (snd (bm_utmpx mc))
       (st_nusers st) m;
     Some ([], Inr (rc, st\<lparr>st_nusers := v\<rparr>, m)) }"
| "bsd_call_init Bat_init mc st m = do {
     (rc, v, m) \<leftarrow> bat_init (case bm_apple mc of
         None \<Rightarrow> get_battery_info_none
       | Some a \<Rightarrow> get_battery_info_osx (ap_sources a)) (st_battery st) m;
     Some ([], Inr (rc, st\<lparr>st_battery := v\<rparr>, m)) }"
| "bsd_call_init Mem_init mc st m =
     (case mem_init (case bm_apple mc of
          None \<Rightarrow> mem_get_bsd (bm_phys_pages mc) (bm_page_size mc) (bm_t_free mc)
        | Some a \<Rightarrow> mem_get_osx (bm_page_size mc) (ap_vm_pages a)) (st_mem st) m of
        (rc, v, m) \<Rightarrow> Some ([], Inr (rc, st\<lparr>st_mem := v\<rparr>, m)))"
| "bsd_call_init Fs_init mc st m = do {
     (ws, rc, v, m) \<leftarrow> fs_init (fs_init_platform_other (bm_mnts mc)) (st_fs st) m;
     Some (ws, Inr (rc, st\<lparr>st_fs := v\<rparr>, m)) }"
| "bsd_call_init Tcp_init mc st m = do {
     (ws, r) \<leftarrow> bsd_tcp_init (init_tcp_stats_bsd (bm_xinpgen_size mc) (bm_xtcpcb_size mc)
       (bm_pcblist_size mc) (bm_pcblist mc)) (st_tcp st) m;
     Some (ws, map_sum (\<lambda>code. code) (\<lambda>(rc, v, m). (rc, st\<lparr>st_tcp := v\<rparr>, m)) r) }"

fun bsd_call_print ::
  "print_fn \<Rightarrow> 'tm bsd_machine \<Rightarrow> statics \<Rightarrow> nat \<Rightarrow> ustat_module \<Rightarrow> cstr \<Rightarrow> nat \<Rightarrow> printed" where
  "bsd_call_print Pass_print mc st = pass_print"
| "bsd_call_print Nl_print mc st = nl_print"
| "bsd_call_print Load_print mc st = load_print (st_load st)"
| "bsd_call_print Uptime_print_human mc st = uptime_print_human (st_uptime st)"
| "bsd_call_print Uptime_print mc st = uptime_print (st_uptime st)"
| "bsd_call_print Date_print mc st = date_print (bm_gmtime mc) (bm_strftime mc) (bm_time mc)"
| "bsd_call_print Uid_print mc st = uid_print (bm_uid mc)"
| "bsd_call_print User_print mc st = user_print (bm_pw_name mc)"
| "bsd_call_print Nusers_print mc st = nusers_print (st_nusers st)"
| "bsd_call_print Nproc_print mc st = nproc_print (get_number_active_processes_bsd (bm_procs_size mc) (bm_kinfo_size mc))"
| "bsd_call_print Ncpus_print mc st = ncpus_print (bm_ncpus mc)"
| "bsd_call_print Bat_level_print mc st = (\<lambda>fd m s l. bat_level_print (st_battery st) fd)"
| "bsd_call_print Bat_charging_human_print mc st =
     (\<lambda>fd m s l. bat_charging_human_print (bm_getenv mc) (st_battery st) fd)"
| "bsd_call_print Bat_charging_print mc st = (\<lambda>fd m s l. bat_charging_print (st_battery st) fd)"
| "bsd_call_print Mem_free_human_print mc st = mem_free_human_print (st_mem st)"
| "bsd_call_print Mem_free_print mc st = mem_free_print (st_mem st)"
| "bsd_call_print Mem_ratio_print mc st = mem_ratio_print (st_mem st)"
| "bsd_call_print Mem_total_human_print mc st = mem_total_human_print (st_mem st)"
| "bsd_call_print Mem_total_print mc st = mem_total_print (st_mem st)"
| "bsd_call_print Fs_total_human_print mc st = fs_total_human_print (st_fs st)"
| "bsd_call_print Fs_total_print mc st = fs_total_print (st_fs st)"
| "bsd_call_print Fs_ratio_print mc st = fs_ratio_print (st_fs st)"
| "bsd_call_print Fs_free_human_print mc st = fs_free_human_print (st_fs st)"
| "bsd_call_print Fs_free_print mc st = fs_free_print (st_fs st)"
| "bsd_call_print Fs_used_human_print mc st = fs_used_human_print (st_fs st)"
| "bsd_call_print Fs_used_print mc st = fs_used_print (st_fs st)"
| "bsd_call_print Ntcp6_established_print mc st = (\<lambda>fd m s l. bsd_ntcp6_established_print (st_tcp st) fd)"
| "bsd_call_print Ntcp6_listen_print mc st = (\<lambda>fd m s l. bsd_ntcp6_listen_print (st_tcp st) fd)"
| "bsd_call_print Ntcp6_closing_print mc st = (\<lambda>fd m s l. bsd_ntcp6_closing_print (st_tcp st) fd)"
| "bsd_call_print Ntcp6_all_print mc st = (\<lambda>fd m s l. bsd_ntcp6_all_print (st_tcp st) fd)"
| "bsd_call_print Ntcp4_established_print mc st = (\<lambda>fd m s l. bsd_ntcp4_established_print (st_tcp st) fd)"
| "bsd_call_print Ntcp4_listen_print mc st = (\<lambda>fd m s l. bsd_ntcp4_listen_print (st_tcp st) fd)"
| "bsd_call_print Ntcp4_closing_print mc st = (\<lambda>fd m s l. bsd_ntcp4_closing_print (st_tcp st) fd)"
| "bsd_call_print Ntcp4_all_print mc st = (\<lambda>fd m s l. bsd_ntcp4_all_print (st_tcp st) fd)"
| "bsd_call_print Ntcp_print mc st = (\<lambda>fd m s l. bsd_ntcp_print (st_tcp st) fd)"
| "bsd_call_print Ntcp_established_print mc st = (\<lambda>fd m s l. bsd_ntcp_established_print (st_tcp st) fd)"
| "bsd_call_print Ntcp_listen_print mc st = (\<lambda>fd m s l. bsd_ntcp_listen_print (st_tcp st) fd)"
| "bsd_call_print Ntcp_closing_print mc st = (\<lambda>fd m s l. bsd_ntcp_closing_print (st_tcp st) fd)"
| "bsd_call_print Ntcp_all_print mc st = (\<lambda>fd m s l. bsd_ntcp_all_print (st_tcp st) fd)"
| "bsd_call_print Color_off mc st = color_off"
| "bsd_call_print Color8_fg_normal_print mc st = color8_fg_normal_print"
| "bsd_call_print Color8_fg_bright_print mc st = color8_fg_bright_print"
| "bsd_call_print Color8_bg_normal_print mc st = color8_bg_normal_print"
| "bsd_call_print Color8_bg_bright_print mc st = color8_bg_bright_print"
| "bsd_call_print Xterm256_fg_print mc st = xterm256_fg_print"
| "bsd_call_print Xterm256_bg_print mc st = xterm256_bg_print"
| "bsd_call_print Rgb_fg_print mc st = rgb_fg_print"
| "bsd_call_print Rgb_bg_print mc st = rgb_bg_print"

definition bsd_main ::
  "(nat \<Rightarrow> 'tm bsd_machine) \<Rightarrow> (nat \<Rightarrow> 'tm bsd_machine) \<Rightarrow> cstr list \<Rightarrow> (out \<times> int) option" where
  "bsd_main mach mach' args = main_of bsd_call_init bsd_call_print mach mach' args"

interpretation bsd_build: build bsd_call_init bsd_call_print
  by unfold_locales simp_all

section \<open>The contract of the initialisers\<close>

lemma bsd_tcp_init_cases:
  assumes "bsd_tcp_init stats st m = Some (ws, r)"
  obtains (known) "tcp_inited st" "ws = []" "r = Inr (1, st, m\<lparr>mod_ready := True\<rparr>)"
  | (ended) code where "\<not> tcp_inited st" "stats st = Some (ws, Inl code)" "r = Inl code"
  | (failed) st' where "\<not> tcp_inited st" "stats st = Some (ws, Inr (0, st'))" "r = Inr (0, st', m)"
  | (counted) rc st' where "\<not> tcp_inited st" "stats st = Some (ws, Inr (rc, st'))"
      "r = Inr (1, st'\<lparr>tcp_inited := True\<rparr>, m\<lparr>mod_ready := True\<rparr>)"
proof (cases "tcp_inited st")
  case True
  with assms known show ?thesis by (auto simp: bsd_tcp_init_def)
next
  case False
  with assms obtain w x where x: "stats st = Some (w, x)" by (auto simp: bsd_tcp_init_def)
  show ?thesis
  proof (cases x)
    case (Inl code)
    with assms False x ended show ?thesis by (auto simp: bsd_tcp_init_def)
  next
    case (Inr y)
    obtain rc st' where "y = (rc, st')" by (cases y)
    with assms False x Inr failed counted show ?thesis by (auto simp: bsd_tcp_init_def split: if_splits)
  qed
qed

lemma count_pcb_length:
  "count_pcb state vflag c = Some c' \<Longrightarrow> length (fst c') = length (fst c) \<and> length (snd c') = length (snd c)"
  by (auto simp: count_pcb_def Let_def arr_add_length split: if_splits)

lemma pcb_loop_length:
  "pcb_loop pl nx nt xig c rc = Some r \<Longrightarrow>
    length (fst (fst r)) = length (fst c) \<and> length (snd (fst r)) = length (snd c)"
  by (rule pcb_loop.raw_induct
      [where P = "\<lambda>pl nx nt xig c rc r. length (fst (fst r)) = length (fst c) \<and> length (snd (fst r)) = length (snd c)"])
    (auto simp: Let_def dest!: count_pcb_length split: if_splits)

text \<open>
  The counters either end the program with the code 2 and a message, or write nothing and keep the
  lengths of the tables.
\<close>

lemma init_tcp_stats_bsd_cases:
  assumes "init_tcp_stats_bsd nx nt sz pcbs st = Some (ws, r)"
  obtains (ended) "r = Inl 2" "ws = [(2, ''struct xinpgen size mismatch'' @ [LF]), (2, [LF])]"
  | (returned) rc st' where "r = Inr (rc, st')" "ws = []" "tables_12 st \<longrightarrow> tables_12 st'" "tcp_inited st' = tcp_inited st"
proof (cases "sz = None \<or> pcbs = None")
  case True
  with assms returned [of 0 st] show ?thesis by (cases sz) (auto simp: init_tcp_stats_bsd_def)
next
  case False
  then obtain l pl where pl: "sz = Some l" "pcbs = Some pl" by auto
  show ?thesis
  proof (cases "pl_xig_len pl 0 \<noteq> nx \<or> pl_xig_len pl (pl_size pl - nx) \<noteq> nx")
    case True
    with assms pl ended show ?thesis
      by (auto simp: init_tcp_stats_bsd_def os_exit_def xinpgen_mismatch_def str_len_cstring ctext_take split: if_splits)
        (auto simp: cstring_def)
  next
    case False
    with assms pl obtain c4 c6 rc where c:
      "pcb_loop pl nx nt 0 (tcp4_counters st, tcp6_counters st) 0 = Some ((c4, c6), rc)"
      by (auto simp: init_tcp_stats_bsd_def split: if_splits)
    note len = pcb_loop_length [OF c]
    show ?thesis
    proof (cases "rc = 0")
      case True
      with assms pl False c len returned show ?thesis
        by (auto simp: init_tcp_stats_bsd_def tables_12_def split: if_splits)
    next
      case rc: False
      let ?sum = "sum_counters BSD_TCP_STATE_FIRST BSD_TCP_STATE_LAST BSD_INDEX_TOTAL"
      from assms pl False c rc obtain all1 d4 all2 d6 where s: "?sum (tcp_counters st) c4 = Some (all1, d4)"
        "?sum all1 c6 = Some (all2, d6)" "ws = []"
        "r = Inr (rc, st\<lparr>tcp_counters := all2, tcp4_counters := d4, tcp6_counters := d6\<rparr>)"
        by (auto simp: init_tcp_stats_bsd_def split: if_splits)
      with sum_counters_length [OF s(1)] sum_counters_length [OF s(2)] len returned show ?thesis
        by (auto simp: tables_12_def)
    qed
  qed
qed

lemma bsd_call_init_tcp:
  assumes "bsd_call_init Tcp_init mc st m = Some (ws, r)"
  obtains r' where "bsd_tcp_init (init_tcp_stats_bsd (bm_xinpgen_size mc) (bm_xtcpcb_size mc)
      (bm_pcblist_size mc) (bm_pcblist mc)) (st_tcp st) m = Some (ws, r')"
    "r = map_sum (\<lambda>code. code) (\<lambda>(rc, v, m). (rc, st\<lparr>st_tcp := v\<rparr>, m)) r'"
  using assms by auto

lemma bsd_call_init_frame:
  assumes "bsd_call_init f mc st m = Some (ws, Inr (rc, st', m'))"
  shows "m' = m \<or> m' = m\<lparr>mod_ready := True\<rparr>"
proof (cases f)
  case Tcp_init
  with assms show ?thesis by (auto elim!: bsd_call_init_tcp bsd_tcp_init_cases simp del: bsd_call_init.simps)
qed (use assms in \<open>auto simp: no_init_def load_init_def uptime_init_def nusers_init_def Let_def bat_init_def
    mem_init_def fs_init_def split: prod.splits if_splits\<close>)

lemma bsd_call_init_quiet:
  assumes "bsd_call_init f mc st m = Some (ws, r)"
  shows "written 1 ws = []"
proof (cases f)
  case Tcp_init
  with assms show ?thesis
    by (auto elim!: bsd_call_init_tcp bsd_tcp_init_cases init_tcp_stats_bsd_cases simp del: bsd_call_init.simps)
next
  case Fs_init
  with assms show ?thesis by (auto simp: fs_init_def written_def split: if_splits)
qed (use assms in \<open>auto simp: no_init_def split: prod.splits\<close>)

lemma bsd_call_init_ends:
  assumes "bsd_call_init f mc st m = Some (ws, Inl code)"
  shows "code = 2 \<and> written 2 ws = ''struct xinpgen size mismatch'' @ [LF, LF]"
proof (cases f)
  case Tcp_init
  with assms obtain r' where "bsd_tcp_init (init_tcp_stats_bsd (bm_xinpgen_size mc) (bm_xtcpcb_size mc)
      (bm_pcblist_size mc) (bm_pcblist mc)) (st_tcp st) m = Some (ws, r')"
    "Inl code = map_sum (\<lambda>code. code) (\<lambda>(rc, v, m). (rc, st\<lparr>st_tcp := v\<rparr>, m)) r'"
    by (auto elim!: bsd_call_init_tcp simp del: bsd_call_init.simps)
  then show ?thesis
    by (auto elim!: bsd_tcp_init_cases init_tcp_stats_bsd_cases)
qed (use assms in \<open>auto simp: no_init_def split: prod.splits\<close>)

lemma get_loadavg_bsd_length: "length load = 3 \<Longrightarrow> length (snd (get_loadavg_bsd l load)) = 3"
  by (auto simp: get_loadavg_bsd_def split: option.splits)

lemma bsd_call_init_keeps:
  assumes "statics_ok st" and "bsd_call_init f mc st m = Some (ws, Inr (rc, st', m'))"
  shows "statics_ok st'"
proof (cases f)
  case Load_init
  with assms get_loadavg_bsd_length [of "st_load st" "bm_loadavg mc"] show ?thesis
    by (auto simp: statics_ok_def load_init_def split: prod.splits)
next
  case Bat_init
  with assms show ?thesis by (auto simp: statics_ok_def bat_init_def get_battery_info_none_def
      get_battery_info_osx_def Let_def split: option.splits bool.splits list.splits if_splits)
next
  case Fs_init
  have ne: "fs' \<noteq> Some []" if "fs_init_platform_other mnts fs = Some (rc, fs')" "fs \<noteq> Some []" for mnts fs rc fs'
  proof (cases "mnts = []")
    case False
    with that(1) show ?thesis by (simp add: fs_init_other_overflow)
  qed (use that in \<open>simp add: fs_init_platform_other_def\<close>)
  from assms Fs_init show ?thesis by (auto simp: statics_ok_def fs_init_def dest: ne split: if_splits)
next
  case Tcp_init
  with assms(2) obtain r' where r': "bsd_tcp_init (init_tcp_stats_bsd (bm_xinpgen_size mc) (bm_xtcpcb_size mc)
      (bm_pcblist_size mc) (bm_pcblist mc)) (st_tcp st) m = Some (ws, r')"
    "Inr (rc, st', m') = map_sum (\<lambda>code. code) (\<lambda>(rc, v, m). (rc, st\<lparr>st_tcp := v\<rparr>, m)) r'"
    by (auto elim!: bsd_call_init_tcp simp del: bsd_call_init.simps)
  then obtain v where v: "r' = Inr (rc, v, m')" "st' = st\<lparr>st_tcp := v\<rparr>" by (cases r') auto
  have "tables_12 (st_tcp st)" using assms(1) by (simp add: statics_ok_def tables_12_def)
  with r'(1) v(1) have "tables_12 v"
    by (auto elim!: bsd_tcp_init_cases init_tcp_stats_bsd_cases simp: tables_12_def)
  with assms(1) v(2) show ?thesis by (simp add: statics_ok_def tables_12_def)
qed (use assms in \<open>auto simp: statics_ok_def no_init_def split: prod.splits\<close>)

interpretation bsd: initialiser bsd_call_init statics_ok
  by unfold_locales (rule bsd_call_init_frame bsd_call_init_quiet bsd_call_init_keeps; assumption)+

lemma bsd_call_init_snapshot:
  assumes "bsd_call_init f mc st m = Some (ws, Inr (rc, st', m'))"
  shows "snapshot st st'"
proof (cases f)
  case Tcp_init
  with assms show ?thesis
    by (auto elim!: bsd_call_init_tcp bsd_tcp_init_cases simp: snapshot_def simp del: bsd_call_init.simps)
qed (use assms in \<open>auto simp: snapshot_def no_init_def mem_init_def fs_init_def split: prod.splits if_splits\<close>)

interpretation bsd_grow: growing_initialiser bsd_call_init snapshot
  by unfold_locales (auto simp: snapshot_def dest: bsd_call_init_snapshot [unfolded snapshot_def])

section \<open>What the modules ask for\<close>

text \<open>
  The answers that a module of this build may ask for. The macro \<open>__APPLE__\<close>, which \<open>bm_apple\<close> stands
  for, concerns the battery and the memory only.
\<close>

fun bsd_init_agree :: "init_fn \<Rightarrow> 'tm bsd_machine \<Rightarrow> 'tm bsd_machine \<Rightarrow> bool" where
  "bsd_init_agree No_init a b \<longleftrightarrow> True"
| "bsd_init_agree Load_init a b \<longleftrightarrow> bm_loadavg a = bm_loadavg b"
| "bsd_init_agree Uptime_init a b \<longleftrightarrow> bm_boottime a = bm_boottime b \<and> bm_now a = bm_now b"
| "bsd_init_agree Nusers_init a b \<longleftrightarrow> bm_utmpx a = bm_utmpx b \<and> bm_qsort a = bm_qsort b \<and> bm_heap a = bm_heap b"
| "bsd_init_agree Bat_init a b \<longleftrightarrow> bm_apple a = bm_apple b"
| "bsd_init_agree Mem_init a b \<longleftrightarrow> bm_apple a = bm_apple b \<and> bm_phys_pages a = bm_phys_pages b \<and>
     bm_page_size a = bm_page_size b \<and> bm_t_free a = bm_t_free b"
| "bsd_init_agree Fs_init a b \<longleftrightarrow> bm_mnts a = bm_mnts b"
| "bsd_init_agree Tcp_init a b \<longleftrightarrow> bm_xinpgen_size a = bm_xinpgen_size b \<and> bm_xtcpcb_size a = bm_xtcpcb_size b \<and>
     bm_pcblist_size a = bm_pcblist_size b \<and> bm_pcblist a = bm_pcblist b"

fun bsd_print_agree :: "print_fn \<Rightarrow> 'tm bsd_machine \<Rightarrow> 'tm bsd_machine \<Rightarrow> bool" where
  "bsd_print_agree Date_print a b \<longleftrightarrow> bm_time a = bm_time b \<and> bm_gmtime a = bm_gmtime b \<and> bm_strftime a = bm_strftime b"
| "bsd_print_agree Uid_print a b \<longleftrightarrow> bm_uid a = bm_uid b"
| "bsd_print_agree User_print a b \<longleftrightarrow> bm_pw_name a = bm_pw_name b"
| "bsd_print_agree Nproc_print a b \<longleftrightarrow> bm_procs_size a = bm_procs_size b \<and> bm_kinfo_size a = bm_kinfo_size b"
| "bsd_print_agree Ncpus_print a b \<longleftrightarrow> bm_ncpus a = bm_ncpus b"
| "bsd_print_agree Bat_charging_human_print a b \<longleftrightarrow> bm_getenv a = bm_getenv b"
| "bsd_print_agree _ a b \<longleftrightarrow> True"

lemma bsd_call_init_agree: "bsd_init_agree f a b \<Longrightarrow> bsd_call_init f a st m = bsd_call_init f b st m"
  by (cases f) (simp_all cong: option.case_cong)

lemma bsd_call_print_agree: "bsd_print_agree p a b \<Longrightarrow> bsd_call_print p a st = bsd_call_print p b st"
  by (cases p) simp_all

interpretation bsd_same: same_runs bsd_call_init statics_ok bsd_call_init bsd_call_print bsd_call_print "\<lambda>ws. ws"
    bsd_init_agree bsd_print_agree "\<lambda>st. True"
  by unfold_locales (simp_all add: bsd_call_init_agree bsd_call_print_agree)

lemma bsd_main_depends:
  assumes "list_all terminated args"
    and "\<forall>n < length args. bsd_init_agree (mod_init (chosen (args ! n))) (mach (n + 1)) (other (n + 1))"
    and "\<forall>n < length args. bsd_print_agree (mod_print (chosen (args ! n))) (mach' (n + 1)) (other' (n + 1))"
  shows "bsd_main mach mach' args = bsd_main other other' args"
proof -
  have "apfst (\<lambda>ws. ws) = (\<lambda>r :: out \<times> int. r)" by auto
  with bsd_same.run_same [OF assms] show ?thesis by (simp add: bsd_main_def option.map_ident)
qed

text \<open>macOS is a BSD as far as other modules than those of the battery and of the memory are concerned.\<close>

lemma apple_same:
  assumes "list_all (\<lambda>arg. terminated arg \<and> mod_init (chosen arg) \<notin> {Bat_init, Mem_init}) args"
  shows "bsd_main (\<lambda>i. (mach i)\<lparr>bm_apple := a i\<rparr>) (\<lambda>i. (mach' i)\<lparr>bm_apple := b i\<rparr>) args = bsd_main mach mach' args"
proof (rule bsd_main_depends)
  show "list_all terminated args" using assms by (simp add: list_all_iff)
  have f: "bsd_init_agree f (mc\<lparr>bm_apple := x\<rparr>) mc" if "f \<notin> {Bat_init, Mem_init}" for f mc x
    using that by (cases f) simp_all
  show "\<forall>n < length args. bsd_init_agree (mod_init (chosen (args ! n))) ((mach (n + 1))\<lparr>bm_apple := a (n + 1)\<rparr>) (mach (n + 1))"
    using assms by (simp add: list_all_length f)
  have "bsd_print_agree p (mc\<lparr>bm_apple := x\<rparr>) mc" for p mc x
    by (cases p) simp_all
  then show "\<forall>n < length args. bsd_print_agree (mod_print (chosen (args ! n))) ((mach' (n + 1))\<lparr>bm_apple := b (n + 1)\<rparr>) (mach' (n + 1))"
    by blast
qed

section \<open>Properties\<close>

text \<open>A machine for the witnesses, whose list of control blocks is damaged.\<close>

definition bsd_example :: "unit bsd_machine" where
  "bsd_example = \<lparr>bm_apple = None, bm_loadavg = Some ([1024, 512, 256], 2048), bm_boottime = Some 1000, bm_now = 91000,
     bm_utmpx = ([login ''ann''], [login ''ann'']), bm_qsort = insertion_sort, bm_heap = zero_heap,
     bm_phys_pages = 1000, bm_page_size = 4096, bm_t_free = Some 250,
     bm_mnts = [\<lparr>f_mntonname = cstring ''/'', f_bfree = 1, f_blocks = 2, f_bsize = 512\<rparr>],
     bm_xinpgen_size = 24, bm_xtcpcb_size = 208, bm_pcblist_size = Some 1024,
     bm_pcblist = Some (pcb_bytes 16 208 []), bm_time = (0, 0), bm_gmtime = (\<lambda>t. Some ()),
     bm_strftime = (\<lambda>n f t. []), bm_uid = 1000, bm_pw_name = Some (cstring ''ann''),
     bm_procs_size = Some 1088, bm_kinfo_size = 1088, bm_ncpus = 4, bm_getenv = (\<lambda>k. None)\<rparr>"

lemma bsd_print_num:
  assumes "i < length counters" and "unat (counters ! i) = n"
  shows "tcp_print_at fd counters i = Some ([(fd, dec n)], 1)"
  using assms by (simp add: tcp_print_at_def arr_get_def tcp_print_num_def u64_fmt.exact)

text \<open>
  C22. A whole run on a BSD, from the list of control blocks to the output: \<open>ustat tcp6.e / tcp\<close>
  prints the number of IPv6 sockets in the state 4 of the BSDs, a slash, and the number of all sockets
  of the two families.
\<close>

theorem bsd_main_tcp:
  assumes "bm_pcblist_size (mach 1) = Some l" and "bm_xinpgen_size (mach 1) = nx" and "bm_xtcpcb_size (mach 1) = nt"
    and "bm_pcblist (mach 1) = Some (pcb_bytes nx nt es)" and "0 < nx" and "0 < nt" and "es \<noteq> []"
    and "list_all (\<lambda>e. pcb_state e \<le> BSD_TCP_STATE_LAST) es" and "length es < 2 ^ 64"
  shows "bsd_main mach mach' [cstring ''tcp6.e'', cstring ''/'', cstring ''tcp''] =
    Some ([(1, dec (count_list (states is_ipv6 es) 4)), (1, ''/''),
      (1, dec (length (filter is_ipv4 es) + length (filter is_ipv6 es)))], 0)"
proof -
  let ?c = "\<lambda>p. map (\<lambda>i. of_nat (if i = BSD_INDEX_TOTAL then length (filter p es)
    else count_list (states p es) i)) [0..<n_tcp_states] :: u64 list"
  define tcp' where "tcp' = tcp_initial\<lparr>tcp_counters := map2 (+) (?c is_ipv4) (?c is_ipv6),
    tcp4_counters := ?c is_ipv4, tcp6_counters := ?c is_ipv6, tcp_inited := True\<rparr>"
  let ?st = "statics_initial\<lparr>st_tcp := tcp'\<rparr>"
  have ini: "init_tcp_stats_bsd nx nt (Some l) (Some (pcb_bytes nx nt es)) tcp_initial =
      Some ([], Inr (1, tcp'\<lparr>tcp_inited := False\<rparr>))"
    using bsd_init_counts [OF assms(5,6,8), of l] assms(7) by (simp add: Let_def tcp'_def tcp_initial_def)
  have first: "bsd_call_init Tcp_init (mach 1) statics_initial (modules ! 27) =
      Some ([], Inr (1, ?st, (modules ! 27)\<lparr>mod_ready := True\<rparr>))"
    using ini assms(1-4) by (simp add: statics_initial_def bsd_tcp_init_def tcp'_def tcp_initial_def)
  have again: "bsd_call_init Tcp_init mc ?st m = Some ([], Inr (1, ?st, m\<lparr>mod_ready := True\<rparr>))" for mc m
    by (simp add: bsd_tcp_init_def tcp'_def)
  have le: "length (filter p es) < 2 ^ 64" for p by (rule le_less_trans [OF length_filter_le assms(9)])
  have cnt: "count_list (states p es) i < 2 ^ 64" for p i
    by (rule le_less_trans [OF _ le [of p]]) (use count_le_length [of "states p es" i] in simp)
  have split: "length (filter is_ipv4 es) + length (filter is_ipv6 es) < 2 ^ 64"
  proof -
    have "length (filter is_ipv4 es) + length (filter is_ipv6 es) \<le> length es"
      by (induction es) (auto simp: is_ipv6_def)
    with assms(9) show ?thesis by simp
  qed
  have p6: "bsd_call_print Ntcp6_established_print mc ?st 1 m s k =
      Some ([(1, dec (count_list (states is_ipv6 es) 4))], 1)" for mc :: "'a bsd_machine" and m s k
    using cnt by (simp add: bsd_ntcp6_established_print_def BSD_TCP_ESTABLISHED_def tcp'_def)
      (rule bsd_print_num; simp add: n_tcp_states_def BSD_INDEX_TOTAL_def BSD_TCP_STATE_LAST_def unat_of_nat)
  have p: "bsd_call_print Ntcp_all_print mc ?st 1 m s k =
      Some ([(1, dec (length (filter is_ipv4 es) + length (filter is_ipv6 es)))], 1)"
    for mc :: "'a bsd_machine" and m s k
    using split by (simp add: bsd_ntcp_all_print_def tcp'_def)
      (rule bsd_print_num; simp add: n_tcp_states_def BSD_INDEX_TOTAL_def BSD_TCP_STATE_LAST_def unat_of_nat
        flip: of_nat_add)
  show ?thesis
    unfolding bsd_main_def using bsd_build.tcp_main [where mach = mach, OF first again p6 p] by simp
qed

theorem bsd_main_tcp_witness:
  "let es = [\<lparr>pcb_state = 4, pcb_vflag = INP_IPV6\<rparr>, \<lparr>pcb_state = 1, pcb_vflag = INP_IPV4\<rparr>] in
   bsd_main (\<lambda>i. bsd_example\<lparr>bm_pcblist := Some (pcb_bytes 24 208 es)\<rparr>) (\<lambda>i. bsd_example)
     [cstring ''tcp6.e'', cstring ''/'', cstring ''tcp''] = Some ([(1, ''1''), (1, ''/''), (1, ''2'')], 0)"
proof -
  let ?es = "[\<lparr>pcb_state = 4, pcb_vflag = INP_IPV6\<rparr>, \<lparr>pcb_state = 1, pcb_vflag = INP_IPV4\<rparr>]"
  have v: "list_all (\<lambda>e. pcb_state e \<le> BSD_TCP_STATE_LAST) ?es" "dec (count_list (states is_ipv6 ?es) 4) = ''1''"
    "dec (length (filter is_ipv4 ?es) + length (filter is_ipv6 ?es)) = ''2''" by code_simp+
  have "bsd_main (\<lambda>i. bsd_example\<lparr>bm_pcblist := Some (pcb_bytes 24 208 ?es)\<rparr>) (\<lambda>i. bsd_example)
      [cstring ''tcp6.e'', cstring ''/'', cstring ''tcp''] =
    Some ([(1, dec (count_list (states is_ipv6 ?es) 4)), (1, ''/''),
      (1, dec (length (filter is_ipv4 ?es) + length (filter is_ipv6 ?es)))], 0)"
    by (rule bsd_main_tcp [where l = 1024 and nx = 24 and nt = 208]) (simp_all add: bsd_example_def BSD_TCP_STATE_LAST_def)
  then show ?thesis unfolding v(2,3) by (simp only: Let_def)
qed

lemma modules_fs: "list_all (\<lambda>m. mod_init m = Fs_init \<longrightarrow> prefix ''fs'' (name_of m)) modules"
  by code_simp

lemma find_module_prefix:
  assumes "find_module arg modules 1 = Some j" and "terminated arg" and "j < nmodules"
  shows "prefix (name_of (modules ! j)) (ctext arg)"
proof -
  let ?n = "length (takeWhile (\<lambda>m. \<not> prefix (name_of m) (ctext arg)) (drop 1 modules))"
  have j: "j = 1 + ?n"
    using find_module_selected [OF assms(2) names_ok_modules modules_ne] assms(1) by (simp add: selected_def)
  then have n: "?n < length (drop 1 modules)" using assms(3) by (simp add: nmodules_def)
  from nth_length_takeWhile [OF n] show ?thesis using n by (simp add: j)
qed

text \<open>
  C23. On a BSD the modules of the file systems cannot be used: when the first argument selects one and
  any file system is mounted, the copy of the first name writes past the end of its allocation.
\<close>

theorem bsd_main_fs_overflow:
  assumes "find_module arg modules 1 = Some j" and "j < nmodules" and "mod_init (modules ! j) = Fs_init"
    and "list_all terminated (arg # args)" and "bm_mnts (mach 1) \<noteq> []"
  shows "bsd_main mach mach' (arg # args) = None"
proof -
  have arg: "terminated arg" using assms(4) by simp
  have "prefix ''fs'' (name_of (modules ! j))" using modules_fs assms(2,3) by (simp add: list_all_length nmodules_def)
  then have "prefix ''fs'' (ctext arg)"
    using find_module_prefix [OF assms(1) arg assms(2)] by (blast intro: prefix_order.order_trans)
  then have nh: "no_help (arg # args)" by (cases args) (auto simp: no_help_def prefix_def)
  have "\<not> mod_ready (modules ! j)"
  proof -
    have "list_all (\<lambda>m. \<not> mod_ready m) modules" by code_simp
    with assms(2) show ?thesis by (simp add: list_all_length nmodules_def)
  qed
  moreover have "bsd_call_init Fs_init (mach 1) statics_initial m = None" if "\<not> mod_ready m" for m
    using that fs_init_other_overflow [OF assms(5)] by (simp add: fs_init_def statics_initial_def)
  ultimately have "init_arg bsd_call_init (mach 1) arg modules statics_initial = None"
    using assms(1-3) arg by (simp add: init_arg_def nmodules_def str_len_eq)
  then have "init_args bsd_call_init mach 1 (arg # args) modules statics_initial = None" by simp
  then show ?thesis unfolding bsd_main_def main_of_no_help [OF nh assms(4)] by (simp only: Option.bind.bind_lzero)
qed

theorem bsd_main_fs_overflow_witness:
  "bsd_main (\<lambda>i. bsd_example) (\<lambda>i. bsd_example) [cstring ''fst/home'', cstring ''nl''] = None"
proof (rule bsd_main_fs_overflow)
  show "find_module (cstring ''fst/home'') modules 1 = Some 21" by code_simp
  show "mod_init (modules ! 21) = Fs_init" by code_simp
  show "21 < nmodules" by (simp add: nmodules_def length_modules)
qed (simp_all add: bsd_example_def)

text \<open>
  C24. On a BSD a run with an exit code other than 0 has written nothing to standard output. The code
  is 2 when the list of control blocks does not have the sizes of the structures the program was
  compiled with, and otherwise 1 with the message for a module that an argument selects.
\<close>

theorem bsd_main_failure:
  assumes "bsd_main mach mach' args = Some (ws, code)" and "code \<noteq> 0" and "no_help args" and "list_all terminated args"
  shows "written 1 ws = [] \<and> (code = 2 \<or> code = 1 \<and>
    (\<exists>arg \<in> set args. \<exists>j. find_module arg modules 1 = Some j \<and> j < nmodules \<and>
      (\<exists>p. written 2 ws = p @ [LF] @ ''error init module '' @ [CHR 0x22, NUL] @ name_of (modules ! j) @ [CHR 0x22, LF])))"
proof -
  from assms obtain w r where i: "init_args bsd_call_init mach 1 args modules statics_initial = Some (w, r)"
    by (auto simp: bsd_main_def main_of_no_help)
  with assms obtain c where r: "r = Inl c" by (cases r) (auto simp: bsd_main_def main_of_no_help)
  with i assms have w: "ws = w" "c = code" by (auto simp: bsd_main_def main_of_no_help)
  from bsd.init_args_error [OF i [unfolded r] assms(4) names_ok_modules modules_ne]
  have e: "written 1 ws = []" and "(\<exists>f (mc :: 'a bsd_machine) st m w. bsd_call_init f mc st m = Some (w, Inl code)) \<or>
    code = 1 \<and> (\<exists>arg \<in> set args. selected modules (ctext arg) < length modules \<and>
    (\<exists>p. written 2 ws = p @ error_cant_init_module @ name_of (modules ! selected modules (ctext arg)) @ [CHR 0x22, LF]))"
    using w by simp_all
  then consider "code = 2" | arg p where "code = 1" "arg \<in> set args" "selected modules (ctext arg) < length modules"
    "written 2 ws = p @ error_cant_init_module @ name_of (modules ! selected modules (ctext arg)) @ [CHR 0x22, LF]"
    using bsd_call_init_ends by blast
  then show ?thesis
  proof cases
    case 2
    then have "terminated arg" using assms(4) by (simp add: list_all_iff)
    from find_module_selected [OF this names_ok_modules modules_ne] 2 e show ?thesis
      by (auto simp: nmodules_def error_cant_init_module_def cstring_def)
  qed (use e in simp)
qed

theorem bsd_main_failure_witness:
  "\<exists>ws. bsd_main (\<lambda>i. bsd_example) (\<lambda>i. bsd_example) [cstring ''tcp''] = Some (ws, 2) \<and> written 1 ws = []"
proof -
  have f: "find_module (cstring ''tcp'') modules 1 = Some 39" by code_simp
  have m: "modules ! 39 = entry ''tcp'' ''tcp total'' Tcp_init Ntcp_all_print" by (simp add: modules_def)
  have h: "no_help [cstring ''tcp'']" "list_all terminated [cstring ''tcp'']" by (simp_all add: no_help_def)
  have "\<exists>ws. bsd_main (\<lambda>i. bsd_example) (\<lambda>i. bsd_example) [cstring ''tcp''] = Some (ws, 2)"
    using f by (simp add: bsd_main_def main_of_no_help [OF h] init_arg_def m length_modules bsd_tcp_init_def
      init_tcp_stats_bsd_def bsd_example_def statics_initial_def tcp_initial_def os_exit_def xinpgen_mismatch_def
      pcb_bytes_def Let_def)
  with bsd_main_failure [OF _ _ h] show ?thesis by (metis zero_neq_numeral)
qed

end
