(* ===== verification/Bsd_safety.thy ===== *)
theory Bsd_safety
  imports Safety Bsd
begin

text \<open>
  Runs without undefined behaviour in a build for a BSD or for macOS: the limits for its answers, and the
  interpretation of \<open>safe_build\<close>. The modules of the file systems are not usable there.
\<close>

section \<open>Limits\<close>

text \<open>
  Three load averages with 11 binary digits after the point, a difference of the two times that fits,
  amounts of memory below 2^53 with no more free than there is, a list of control blocks that is one of
  another version of the system or one of sockets in documented states, and on macOS a power source.
\<close>

definition loadavg_safe :: "(u32 list \<times> int) option \<Rightarrow> bool" where
  "loadavg_safe l \<longleftrightarrow> (\<exists>ldavg. l = Some (ldavg, 2048) \<and> length ldavg = 3)"

definition pcbs_safe :: "nat \<Rightarrow> nat \<Rightarrow> pcblist option \<Rightarrow> bool" where
  "pcbs_safe nx nt pcbs \<longleftrightarrow> (\<forall>pl. pcbs = Some pl \<longrightarrow> nx \<le> pl_size pl \<and>
     (pl_xig_len pl 0 \<noteq> nx \<or> pl_xig_len pl (pl_size pl - nx) \<noteq> nx \<or>
      0 < nx \<and> 0 < nt \<and> (\<exists>es. pl = pcb_bytes nx nt es \<and> list_all (\<lambda>e. pcb_state e \<le> BSD_TCP_STATE_LAST) es)))"

definition bsd_mem_get :: "'tm bsd_machine \<Rightarrow> mem_state \<Rightarrow> int \<times> mem_state" where
  "bsd_mem_get mc = (case bm_apple mc of
     None \<Rightarrow> mem_get_bsd (bm_phys_pages mc) (bm_page_size mc) (bm_t_free mc)
   | Some a \<Rightarrow> mem_get_osx (bm_page_size mc) (ap_vm_pages a))"

definition bsd_machine_safe :: "'tm bsd_machine \<Rightarrow> bool" where
  "bsd_machine_safe mc \<longleftrightarrow>
     loadavg_safe (bm_loadavg mc) \<and>
     (\<forall>bt. bm_boottime mc = Some bt \<longrightarrow> - (2 ^ 63) \<le> bm_now mc - bt \<and> bm_now mc - bt < 2 ^ 63) \<and>
     (\<forall>a. bm_apple mc = Some a \<longrightarrow> ap_sources a \<noteq> []) \<and>
     mem_safe (snd (bsd_mem_get mc mem_initial)) \<and>
     utmpx_safe (bm_utmpx mc) \<and> sorts (bm_qsort mc) \<and> (\<forall>i. zeroed (bm_heap mc i)) \<and>
     pcbs_safe (bm_xinpgen_size mc) (bm_xtcpcb_size mc) (bm_pcblist mc) \<and>
     bm_gmtime mc (sint (date_seconds (fst (bm_time mc)) (snd (bm_time mc)))) \<noteq> None \<and>
     unat (bm_uid mc) < 10 ^ 6 \<and> (\<exists>p. bm_pw_name mc = Some p \<and> terminated p) \<and>
     (\<forall>k v. bm_getenv mc k = Some v \<longrightarrow> terminated v)"

section \<open>Initialisers\<close>

lemma bsd_load_quotient: "d_div (d_of_int (uint (v :: u32))) (d_of_int 2048) = Fin (of_nat (32 * unat v) / 65536)"
proof -
  have v: "unat v < 2 ^ 32" using unsigned_less [of v, where 'a = nat] by simp
  have u: "uint v = int (unat v)" by (rule uint_nat)
  have "unat v < 2 ^ 53" by (rule less_trans [OF v]) simp
  then have "int (unat v) < int (2 ^ 53)" by (simp only: of_nat_less_iff)
  then have "\<bar>int (unat v)\<bar> < 2 ^ 53" by (simp only: of_nat_power of_nat_numeral abs_of_nat)
  from d_of_int_exact [OF this] have "d_of_int (uint v) = Fin (of_nat (unat v))"
    unfolding u by (simp only: of_int_of_nat_eq)
  moreover have "d_of_int 2048 = Fin 2048" using d_of_int_exact [of 2048] by simp
  moreover have "of_nat (unat v) / 2048 = (of_nat (32 * unat v) / 65536 :: rat)" by simp
  moreover have "rnd (of_nat (32 * unat v) / 65536) = Fin (of_nat (32 * unat v) / 65536)"
  proof -
    have "of_nat (32 * unat v) \<le> (of_nat (2 ^ 40) :: rat)" using v unfolding of_nat_le_iff by simp
    then have "0 \<le> (of_nat (32 * unat v) / 65536 :: rat)" "of_nat (32 * unat v) / 65536 \<le> (2 :: rat) ^ 24"
      by (simp_all add: pos_divide_le_eq del: of_nat_unat of_nat_mult)
    then show ?thesis
      using rnd_rat_bounds(1) [of _ 24] rnd_rat_repr [OF repr_fixed [of "32 * unat v"]] v by simp
  qed
  ultimately show ?thesis by simp
qed

lemma bsd_load_safe:
  assumes "loadavg_safe l"
  shows "\<exists>load'. load_init (get_loadavg_bsd l) load m = (1, load', m\<lparr>mod_ready := True\<rparr>) \<and> load_safe load'"
proof -
  from assms obtain a b c where l: "l = Some ([a, b, c], 2048)"
    by (auto simp: loadavg_safe_def numeral_3_eq_3 length_Suc_conv)
  have u: "32 * unat v < 2 ^ 40" for v :: u32 using unsigned_less [of v, where 'a = nat] by simp
  have "load_init (get_loadavg_bsd l) load m =
      (1, map (\<lambda>v. Fin (of_nat v / 65536)) [32 * unat a, 32 * unat b, 32 * unat c], m\<lparr>mod_ready := True\<rparr>)"
    by (simp add: load_init_def get_loadavg_bsd_def l bsd_load_quotient del: of_nat_unat of_nat_mult)
  with u show ?thesis unfolding load_safe_def by blast
qed

lemma bsd_mem_safe:
  assumes "mem_safe (snd (bsd_mem_get mc mem_initial))" and "st = mem_initial \<or> mem_safe st"
  shows "\<exists>st' m'. mem_init (bsd_mem_get mc) st m = (1, st', m') \<and> mem_safe st'"
proof (cases "fst st > 0 \<and> snd st > 0")
  case True
  with assms(2) show ?thesis by (auto simp: mem_init_def mem_initial_def)
next
  case False
  have "\<not> mem_safe mem_initial" by (simp add: mem_safe_def mem_initial_def)
  with assms(1) have "snd (bsd_mem_get mc st) = snd (bsd_mem_get mc mem_initial)"
    by (auto simp: bsd_mem_get_def mem_get_bsd_def mem_get_osx_def split: option.splits prod.splits if_splits)
  with False have "mem_init (bsd_mem_get mc) st m =
      (1, snd (bsd_mem_get mc mem_initial), m\<lparr>mod_ready := True\<rparr>)"
    by (auto simp: mem_init_def split: prod.splits)
  with assms(1) show ?thesis by blast
qed

lemma bsd_battery_safe:
  assumes "\<forall>a. apple = Some a \<longrightarrow> ap_sources a \<noteq> []" and "unat (bat_is_charging bi) < 2"
  shows "\<exists>bi' m'. bat_init (case apple of None \<Rightarrow> get_battery_info_none
      | Some a \<Rightarrow> get_battery_info_osx (ap_sources a)) bi m = Some (1, bi', m') \<and> unat (bat_is_charging bi') < 2"
proof -
  have "\<exists>bi'. (case apple of None \<Rightarrow> get_battery_info_none | Some a \<Rightarrow> get_battery_info_osx (ap_sources a)) bi =
      Some (0, bi') \<and> unat (bat_is_charging bi') < 2"
    using assms by (auto simp: get_battery_info_none_def get_battery_info_osx_def Let_def
      split: option.splits list.splits bool.splits)
  with assms(2) show ?thesis by (auto simp: bat_init_def)
qed

lemma bsd_stats_safe:
  assumes "pcbs_safe nx nt pcbs" and "tables_12 st"
  shows "\<exists>ws r. init_tcp_stats_bsd nx nt sz pcbs st = Some (ws, r)"
proof (cases "sz = None \<or> pcbs = None")
  case True
  then show ?thesis by (cases sz) (auto simp: init_tcp_stats_bsd_def)
next
  case False
  then obtain l pl where pl: "sz = Some l" "pcbs = Some pl" by auto
  with assms(1) have fit: "\<not> pl_size pl < nx" by (auto simp: pcbs_safe_def)
  have "terminated xinpgen_mismatch" by (simp add: xinpgen_mismatch_def)
  then have ex: "\<exists>ws. os_exit 2 (Some xinpgen_mismatch) = Some (ws, 2)" by (simp add: os_exit_def str_len_eq)
  show ?thesis
  proof (cases "pl_xig_len pl 0 \<noteq> nx \<or> pl_xig_len pl (pl_size pl - nx) \<noteq> nx")
    case True
    with pl fit ex show ?thesis by (auto simp: init_tcp_stats_bsd_def)
  next
    case False
    with assms(1) pl obtain es where es: "0 < nx" "0 < nt" "pl = pcb_bytes nx nt es"
      "\<forall>e \<in> set es. pcb_state e \<le> BSD_TCP_STATE_LAST" by (auto simp: pcbs_safe_def list_all_iff)
    have l: "length (tcp4_counters st) = n_tcp_states" "length (tcp6_counters st) = n_tcp_states"
      "length (tcp_counters st) = n_tcp_states" using assms(2) by (simp_all add: tables_12_def)
    have loop: "pcb_loop pl nx nt 0 (tcp4_counters st, tcp6_counters st) 0 =
        Some ((foldl bump (tcp4_counters st) (states is_ipv4 es), foldl bump (tcp6_counters st) (states is_ipv6 es)),
          if es = [] then 0 else 1)"
      using pcb_loop_layout [OF es(1,2), of 0 es 0] es(3,4) l by (simp add: pcb_bytes_def Let_def)
    have sum: "\<exists>to' from'. sum_counters BSD_TCP_STATE_FIRST BSD_TCP_STATE_LAST BSD_INDEX_TOTAL to from = Some (to', from') \<and>
        length to' = n_tcp_states"
      if "length to = n_tcp_states" "length from = n_tcp_states" for to "from"
      using that sum_counters_eq [of 10 "from" to 11 0]
      by (simp add: BSD_TCP_STATE_FIRST_def BSD_TCP_STATE_LAST_def BSD_INDEX_TOTAL_def n_tcp_states_def Let_def)
    obtain all c4 where c4: "sum_counters BSD_TCP_STATE_FIRST BSD_TCP_STATE_LAST BSD_INDEX_TOTAL (tcp_counters st)
        (foldl bump (tcp4_counters st) (states is_ipv4 es)) = Some (all, c4)" "length all = n_tcp_states"
      using sum [OF l(3), of "foldl bump (tcp4_counters st) (states is_ipv4 es)"] l(1) by auto
    obtain all' c6 where "sum_counters BSD_TCP_STATE_FIRST BSD_TCP_STATE_LAST BSD_INDEX_TOTAL all
        (foldl bump (tcp6_counters st) (states is_ipv6 es)) = Some (all', c6)"
      using sum [OF c4(2), of "foldl bump (tcp6_counters st) (states is_ipv6 es)"] l(2) by auto
    with pl fit False loop c4(1) show ?thesis by (simp add: init_tcp_stats_bsd_def)
  qed
qed

lemma bsd_call_init_safe:
  assumes mc: "bsd_machine_safe mc" and st: "statics_safe st" and f: "f \<noteq> Fs_init"
  shows "(\<exists>ws. bsd_call_init f mc st m = Some (ws, Inl 2)) \<or>
    (\<exists>ws rc st' m'. bsd_call_init f mc st m = Some (ws, Inr (rc, st', m')) \<and> statics_safe st' \<and>
      (rc \<noteq> 0 \<longrightarrow> mod_ready m \<or> promised f st') \<and> (\<forall>g. promised g st \<longrightarrow> promised g st'))"
proof (cases f)
  case No_init
  with st show ?thesis by (simp add: no_init_def)
next
  case Load_init
  from mc bsd_load_safe [of "bm_loadavg mc" "st_load st" m] obtain v where
    v: "load_init (get_loadavg_bsd (bm_loadavg mc)) (st_load st) m = (1, v, m\<lparr>mod_ready := True\<rparr>)" "load_safe v"
    by (auto simp: bsd_machine_safe_def)
  have "\<forall>g. promised g st \<longrightarrow> promised g (st\<lparr>st_load := v\<rparr>)"
    by (rule allI, case_tac g) (simp_all add: v(2))
  with st v show ?thesis by (simp add: Load_init statics_safe_def)
next
  case Uptime_init
  have "\<exists>rc v. get_boottime_bsd (bm_boottime mc) (bm_now mc) (st_uptime st) = Some (rc, v)"
    using mc by (auto simp: bsd_machine_safe_def get_boottime_bsd_def Let_def split: option.splits)
  then obtain v where
    v: "uptime_init (get_boottime_bsd (bm_boottime mc) (bm_now mc)) (st_uptime st) m = Some (1, v, m\<lparr>mod_ready := True\<rparr>)"
    by (auto simp: uptime_init_def)
  have "\<forall>g. promised g st \<longrightarrow> promised g (st\<lparr>st_uptime := v\<rparr>)"
    by (rule allI, case_tac g) simp_all
  with st v show ?thesis by (simp add: Uptime_init statics_safe_def)
next
  case Nusers_init
  from mc st nusers_init_safe [of "bm_utmpx mc" "bm_qsort mc" "bm_heap mc" "st_nusers st" m] obtain n where
    v: "nusers_init (bm_qsort mc) (bm_heap mc) (fst (bm_utmpx mc)) (snd (bm_utmpx mc)) (st_nusers st) m =
      Some (1, n, m\<lparr>mod_ready := True\<rparr>)" "0 \<le> n" "n < 10 ^ 6"
    by (auto simp: bsd_machine_safe_def statics_safe_def)
  have "\<forall>g. promised g st \<longrightarrow> promised g (st\<lparr>st_nusers := n\<rparr>)"
    by (rule allI, case_tac g) (simp_all add: v(2) v(3) [simplified])
  with st v show ?thesis by (simp add: Nusers_init statics_safe_def)
next
  case Bat_init
  from mc st bsd_battery_safe [of "bm_apple mc" "st_battery st" m] obtain v m' where
    v: "bat_init (case bm_apple mc of None \<Rightarrow> get_battery_info_none
      | Some a \<Rightarrow> get_battery_info_osx (ap_sources a)) (st_battery st) m = Some (1, v, m')"
      "unat (bat_is_charging v) < 2"
    by (auto simp: bsd_machine_safe_def statics_safe_def)
  have "\<forall>g. promised g st \<longrightarrow> promised g (st\<lparr>st_battery := v\<rparr>)"
    by (rule allI, case_tac g) (simp_all add: v(2))
  with st v show ?thesis by (simp add: Bat_init statics_safe_def)
next
  case Mem_init
  from mc st bsd_mem_safe [of mc "st_mem st" m] obtain v m' where
    v: "mem_init (bsd_mem_get mc) (st_mem st) m = (1, v, m')" "mem_safe v"
    by (auto simp: bsd_machine_safe_def statics_safe_def)
  have "\<forall>g. promised g st \<longrightarrow> promised g (st\<lparr>st_mem := v\<rparr>)"
    by (rule allI, case_tac g) (simp_all add: v(2))
  with st v show ?thesis by (simp add: Mem_init statics_safe_def bsd_mem_get_def)
next
  case Fs_init
  with f show ?thesis by simp
next
  case Tcp_init
  let ?stats = "init_tcp_stats_bsd (bm_xinpgen_size mc) (bm_xtcpcb_size mc) (bm_pcblist_size mc) (bm_pcblist mc)"
  have t: "tables_12 (st_tcp st)" "pcbs_safe (bm_xinpgen_size mc) (bm_xtcpcb_size mc) (bm_pcblist mc)"
    using mc st by (simp_all add: statics_safe_def counters_safe_def tables_12_def bsd_machine_safe_def)
  have keep: "\<forall>g. promised g st \<longrightarrow> promised g (st\<lparr>st_tcp := v\<rparr>)" if "tables_12 v" for v
    by (rule allI, case_tac g) (use that in \<open>simp_all add: counters_safe_def tables_12_def\<close>)
  have safe: "statics_safe (st\<lparr>st_tcp := v\<rparr>) \<and> promised Tcp_init (st\<lparr>st_tcp := v\<rparr>)" if "tables_12 v" for v
    using st that by (simp add: statics_safe_def counters_safe_def tables_12_def)
  show ?thesis
  proof (cases "tcp_inited (st_tcp st)")
    case True
    with st keep [OF t(1)] safe [OF t(1)] show ?thesis by (simp add: Tcp_init bsd_tcp_init_def)
  next
    case False
    obtain ws r where i: "?stats (st_tcp st) = Some (ws, r)" using bsd_stats_safe [OF t(2,1)] by blast
    then show ?thesis
    proof (cases rule: init_tcp_stats_bsd_cases)
      case ended
      with i False show ?thesis by (simp add: Tcp_init bsd_tcp_init_def)
    next
      case (returned rc v)
      then have "tables_12 v" "tables_12 (v\<lparr>tcp_inited := True\<rparr>)" using t(1) by (simp_all add: tables_12_def)
      with i False returned keep safe show ?thesis by (simp add: Tcp_init bsd_tcp_init_def)
    qed
  qed
qed

section \<open>Print functions\<close>

text \<open>
  Apart from the modules of the sockets and the number of processes, the print functions are those of
  Linux: on a system with the same time, user, processors and environment they print the same.
\<close>

definition linux_view :: "'tm bsd_machine \<Rightarrow> 'tm machine" where
  "linux_view mc = \<lparr>mc_sysinfo = None, mc_uptime = None, mc_utmpx = bm_utmpx mc, mc_qsort = bm_qsort mc,
     mc_heap = bm_heap mc, mc_bat_status = None, mc_bat_capacity = None, mc_mountinfo = None,
     mc_statvfs = (\<lambda>p. None), mc_tcp4 = None, mc_tcp6 = None, mc_time = bm_time mc, mc_gmtime = bm_gmtime mc,
     mc_strftime = bm_strftime mc, mc_uid = bm_uid mc, mc_pw_name = bm_pw_name mc, mc_proc = None,
     mc_ncpus = bm_ncpus mc, mc_getenv = bm_getenv mc\<rparr>"

lemma linux_view_print:
  assumes "reads p \<noteq> Tcp_init" and "p \<noteq> Nproc_print"
  shows "bsd_call_print p mc st = call_print p (linux_view mc) st"
  using assms by (cases p) (simp_all add: linux_view_def)

lemma linux_view_safe: "bsd_machine_safe mc \<Longrightarrow> print_answers_safe (linux_view mc)"
  by (auto simp: bsd_machine_safe_def print_answers_safe_def linux_view_def)

lemma bsd_counters_print_safe:
  assumes "counters_safe st" and "i \<le> BSD_INDEX_TOTAL"
  shows "tcp_print_at fd (tcp_counters st) i \<noteq> None" "tcp_print_at fd (tcp4_counters st) i \<noteq> None"
    "tcp_print_at fd (tcp6_counters st) i \<noteq> None"
  using assms
  by (intro tcp_print_at_safe; simp add: counters_safe_def n_tcp_states_def BSD_INDEX_TOTAL_def BSD_TCP_STATE_LAST_def)+

lemma bsd_tcp_print_safe:
  assumes "counters_safe (st_tcp st)" and "reads p = Tcp_init"
  shows "bsd_call_print p mc st fd m s l \<noteq> None"
proof -
  note c = bsd_counters_print_safe [OF assms(1)]
  have n: "BSD_TCP_LISTEN \<le> BSD_INDEX_TOTAL" "BSD_TCP_ESTABLISHED \<le> BSD_INDEX_TOTAL" "BSD_TCP_CLOSING \<le> BSD_INDEX_TOTAL"
    by (simp_all add: bsd_tcp_enum)
  have "bsd_ntcp_print (st_tcp st) fd \<noteq> None"
    using ntcp_print_loop_defined [OF assms(1), of 0 fd] by (auto simp: bsd_ntcp_print_def tcp_print_num_def u64_fmt.exact)
  with assms(2) c n show ?thesis
    by (cases p) (simp_all add: bsd_ntcp_established_print_def bsd_ntcp_all_print_def bsd_ntcp_listen_print_def
      bsd_ntcp_closing_print_def bsd_ntcp4_established_print_def bsd_ntcp4_all_print_def bsd_ntcp4_listen_print_def
      bsd_ntcp4_closing_print_def bsd_ntcp6_established_print_def bsd_ntcp6_all_print_def bsd_ntcp6_listen_print_def
      bsd_ntcp6_closing_print_def split: if_splits)
qed

lemma bsd_call_print_safe:
  assumes "bsd_machine_safe mc" and "promised (reads (mod_print m)) st" and "mod_name m = cstring nm"
    and "is_text (nm @ t)"
    and "mod_print m \<in> color8_modules \<Longrightarrow> nm @ t \<noteq> [] \<and> last (nm @ t) \<noteq> CHR ''8''"
  shows "bsd_call_print (mod_print m) mc st fd m (cstring (nm @ t)) (length (nm @ t)) \<noteq> None"
proof -
  consider "reads (mod_print m) = Tcp_init" | "mod_print m = Nproc_print"
    | "reads (mod_print m) \<noteq> Tcp_init" "mod_print m \<noteq> Nproc_print" by blast
  then show ?thesis
  proof cases
    case 1
    with assms(2) show ?thesis by (intro bsd_tcp_print_safe) simp_all
  next
    case 2
    then show ?thesis
      by (simp add: nproc_print_def get_number_active_processes_bsd_def djb_fmt.exact split: option.splits)
  next
    case 3
    show ?thesis
      unfolding linux_view_print [OF 3]
      by (rule call_print_safe [OF linux_view_safe [OF assms(1)] assms(2-4)]) (rule assms(5))
  qed
qed

section \<open>The whole program\<close>

interpretation bsd_safe: safe_build bsd_call_init statics_ok bsd_machine_safe statics_safe promised
    "\<lambda>f. f \<noteq> Fs_init" "{1, 2}" bsd_call_print
proof unfold_locales
  fix mc :: "'tm bsd_machine" and st f m
  assume "bsd_machine_safe mc" "statics_safe st" "f \<noteq> Fs_init"
  from bsd_call_init_safe [OF this, of m]
  show "(\<exists>ws code. bsd_call_init f mc st m = Some (ws, Inl code) \<and> code \<in> {1, 2}) \<or>
      (\<exists>ws rc st' m'. bsd_call_init f mc st m = Some (ws, Inr (rc, st', m')) \<and> statics_safe st' \<and>
        (rc = 0 \<longrightarrow> 1 \<in> {1, 2}) \<and> (rc \<noteq> 0 \<longrightarrow> mod_ready m \<or> promised f st') \<and> (\<forall>g. promised g st \<longrightarrow> promised g st'))" by blast
next
  fix mc :: "'tm bsd_machine" and m :: ustat_module and st nm t fd
  assume "bsd_machine_safe mc" "promised (reads (mod_print m)) st" "mod_name m = cstring nm" "is_text (nm @ t)"
    and "mod_print m \<in> color8_modules \<Longrightarrow> nm @ t \<noteq> [] \<and> last (nm @ t) \<noteq> CHR ''8''"
  then show "bsd_call_print (mod_print m) mc st fd m (cstring (nm @ t)) (length (nm @ t)) \<noteq> None"
    by (rule bsd_call_print_safe)
qed (simp_all add: statics_initial_safe)


text \<open>Such a run ends, after a number of steps that depends on the numbers of arguments and modules only.\<close>

lemma bsd_main_live:
  assumes "\<forall>i. bsd_machine_safe (mach i) \<and> bsd_machine_safe (mach' i)" and "list_all arg_safe ss"
    and "list_all (\<lambda>s. mod_init (chosen (cstring s)) \<noteq> Fs_init) ss"
    and "(main_step bsd_call_init bsd_call_print mach mach' (map cstring ss) ^^ n) main_start c"
  shows "n \<le> (length ss + 1) * (nmodules + 4) + 2 \<and>
    (\<exists>c' code. (main_step bsd_call_init bsd_call_print mach mach' (map cstring ss))\<^sup>*\<^sup>* c c' \<and>
      cf_pc c' = Exited code \<and> code \<in> {0, 1, 2})"
  by (rule bsd_safe.run_live [OF assms])

lemma bsd_example_safe: "bsd_machine_safe bsd_example"
proof -
  have "utmpx_safe (bm_utmpx bsd_example)"
  proof -
    have "list_all utmpx_ok [login ''ann'']" by code_simp
    moreover have "users [login ''ann''] = [''ann'']" by (simp add: users_def login_def)
    ultimately show ?thesis by (simp add: utmpx_safe_def bsd_example_def prefix_free_def)
  qed
  then show ?thesis
    by (simp add: bsd_machine_safe_def bsd_example_def loadavg_safe_def pcbs_safe_def pcb_bytes_def Let_def
        bsd_mem_get_def mem_get_bsd_def mem_safe_def insertion_sort_sorts zeroed_zero_heap)
qed


end
