(* ===== verification/Tcp_netlink.thy ===== *)
theory Tcp_netlink
  imports Tcp
begin

text \<open>
  The part of \<^verbatim>\<open>ustat_tcp_linux.c\<close> for \<open>USTAT_NETLINK\<close>: the counters are filled from the messages
  of a netlink socket. The code calls \<open>_sum_counters\<close> with a third argument that the function does not
  have; the model leaves it out.
\<close>

section \<open>Requests\<close>

text \<open>Numbers of the interface of the kernel.\<close>

definition AF_INET :: nat where "AF_INET = 2"
definition AF_INET6 :: nat where "AF_INET6 = 10"
definition NLMSG_ERROR :: nat where "NLMSG_ERROR = 2"
definition NLMSG_DONE :: nat where "NLMSG_DONE = 3"

text \<open>
  The members of \<open>struct nlmsghdr\<close> and \<open>struct inet_diag_req_v2\<close> that are set, all others being
  zero: \<open>NLMSG_LENGTH\<close> of 56 bytes, \<open>NLM_F_DUMP | NLM_F_REQUEST\<close>, \<open>SOCK_DIAG_BY_FAMILY\<close>, the family,
  \<open>IPPROTO_TCP\<close> and the set of states.
\<close>

record nl_request =
  nlmsg_len :: nat
  nlmsg_flags :: nat
  nlmsg_type :: nat
  sdiag_family :: nat
  sdiag_protocol :: nat
  idiag_states :: nat

text \<open>A message, as the code reads it: its type and the state of a socket.\<close>

type_synonym nlmsg = "nat \<times> u8"

text \<open>What the kernel does with a request: the result of \<open>sendmsg\<close>, and the datagrams it answers.\<close>

type_synonym kernel = "nl_request \<Rightarrow> int \<times> nlmsg list list"

definition request_tcp_diag :: "kernel \<Rightarrow> nat \<Rightarrow> int \<times> nlmsg list list" where
  "request_tcp_diag sendmsg family = sendmsg
     \<lparr>nlmsg_len = 16 + 56, nlmsg_flags = 0x300 + 1, nlmsg_type = 20,
      sdiag_family = family, sdiag_protocol = 6, idiag_states = 0xfff\<rparr>"

section \<open>Counting\<close>

text \<open>
  The inner loop, over the messages of one datagram. It ends with the datagram, with
  \<open>NLMSG_DONE\<close> or with \<open>NLMSG_ERROR\<close>. The number of messages stays below 2^63.
\<close>

datatype msgs_end = Msgs_read | Msgs_done | Msgs_error

fun count_messages :: "nlmsg list \<Rightarrow> u64 list \<Rightarrow> int \<Rightarrow> (msgs_end \<times> u64 list \<times> int) option" where
  "count_messages [] counter i = Some (Msgs_read, counter, i)"
| "count_messages ((ty, state) # ms) counter i =
     (if ty = NLMSG_DONE then Some (Msgs_done, counter, i)
      else if ty = NLMSG_ERROR then Some (Msgs_error, counter, i)
      else do {
        counter \<leftarrow> arr_add counter (unat state) 1;
        count_messages ms counter (i + 1) })"

text \<open>
  The outer loop. A failing \<open>recv\<close> delivers no message and is tried again; when no datagram is left
  the loop never ends, which is \<^term>\<open>None\<close>. The result holds the datagrams that are still unread.
\<close>

partial_function (option) count_tcp_states ::
  "nlmsg list list \<Rightarrow> u64 list \<Rightarrow> int \<Rightarrow> (int \<times> u64 list \<times> nlmsg list list) option" where
  "count_tcp_states sock counter i = (case sock of
     [] \<Rightarrow> count_tcp_states [] counter i
   | ms # sock \<Rightarrow> do {
       r \<leftarrow> count_messages ms counter i;
       (case r of (e, counter, i) \<Rightarrow> (case e of
          Msgs_read \<Rightarrow> count_tcp_states sock counter i
        | Msgs_done \<Rightarrow> Some (i, counter, sock)
        | Msgs_error \<Rightarrow> Some (-1, counter, sock))) })"

section \<open>Initialisation\<close>

definition error_no_netlink_to_kernel :: cstr where
  "error_no_netlink_to_kernel = cstring (''can'' @ [CHR 0x27] @ ''t get netlink-socket from kernel'' @ [LF])"

definition error_no_tcp_diag :: cstr where
  "error_no_tcp_diag = cstring (''can'' @ [CHR 0x27] @ ''t get tcp-diag via netlink'' @ [LF])"

text \<open>The first argument tells whether \<open>socket\<close> succeeds.\<close>

definition init_tcp_stats_via_netlink :: "bool \<Rightarrow> kernel \<Rightarrow> tcp_state \<Rightarrow> (out \<times> int \<times> tcp_state) option" where
  "init_tcp_stats_via_netlink opened krn st = (
     if \<not> opened then Some ([(STDERR_FILENO, error_no_netlink_to_kernel)], 0, st)
     else (case request_tcp_diag krn AF_INET of (r, sock) \<Rightarrow>
       if r < 0 then Some ([(STDERR_FILENO, error_no_tcp_diag)], 0, st)
       else do {
         (n, c4, sock) \<leftarrow> count_tcp_states sock (tcp4_counters st) 0;
         if n < 0 then Some ([], 0, st\<lparr>tcp4_counters := c4\<rparr>)
         else do {
           (all, c4) \<leftarrow> sum_counters TCP_STATE_FIRST TCP_STATE_LAST INDEX_TOTAL (tcp_counters st) c4;
           let st = st\<lparr>tcp_counters := all, tcp4_counters := c4\<rparr>;
           (case request_tcp_diag krn AF_INET6 of (r, answer) \<Rightarrow>
             if r < 0 then Some ([], 1, st)
             else do {
               (_, c6, _) \<leftarrow> count_tcp_states (sock @ answer) (tcp6_counters st) 0;
               (all, c6) \<leftarrow> sum_counters TCP_STATE_FIRST TCP_STATE_LAST INDEX_TOTAL (tcp_counters st) c6;
               Some ([], 1, st\<lparr>tcp_counters := all, tcp6_counters := c6\<rparr>) }) }}))"

text \<open>\<open>_init_tcp_stats\<close>: the variable \<open>FORCE_PROC_NET_TCP\<close>, and the fallback.\<close>

definition init_tcp_stats_netlink ::
  "(string \<Rightarrow> cstr option) \<Rightarrow> bool \<Rightarrow> kernel \<Rightarrow> stream option \<Rightarrow> stream option \<Rightarrow> tcp_state \<Rightarrow>
     (out \<times> int \<times> tcp_state) option" where
  "init_tcp_stats_netlink getenv opened krn tcp4 tcp6 st = do {
     (ws, rc, st) \<leftarrow> (if getenv ''FORCE_PROC_NET_TCP'' = None then init_tcp_stats_via_netlink opened krn st
       else Some ([], 0, st));
     if rc = 0 then do {
       (rc, st) \<leftarrow> init_tcp_stats_via_proc_net_tcp tcp4 tcp6 st;
       Some (ws, rc, st) }
     else Some (ws, rc, st) }"

section \<open>Properties\<close>

text \<open>The messages for lines of a file, and answers that hold them and then \<open>NLMSG_DONE\<close>.\<close>

definition messages :: "tcp_line list \<Rightarrow> nlmsg list" where
  "messages xs = map (\<lambda>x. (20, of_nat (line_state x))) xs"

definition answers :: "nlmsg list list \<Rightarrow> tcp_line list \<Rightarrow> bool" where
  "answers ds xs \<longleftrightarrow> concat ds = messages xs @ [(NLMSG_DONE, 0)]"

lemma count_messages_lines:
  assumes "\<forall>x \<in> set xs. line_state x < n_tcp_states" and "length counter = n_tcp_states"
  shows "count_messages (messages xs @ ms) counter i =
    count_messages ms (foldl bump counter (map line_state xs)) (i + int (length xs))"
  using assms
proof (induction xs arbitrary: counter i)
  case Nil
  then show ?case by (simp add: messages_def)
next
  case (Cons x xs)
  have "unat (of_nat (line_state x) :: u8) = line_state x"
    using Cons.prems(1) by (simp add: unat_of_nat n_tcp_states_def)
  then show ?case
    using Cons by (simp add: messages_def NLMSG_DONE_def NLMSG_ERROR_def arr_add_def bump_def add.assoc)
qed

lemma count_answers:
  assumes "answers ds xs" and "\<forall>x \<in> set xs. line_state x < n_tcp_states"
    and "length counter = n_tcp_states"
  shows "\<exists>rest. count_tcp_states (ds @ ds') counter i =
    Some (i + int (length xs), foldl bump counter (map line_state xs), rest @ ds') \<and> concat rest = []"
  using assms
proof (induction ds arbitrary: xs counter i)
  case Nil
  then show ?case by (simp add: answers_def)
next
  case (Cons d ds)
  from Cons.prems(1) have c: "d @ concat ds = messages xs @ [(NLMSG_DONE, 0)]" by (simp add: answers_def)
  show ?case
  proof (cases "concat ds = []")
    case True
    then have "d = messages xs @ [(NLMSG_DONE, 0)]" using c unfolding True by simp
    then have "count_tcp_states ((d # ds) @ ds') counter i =
        Some (i + int (length xs), foldl bump counter (map line_state xs), ds @ ds')"
      using count_messages_lines [OF Cons.prems(2,3)] by (subst count_tcp_states.simps) simp
    with True show ?thesis by blast
  next
    case False
    then obtain ms z where "concat ds = ms @ [z]" by (cases "concat ds" rule: rev_cases) auto
    with c have ms: "concat ds = ms @ [(NLMSG_DONE, 0)]" "d @ ms = messages xs" by simp_all
    define ys zs where "ys = take (length d) xs" and "zs = drop (length d) xs"
    have d: "d = messages ys" "ms = messages zs" "xs = ys @ zs"
      using ms(2) unfolding ys_def zs_def messages_def
      by (auto simp: take_map [symmetric] drop_map [symmetric] append_eq_conv_conj)
    have "answers ds zs" using ms(1) d(2) by (simp add: answers_def)
    from Cons.IH [OF this, of "foldl bump counter (map line_state ys)" "i + int (length ys)"] Cons.prems(2,3) d(3)
    obtain rest where "count_tcp_states (ds @ ds') (foldl bump counter (map line_state ys)) (i + int (length ys)) =
        Some (i + int (length xs), foldl bump counter (map line_state xs), rest @ ds')" "concat rest = []"
      by (auto simp: add.assoc)
    moreover have "count_messages d counter i =
        Some (Msgs_read, foldl bump counter (map line_state ys), i + int (length ys))"
      using count_messages_lines [of ys counter "[]" i] Cons.prems(2,3) d by simp
    ultimately show ?thesis by (subst count_tcp_states.simps) simp
  qed
qed


lemma count_tcp_states_Nil: "count_tcp_states [] counter i = None"
proof (rule ccontr)
  assume "count_tcp_states [] counter i \<noteq> None"
  then obtain r where "count_tcp_states [] counter i = Some r" by auto
  then have "[] \<noteq> ([] :: nlmsg list list)"
    by (rule count_tcp_states.raw_induct [where P = "\<lambda>sock counter i r. sock \<noteq> []", rotated])
      (auto split: list.splits, blast)
  then show False by simp
qed

text \<open>
  C40. Without a message \<open>NLMSG_DONE\<close> or \<open>NLMSG_ERROR\<close> the code never returns: neither the end of
  the datagrams nor an error of \<open>recv\<close> ends the loop.
\<close>

theorem count_tcp_states_hangs:
  assumes "list_all (\<lambda>m. fst m \<noteq> NLMSG_DONE \<and> fst m \<noteq> NLMSG_ERROR) (concat ds)"
  shows "count_tcp_states ds counter i = None"
  using assms
proof (induction ds arbitrary: counter i)
  case Nil
  show ?case by (rule count_tcp_states_Nil)
next
  case (Cons d ds)
  have "e = Msgs_read" if "count_messages ms c i = Some (e, c', i')"
    "list_all (\<lambda>m. fst m \<noteq> NLMSG_DONE \<and> fst m \<noteq> NLMSG_ERROR) ms" for ms c i e c' i'
    using that by (induction ms c i rule: count_messages.induct) auto
  then show ?case
    using Cons by (subst count_tcp_states.simps) (cases "count_messages d counter i"; fastforce)
qed

theorem count_tcp_states_hangs_witness:
  "count_tcp_states [[(20, 1), (20, 10)], []] (replicate n_tcp_states 0) 0 = None"
  by (rule count_tcp_states_hangs) (simp add: NLMSG_DONE_def NLMSG_ERROR_def)

text \<open>
  Both ways to the counters agree: when the kernel answers with a message for each socket and
  then \<open>NLMSG_DONE\<close>, in any number of datagrams, the netlink code leaves the same tables as the
  parser of the files that hold a line for each socket.
\<close>

theorem netlink_equals_proc:
  assumes "clean fd4" and "content fd4 = proc_text h4 xs4" and "LF \<notin> set h4" and "known_lines xs4"
    and "clean fd6" and "content fd6 = proc_text h6 xs6" and "LF \<notin> set h6" and "known_lines xs6"
    and "request_tcp_diag krn AF_INET = (r4, ds4)" and "0 \<le> r4" and "answers ds4 xs4"
    and "request_tcp_diag krn AF_INET6 = (r6, ds6)" and "0 \<le> r6" and "answers ds6 xs6"
  shows "\<exists>st. init_tcp_stats_via_netlink True krn tcp_initial = Some ([], 1, st) \<and>
    init_tcp_stats_via_proc_net_tcp (Some fd4) (Some fd6) tcp_initial = Some (1, st)"
proof -
  have ok: "list_all line_ok xs" "\<forall>x \<in> set xs. line_state x < n_tcp_states" if "known_lines xs" for xs
    using that known_states [OF that] by (auto simp: known_lines_def list_all_iff)
  note p4 = process_lines [OF assms(1-3) ok [OF assms(4)]]
  note p6 = process_lines [OF assms(5-7) ok [OF assms(8)]]
  have tal: "foldl bump (replicate n_tcp_states 0) (map line_state xs) = tally xs" if "known_lines xs" for xs
    using ok(2) [OF that] by (intro nth_equalityI) (auto simp: foldl_bump_nth tally_def)
  obtain rest4 where c4: "count_tcp_states ds4 (replicate n_tcp_states 0) 0 =
      Some (int (length xs4), tally xs4, rest4)" "concat rest4 = []"
    using count_answers [OF assms(11) ok(2) [OF assms(4)], of "replicate n_tcp_states 0" "[]" 0] tal [OF assms(4)]
    by auto
  have "answers (rest4 @ ds6) xs6" using assms(14) c4(2) by (simp only: answers_def concat_append append_Nil)
  then obtain rest6 where c6: "count_tcp_states (rest4 @ ds6) (replicate n_tcp_states 0) 0 =
      Some (int (length xs6), tally xs6, rest6)"
    using count_answers [OF _ ok(2) [OF assms(8)], of "rest4 @ ds6" "replicate n_tcp_states 0" "[]" 0] tal [OF assms(8)]
    by auto
  have len: "length (with_total (tally xs)) = n_tcp_states" for xs by (simp add: with_total_def)
  show ?thesis
    using assms(9,10,12,13) c4(1) c6 p4 p6
    by (simp add: init_tcp_stats_via_netlink_def init_tcp_stats_via_proc_net_tcp_def tcp_initial_def
        sum_counters_table len)
qed

theorem netlink_equals_proc_witness:
  "\<exists>st. init_tcp_stats_via_netlink True (\<lambda>rq. (0, [messages [listening_line], [(NLMSG_DONE, 0)]])) tcp_initial =
      Some ([], 1, st) \<and>
    init_tcp_stats_via_proc_net_tcp (Some [Bytes (proc_text proc_head [listening_line])])
      (Some [Bytes (proc_text proc_head [listening_line])]) tcp_initial = Some (1, st)"
proof -
  have k: "known_lines [listening_line]" using examples_ok(1) by (simp add: known_lines_def)
  have f: "clean [Bytes (proc_text proc_head xs)]" "content [Bytes (proc_text proc_head xs)] = proc_text proc_head xs" for xs
    by (simp_all add: proc_text_def)
  let ?ds = "[messages [listening_line], [(NLMSG_DONE, 0)]]"
  have r: "request_tcp_diag (\<lambda>rq. (0, ?ds)) family = (0, ?ds)" for family
    by (simp add: request_tcp_diag_def)
  have a: "answers ?ds [listening_line]" by (simp add: answers_def)
  show ?thesis
    by (rule netlink_equals_proc [OF f examples_ok(2) k f examples_ok(2) k r order_refl a r order_refl a])
qed

end
