(* ===== verification/Netlink.thy ===== *)
theory Netlink
  imports Depends Steps Tcp_netlink
begin

text \<open>
  The program in a build for Linux with \<open>USTAT_NETLINK\<close>: the counters of sockets come from a netlink
  socket and, where that fails or the environment asks for it, from the files. The build is shown to
  give the same results as the one without \<open>USTAT_NETLINK\<close>.
\<close>

section \<open>Dispatch\<close>

text \<open>What the system answers to \<open>socket\<close>, \<open>sendmsg\<close> and \<open>recv\<close>.\<close>

record netlink =
  nl_opened :: bool
  nl_kernel :: kernel

text \<open>\<open>tcp_init\<close> of \<^verbatim>\<open>ustat_tcp.c\<close> with the other \<open>_init_tcp_stats\<close>.\<close>

definition netlink_tcp_init ::
  "(string \<Rightarrow> cstr option) \<Rightarrow> bool \<Rightarrow> kernel \<Rightarrow> stream option \<Rightarrow> stream option \<Rightarrow> tcp_state \<Rightarrow> ustat_module \<Rightarrow>
     (out \<times> int \<times> tcp_state \<times> ustat_module) option" where
  "netlink_tcp_init getenv opened krn tcp4 tcp6 st m =
     (if tcp_inited st then Some ([], 1, st, m\<lparr>mod_ready := True\<rparr>)
      else do {
        (ws, rc, st) \<leftarrow> init_tcp_stats_netlink getenv opened krn tcp4 tcp6 st;
        if rc = 0 then Some (ws, 0, st, m)
        else Some (ws, 1, st\<lparr>tcp_inited := True\<rparr>, m\<lparr>mod_ready := True\<rparr>) })"

definition netlink_call_init :: "init_fn \<Rightarrow> 'tm machine \<times> netlink \<Rightarrow> statics \<Rightarrow> ustat_module \<Rightarrow> inited" where
  "netlink_call_init f mc st m = (case mc of (mc, nl) \<Rightarrow>
     if f = Tcp_init then do {
       (ws, rc, v, m) \<leftarrow> netlink_tcp_init (mc_getenv mc) (nl_opened nl) (nl_kernel nl) (mc_tcp4 mc) (mc_tcp6 mc) (st_tcp st) m;
       Some (ws, Inr (rc, st\<lparr>st_tcp := v\<rparr>, m)) }
     else call_init f mc st m)"

definition netlink_call_print ::
  "print_fn \<Rightarrow> 'tm machine \<times> netlink \<Rightarrow> statics \<Rightarrow> nat \<Rightarrow> ustat_module \<Rightarrow> cstr \<Rightarrow> nat \<Rightarrow> printed" where
  "netlink_call_print p mc = call_print p (fst mc)"

definition netlink_main ::
  "(nat \<Rightarrow> 'tm machine \<times> netlink) \<Rightarrow> (nat \<Rightarrow> 'tm machine \<times> netlink) \<Rightarrow> cstr list \<Rightarrow> (out \<times> int) option" where
  "netlink_main mach mach' args = main_of netlink_call_init netlink_call_print mach mach' args"

interpretation netlink_build: build netlink_call_init netlink_call_print
  by unfold_locales (simp_all add: netlink_call_init_def netlink_call_print_def split: prod.splits)

section \<open>The contract of the initialisers\<close>

lemma count_messages_length:
  "count_messages ms counter i = Some (e, counter', i') \<Longrightarrow> length counter' = length counter"
  by (induction ms counter i rule: count_messages.induct) (auto simp: arr_add_length split: if_splits)

lemma count_tcp_states_length:
  "count_tcp_states sock counter i = Some r \<Longrightarrow> length (fst (snd r)) = length counter"
proof (rule count_tcp_states.raw_induct [where P = "\<lambda>sock counter i r. length (fst (snd r)) = length counter"])
  fix f :: "nlmsg list list \<Rightarrow> u64 list \<Rightarrow> int \<Rightarrow> (int \<times> u64 list \<times> nlmsg list list) option"
    and sock counter i r
  assume IH: "\<And>sock counter i r. f sock counter i = Some r \<Longrightarrow> length (fst (snd r)) = length counter"
    and e: "(case sock of [] \<Rightarrow> f [] counter i
      | ms # sock \<Rightarrow> do {
          r \<leftarrow> count_messages ms counter i;
          (case r of (e, counter, i) \<Rightarrow> (case e of
             Msgs_read \<Rightarrow> f sock counter i
           | Msgs_done \<Rightarrow> Some (i, counter, sock)
           | Msgs_error \<Rightarrow> Some (-1, counter, sock))) }) = Some r"
  show "length (fst (snd r)) = length counter"
  proof (cases sock)
    case Nil
    with e IH show ?thesis by simp
  next
    case (Cons ms rest)
    with e obtain x c j where m: "count_messages ms counter i = Some (x, c, j)" by auto
    from count_messages_length [OF m] e Cons m IH [of rest c j r] show ?thesis by (cases x) auto
  qed
qed

lemma via_netlink_frame:
  assumes "init_tcp_stats_via_netlink opened krn st = Some (ws, rc, st')"
  shows "written 1 ws = [] \<and> (tables_12 st \<longrightarrow> tables_12 st') \<and> tcp_inited st' = tcp_inited st"
proof -
  obtain r4 ds4 r6 ds6 where q: "request_tcp_diag krn AF_INET = (r4, ds4)" "request_tcp_diag krn AF_INET6 = (r6, ds6)"
    by (metis surj_pair)
  consider "\<not> opened \<or> r4 < 0" | "opened" "0 \<le> r4" by linarith
  then show ?thesis
  proof cases
    case 1
    with assms q show ?thesis by (cases opened) (auto simp: init_tcp_stats_via_netlink_def)
  next
    case 2
    with assms q obtain n c4 rest where c4: "count_tcp_states ds4 (tcp4_counters st) 0 = Some (n, c4, rest)"
      by (auto simp: init_tcp_stats_via_netlink_def)
    then have l4: "length c4 = length (tcp4_counters st)" using count_tcp_states_length [OF c4] by simp
    consider "n < 0" | "0 \<le> n" "r6 < 0" | "0 \<le> n" "0 \<le> r6" by linarith
    then show ?thesis
    proof cases
      case 1
      with assms q 2 c4 l4 show ?thesis by (auto simp: init_tcp_stats_via_netlink_def tables_12_def)
    next
      case 2
      with assms q \<open>opened\<close> \<open>0 \<le> r4\<close> c4 l4 show ?thesis
        by (auto simp: init_tcp_stats_via_netlink_def tables_12_def dest!: sum_counters_length)
    next
      case 3
      with assms q \<open>opened\<close> \<open>0 \<le> r4\<close> c4 l4 show ?thesis
        by (auto simp: init_tcp_stats_via_netlink_def tables_12_def dest!: sum_counters_length count_tcp_states_length)
    qed
  qed
qed

lemma init_tcp_stats_netlink_frame:
  assumes "init_tcp_stats_netlink getenv opened krn tcp4 tcp6 st = Some (ws, rc, st')"
  shows "written 1 ws = [] \<and> (tables_12 st \<longrightarrow> tables_12 st') \<and> tcp_inited st' = tcp_inited st"
  using assms
  by (auto simp: init_tcp_stats_netlink_def dest!: via_netlink_frame via_proc_length split: if_splits)

lemma netlink_tcp_init_frame:
  assumes "netlink_tcp_init getenv opened krn tcp4 tcp6 st m = Some (ws, rc, st', m')"
  shows "(m' = m \<or> m' = m\<lparr>mod_ready := True\<rparr>) \<and> written 1 ws = [] \<and> (tables_12 st \<longrightarrow> tables_12 st') \<and>
    (rc \<noteq> 0 \<longrightarrow> tcp_inited st') \<and> (tcp_inited st \<longrightarrow> st' = st)"
proof (cases "tcp_inited st")
  case False
  with assms obtain w r s where i: "init_tcp_stats_netlink getenv opened krn tcp4 tcp6 st = Some (w, r, s)"
    "ws = w" "(m' = m \<or> m' = m\<lparr>mod_ready := True\<rparr>)" "if r = 0 then rc = 0 \<and> st' = s else st' = s\<lparr>tcp_inited := True\<rparr>"
    by (auto simp: netlink_tcp_init_def split: if_splits)
  with init_tcp_stats_netlink_frame [OF i(1)] False show ?thesis
    by (auto simp: tables_12_def split: if_splits)
qed (use assms in \<open>auto simp: netlink_tcp_init_def\<close>)

lemma netlink_call_init_tcp:
  assumes "netlink_call_init Tcp_init (mc, nl) st m = Some (ws, r)"
  obtains rc v m' where "r = Inr (rc, st\<lparr>st_tcp := v\<rparr>, m')"
    "netlink_tcp_init (mc_getenv mc) (nl_opened nl) (nl_kernel nl) (mc_tcp4 mc) (mc_tcp6 mc) (st_tcp st) m = Some (ws, rc, v, m')"
  using assms by (auto simp: netlink_call_init_def)

lemma netlink_call_init_other: "f \<noteq> Tcp_init \<Longrightarrow> netlink_call_init f mc st m = call_init f (fst mc) st m"
  by (cases mc) (simp add: netlink_call_init_def)

lemma netlink_call_init_contract:
  assumes "netlink_call_init f mc st m = Some (ws, r)"
  shows "written 1 ws = []"
    and "r \<noteq> Inl code"
    and "r = Inr (rc, st', m') \<Longrightarrow> m' = m \<or> m' = m\<lparr>mod_ready := True\<rparr>"
    and "r = Inr (rc, st', m') \<Longrightarrow> statics_ok st \<Longrightarrow> statics_ok st'"
    and "r = Inr (rc, st', m') \<Longrightarrow> snapshot st st'"
proof -
  have "written 1 ws = [] \<and> r \<noteq> Inl code \<and> (r = Inr (rc, st', m') \<longrightarrow>
    (m' = m \<or> m' = m\<lparr>mod_ready := True\<rparr>) \<and> (statics_ok st \<longrightarrow> statics_ok st') \<and> snapshot st st')"
  proof (cases "f = Tcp_init")
    case True
    obtain a nl where "mc = (a, nl)" by (cases mc)
    from netlink_call_init_tcp [OF assms [unfolded True this]] obtain rc v m' where
      "r = Inr (rc, st\<lparr>st_tcp := v\<rparr>, m')"
      "netlink_tcp_init (mc_getenv a) (nl_opened nl) (nl_kernel nl) (mc_tcp4 a) (mc_tcp6 a) (st_tcp st) m = Some (ws, rc, v, m')" .
    with netlink_tcp_init_frame [OF this(2)] show ?thesis
      by (auto simp: statics_ok_def snapshot_def tables_12_def)
  next
    case False
    note c = assms [unfolded netlink_call_init_other [OF False]]
    show ?thesis
      using c call_init_quiet [OF c] call_init_returns [of f "fst mc" st m ws]
        call_init_frame [of f "fst mc" st m ws rc st' m'] call_init_keeps [of st f "fst mc" m ws rc st' m']
        call_init_snapshot [of f "fst mc" st m ws rc st' m'] by auto
  qed
  then show "written 1 ws = []" "r \<noteq> Inl code"
    "r = Inr (rc, st', m') \<Longrightarrow> m' = m \<or> m' = m\<lparr>mod_ready := True\<rparr>"
    "r = Inr (rc, st', m') \<Longrightarrow> statics_ok st \<Longrightarrow> statics_ok st'"
    "r = Inr (rc, st', m') \<Longrightarrow> snapshot st st'" by blast+
qed

interpretation netlink: returning_initialiser netlink_call_init statics_ok
  by unfold_locales (blast dest: netlink_call_init_contract)+

interpretation netlink_grow: growing_initialiser netlink_call_init snapshot
  by unfold_locales (auto simp: snapshot_def dest: netlink_call_init_contract(5) [unfolded snapshot_def])

section \<open>Equal runs\<close>

text \<open>
  The kernel answers the two requests with one message for each line of the files, in any number of
  datagrams, and then with \<open>NLMSG_DONE\<close>; or the variable \<open>FORCE_PROC_NET_TCP\<close> is set.
\<close>

definition consistent :: "'tm machine \<Rightarrow> netlink \<Rightarrow> bool" where
  "consistent mc nl \<longleftrightarrow> mc_getenv mc ''FORCE_PROC_NET_TCP'' \<noteq> None \<or>
     nl_opened nl \<and> (\<exists>fd4 fd6 h4 h6 xs4 xs6 r4 r6 ds4 ds6.
       mc_tcp4 mc = Some fd4 \<and> clean fd4 \<and> content fd4 = proc_text h4 xs4 \<and> LF \<notin> set h4 \<and> known_lines xs4 \<and>
       mc_tcp6 mc = Some fd6 \<and> clean fd6 \<and> content fd6 = proc_text h6 xs6 \<and> LF \<notin> set h6 \<and> known_lines xs6 \<and>
       request_tcp_diag (nl_kernel nl) AF_INET = (r4, ds4) \<and> 0 \<le> r4 \<and> answers ds4 xs4 \<and>
       request_tcp_diag (nl_kernel nl) AF_INET6 = (r6, ds6) \<and> 0 \<le> r6 \<and> answers ds6 xs6)"

text \<open>The netlink code gives up, for whatever reason: no socket, no request, or an error message.\<close>

definition gives_up :: "netlink \<Rightarrow> bool" where
  "gives_up nl \<longleftrightarrow> (\<exists>ws st. init_tcp_stats_via_netlink (nl_opened nl) (nl_kernel nl) tcp_initial = Some (ws, 0, st))"

lemma consistent_stats:
  assumes "consistent mc nl"
  shows "init_tcp_stats_netlink (mc_getenv mc) (nl_opened nl) (nl_kernel nl) (mc_tcp4 mc) (mc_tcp6 mc) tcp_initial =
    map_option (\<lambda>(rc, st). ([], rc, st)) (init_tcp_stats (mc_tcp4 mc) (mc_tcp6 mc) tcp_initial)"
proof (cases "mc_getenv mc ''FORCE_PROC_NET_TCP'' = None")
  case False
  then show ?thesis
    by (cases "init_tcp_stats_via_proc_net_tcp (mc_tcp4 mc) (mc_tcp6 mc) tcp_initial")
      (auto simp: init_tcp_stats_netlink_def init_tcp_stats_def)
next
  case True
  with assms obtain fd4 fd6 h4 h6 xs4 xs6 r4 r6 ds4 ds6 where o: "nl_opened nl"
    and p4: "mc_tcp4 mc = Some fd4" "clean fd4" "content fd4 = proc_text h4 xs4" "LF \<notin> set h4" "known_lines xs4"
    and p6: "mc_tcp6 mc = Some fd6" "clean fd6" "content fd6 = proc_text h6 xs6" "LF \<notin> set h6" "known_lines xs6"
    and n4: "request_tcp_diag (nl_kernel nl) AF_INET = (r4, ds4)" "0 \<le> r4" "answers ds4 xs4"
    and n6: "request_tcp_diag (nl_kernel nl) AF_INET6 = (r6, ds6)" "0 \<le> r6" "answers ds6 xs6"
    unfolding consistent_def by blast
  from netlink_equals_proc [OF p4(2-5) p6(2-5) n4 n6] o p4(1) p6(1) True show ?thesis
    by (auto simp: init_tcp_stats_netlink_def init_tcp_stats_def)
qed

lemma via_proc_fresh:
  "map_option (\<lambda>(rc, st). (rc, if rc = 0 then tcp_initial else st))
      (init_tcp_stats_via_proc_net_tcp tcp4 tcp6 (tcp_initial\<lparr>tcp4_counters := c4\<rparr>)) =
    map_option (\<lambda>(rc, st). (rc, if rc = 0 then tcp_initial else st)) (init_tcp_stats_via_proc_net_tcp tcp4 tcp6 tcp_initial)"
  by (simp add: init_tcp_stats_via_proc_net_tcp_def tcp_initial_def Let_def map_option_bind comp_def case_prod_beta'
      split: option.splits)

lemma gives_up_state:
  assumes "init_tcp_stats_via_netlink opened krn tcp_initial = Some (ws, 0, st)"
  shows "\<exists>c4. st = tcp_initial\<lparr>tcp4_counters := c4\<rparr>"
proof -
  obtain r4 ds4 r6 ds6 where q: "request_tcp_diag krn AF_INET = (r4, ds4)" "request_tcp_diag krn AF_INET6 = (r6, ds6)"
    by (metis surj_pair)
  have same: "\<exists>c4. tcp_initial = tcp_initial\<lparr>tcp4_counters := c4\<rparr>"
    by (rule exI [of _ "tcp4_counters tcp_initial"]) simp
  consider "\<not> opened" | "opened" "r4 < 0" | "opened" "0 \<le> r4" by linarith
  then show ?thesis
  proof cases
    case 3
    with assms q obtain n c4 rest where c4: "count_tcp_states ds4 (tcp4_counters tcp_initial) 0 = Some (n, c4, rest)"
      by (auto simp: init_tcp_stats_via_netlink_def)
    then show ?thesis
      using assms q 3 by (cases "n < 0"; cases "r6 < 0") (auto simp: init_tcp_stats_via_netlink_def)
  qed (use assms q in \<open>auto simp: init_tcp_stats_via_netlink_def intro: same\<close>)
qed

text \<open>What \<open>main\<close> sees of \<open>tcp_init\<close> in both builds.\<close>

lemma consistent_call:
  assumes "consistent mc nl" and "st_tcp st = tcp_initial \<or> tcp_inited (st_tcp st)"
  shows "netlink_call_init Tcp_init (mc, nl) st m = call_init Tcp_init mc st m"
proof (cases "tcp_inited (st_tcp st)")
  case True
  then show ?thesis by (simp add: netlink_call_init_def netlink_tcp_init_def tcp_init_def)
next
  case False
  with assms(2) have "st_tcp st = tcp_initial" by simp
  with False consistent_stats [OF assms(1)] show ?thesis
    by (cases "init_tcp_stats (mc_tcp4 mc) (mc_tcp6 mc) tcp_initial")
      (auto simp: netlink_call_init_def netlink_tcp_init_def tcp_init_def)
qed

lemma gives_up_call:
  assumes "gives_up nl" and "st_tcp st = tcp_initial \<or> tcp_inited (st_tcp st)"
  shows "map_option (seen (written 1)) (netlink_call_init Tcp_init (mc, nl) st m) =
    map_option (seen (written 1)) (call_init Tcp_init mc st m)"
proof (cases "tcp_inited (st_tcp st) \<or> mc_getenv mc ''FORCE_PROC_NET_TCP'' \<noteq> None")
  case True
  then have "netlink_call_init Tcp_init (mc, nl) st m = call_init Tcp_init mc st m"
  proof
    assume "tcp_inited (st_tcp st)"
    then show ?thesis by (simp add: netlink_call_init_def netlink_tcp_init_def tcp_init_def)
  next
    assume "mc_getenv mc ''FORCE_PROC_NET_TCP'' \<noteq> None"
    then have "consistent mc nl" by (simp add: consistent_def)
    then show ?thesis using assms(2) by (rule consistent_call)
  qed
  then show ?thesis by simp
next
  case False
  with assms(2) have st: "st_tcp st = tcp_initial" "\<not> tcp_inited tcp_initial" by auto
  from assms(1) obtain ws s where n: "init_tcp_stats_via_netlink (nl_opened nl) (nl_kernel nl) tcp_initial = Some (ws, 0, s)"
    unfolding gives_up_def by blast
  then obtain c4 where s: "s = tcp_initial\<lparr>tcp4_counters := c4\<rparr>" using gives_up_state by blast
  from via_netlink_frame [OF n] have w: "written 1 ws = []" by simp
  from via_proc_fresh [of "mc_tcp4 mc" "mc_tcp6 mc" c4] n w st False show ?thesis
    unfolding s
    by (cases "init_tcp_stats_via_proc_net_tcp (mc_tcp4 mc) (mc_tcp6 mc) tcp_initial";
        cases "init_tcp_stats_via_proc_net_tcp (mc_tcp4 mc) (mc_tcp6 mc) (tcp_initial\<lparr>tcp4_counters := c4\<rparr>)")
      (auto simp: netlink_call_init_def netlink_tcp_init_def init_tcp_stats_netlink_def tcp_init_def init_tcp_stats_def
        seen_def split: if_splits)
qed

text \<open>The counters are those of the start until they are complete.\<close>

definition fresh_or_read :: "statics \<Rightarrow> bool" where
  "fresh_or_read st \<longleftrightarrow> st_tcp st = tcp_initial \<or> tcp_inited (st_tcp st)"

lemma netlink_call_init_fresh:
  assumes "fresh_or_read st" and "netlink_call_init f mc st m = Some (ws, Inr (rc, st', m'))" and "rc \<noteq> 0"
  shows "fresh_or_read st'"
proof (cases "f = Tcp_init")
  case True
  obtain a nl where "mc = (a, nl)" by (cases mc)
  from netlink_call_init_tcp [OF assms(2) [unfolded True this]] obtain rc' v m2 where
    "Inr (rc, st', m') = (Inr (rc', st\<lparr>st_tcp := v\<rparr>, m2) :: int + int \<times> statics \<times> ustat_module)"
    "netlink_tcp_init (mc_getenv a) (nl_opened nl) (nl_kernel nl) (mc_tcp4 a) (mc_tcp6 a) (st_tcp st) m = Some (ws, rc', v, m2)" .
  with netlink_tcp_init_frame [OF this(2)] assms(3) show ?thesis by (simp add: fresh_or_read_def)
next
  case False
  from assms(2) [unfolded netlink_call_init_other [OF False]] False have "st_tcp st' = st_tcp st"
    by (cases f) (auto simp: no_init_def split: prod.splits)
  with assms(1) show ?thesis by (simp add: fresh_or_read_def)
qed

lemma fresh_initial: "fresh_or_read statics_initial"
  by (simp add: fresh_or_read_def statics_initial_def)

interpretation netlink_same: same_runs netlink_call_init statics_ok call_init netlink_call_print call_print "\<lambda>ws. ws"
    "\<lambda>f mc mc'. fst mc = mc' \<and> (f = Tcp_init \<longrightarrow> consistent (fst mc) (snd mc))" "\<lambda>p mc mc'. fst mc = mc'" fresh_or_read
proof unfold_locales
  fix f :: init_fn and mc :: "'tm machine \<times> netlink" and mc' st m
  assume "fst mc = mc' \<and> (f = Tcp_init \<longrightarrow> consistent (fst mc) (snd mc))" "fresh_or_read st"
  then show "map_option (seen (\<lambda>ws. ws)) (netlink_call_init f mc st m) = map_option (seen (\<lambda>ws. ws)) (call_init f mc' st m)"
    using consistent_call [of "fst mc" "snd mc" st m]
    by (cases "f = Tcp_init") (auto simp: netlink_call_init_other fresh_or_read_def)
qed (auto simp: fresh_initial netlink_call_print_def intro: netlink_call_init_fresh)

interpretation netlink_fallback: same_runs netlink_call_init statics_ok call_init netlink_call_print call_print "written 1"
    "\<lambda>f mc mc'. fst mc = mc' \<and> (f = Tcp_init \<longrightarrow> gives_up (snd mc))" "\<lambda>p mc mc'. fst mc = mc'" fresh_or_read
proof unfold_locales
  fix f :: init_fn and mc :: "'tm machine \<times> netlink" and mc' st m
  assume "fst mc = mc' \<and> (f = Tcp_init \<longrightarrow> gives_up (snd mc))" "fresh_or_read st"
  then show "map_option (seen (written 1)) (netlink_call_init f mc st m) = map_option (seen (written 1)) (call_init f mc' st m)"
    using gives_up_call [of "snd mc" st "fst mc" m]
    by (cases "f = Tcp_init") (auto simp: netlink_call_init_other fresh_or_read_def)
qed (auto simp: fresh_initial netlink_call_print_def intro: netlink_call_init_fresh)

section \<open>Properties\<close>

text \<open>A kernel that knows the sockets in the files of \<open>example_machine\<close>.\<close>

definition example_netlink :: netlink where
  "example_netlink = \<lparr>nl_opened = True, nl_kernel = (\<lambda>rq. (72,
     [messages (if sdiag_family rq = AF_INET then [listening_line, established_line] else [established_line]),
      [(NLMSG_DONE, 0)]]))\<rparr>"

lemma example_consistent: "consistent example_machine example_netlink"
proof -
  have k: "known_lines [listening_line, established_line]" "known_lines [established_line]" "LF \<notin> set proc_head"
    using examples_ok by (simp_all add: known_lines_def)
  have c: "clean [Bytes (proc_text proc_head xs)]" "content [Bytes (proc_text proc_head xs)] = proc_text proc_head xs" for xs
    by (simp_all add: proc_text_def)
  have q: "request_tcp_diag (nl_kernel example_netlink) AF_INET =
      (72, [messages [listening_line, established_line], [(NLMSG_DONE, 0)]])"
    "request_tcp_diag (nl_kernel example_netlink) AF_INET6 = (72, [messages [established_line], [(NLMSG_DONE, 0)]])"
    by (simp_all add: request_tcp_diag_def example_netlink_def AF_INET_def AF_INET6_def)
  have a: "answers [messages xs, [(NLMSG_DONE, 0)]] xs" for xs by (simp add: answers_def)
  have t: "mc_tcp4 example_machine = Some [Bytes (proc_text proc_head [listening_line, established_line])]"
    "mc_tcp6 example_machine = Some [Bytes (proc_text proc_head [established_line])]" "nl_opened example_netlink"
    by (simp_all add: example_machine_def example_netlink_def)
  have p: "(0 :: int) \<le> 72" by simp
  from t k c q a p show ?thesis unfolding consistent_def by blast
qed

lemma netlink_same_run:
  assumes "list_all terminated args"
    and "\<forall>n < length args. mod_init (chosen (args ! n)) = Tcp_init \<longrightarrow> consistent (fst (mach (n + 1))) (snd (mach (n + 1)))"
  shows "netlink_main mach mach' args = ustat_main (\<lambda>i. fst (mach i)) (\<lambda>i. fst (mach' i)) args"
proof -
  have "apfst (\<lambda>ws. ws) = (\<lambda>r :: out \<times> int. r)" by auto
  with netlink_same.run_same [OF assms(1), of mach "\<lambda>i. fst (mach i)" mach' "\<lambda>i. fst (mach' i)"] assms(2) show ?thesis
    by (simp add: netlink_main_def ustat_main_def option.map_ident)
qed





end
