(* ===== verification/Specification.thy ===== *)
theory Specification
  imports Runs
begin

text \<open>
  An abstract specification of the program. A record of \<open>facts\<close> describes a system by numbers and texts,
  \<open>fact_text\<close> is the text that a module is to print for them, and \<open>reports\<close> and \<open>answers\<close> say which answers of
  the system report the facts that an initialiser and a print function ask for.
\<close>

section \<open>Facts about a system\<close>

text \<open>
  The load averages in units of 1/65536; the memory and the file systems with their total and free bytes;
  of the sockets their states.
\<close>

record facts =
  fa_loads :: "nat \<times> nat \<times> nat"
  fa_uptime :: nat
  fa_users :: nat
  fa_charging :: bool
  fa_level :: nat
  fa_total :: nat
  fa_free :: nat
  fa_mounts :: "(string \<times> nat \<times> nat) list"
  fa_tcp4 :: "nat list"
  fa_tcp6 :: "nat list"
  fa_date :: "string \<Rightarrow> string"
  fa_uid :: nat
  fa_user :: string
  fa_procs :: nat
  fa_cpus :: nat
  fa_env :: "string \<Rightarrow> string option"

section \<open>The text for a fact\<close>

text \<open>
  A double that is printed with two digits. The hundredths are rounded half up and reduced modulo 100, as
  \<open>write_double\<close> does it.
\<close>

definition rat_text :: "rat \<Rightarrow> string" where
  "rat_text q = dec (nat \<lfloor>q\<rfloor>) @ ''.'' @ pad2 (nat (hundredths q mod 100))"

definition ratio_text :: "nat \<Rightarrow> nat \<Rightarrow> string" where
  "ratio_text a b = rat_text (rnd_rat (of_nat a / of_nat b))"

definition human_text :: "nat \<Rightarrow> string" where
  "human_text n = rat_text (human_quotient n) @ (if units n = 0 then [] else [human_suf ! units n])"

definition part_text :: "nat \<Rightarrow> string \<Rightarrow> string" where
  "part_text k c = (if k = 0 then [] else dec k @ c)"

definition days_text :: "nat \<Rightarrow> string" where
  "days_text n = part_text (n div 86400) ''d'' @ part_text (n mod 86400 div 3600) ''h'' @
     part_text (n mod 3600 div 60) ''m'' @ dec (n mod 60) @ ''s''"

text \<open>The file system that an argument names, otherwise the first one.\<close>

definition mount_of :: "facts \<Rightarrow> string \<Rightarrow> nat \<times> nat" where
  "mount_of fa t = snd (if t = [] then hd (fa_mounts fa)
     else case filter (\<lambda>x. fst x = t) (fa_mounts fa) of [] \<Rightarrow> hd (fa_mounts fa) | x # _ \<Rightarrow> x)"

text \<open>The sockets with a state, and all of them for the index 0.\<close>

definition sockets :: "nat list \<Rightarrow> nat \<Rightarrow> nat" where
  "sockets l i = (if i = 0 then length l else count_list l i)"

definition sockets_text :: "facts \<Rightarrow> string" where
  "sockets_text fa = concat (map (\<lambda>i. dec (sockets (fa_tcp4 fa) i + sockets (fa_tcp6 fa) i) @ ''.'' @
     dec (sockets (fa_tcp4 fa) i) @ ''.'' @ dec (sockets (fa_tcp6 fa) i) @ '' '') [0..<12])"

text \<open>A variable of the environment replaces the sign for the state of the battery.\<close>

definition env_text :: "facts \<Rightarrow> string" where
  "env_text fa = (let key = (if fa_charging fa then ''USTAT_BAT_CHARGING'' else ''USTAT_BAT_DISCHARGING'');
       def = (if fa_charging fa then ''^'' else ''v'') in
     case fa_env fa key of None \<Rightarrow> def | Some e \<Rightarrow> if e = [] then def else e)"

definition color8_text :: "nat \<Rightarrow> string \<Rightarrow> string" where
  "color8_text k t = (if t \<noteq> [] \<and> is_digit (last t) \<and> dval (last t) < 8 then color8_seq (dval (last t)) k else [])"

definition xterm256_text :: "string \<Rightarrow> string \<Rightarrow> string" where
  "xterm256_text mode t = (let ds = takeWhile is_digit t in
     if ds \<noteq> [] \<and> undec ds mod 2 ^ 64 < 256 then mode @ ds @ ''m'' else [])"

definition rgb_text :: "string \<Rightarrow> string \<Rightarrow> string" where
  "rgb_text mode t = (if rgb_valid t then written 1 (rgb_writes 1 mode (rgb_red t)) else [])"

text \<open>The text of a module, for the part \<open>t\<close> of its argument after its name.\<close>

fun fact_text :: "facts \<Rightarrow> print_fn \<Rightarrow> string \<Rightarrow> string" where
  "fact_text fa Pass_print t = t"
| "fact_text fa Nl_print t = [LF]"
| "fact_text fa Load_print t = (case fa_loads fa of (a, b, c) \<Rightarrow>
     load_text a @ '' '' @ load_text b @ '' '' @ load_text c)"
| "fact_text fa Uptime_print_human t = days_text (fa_uptime fa)"
| "fact_text fa Uptime_print t = dec (fa_uptime fa)"
| "fact_text fa Date_print t = fa_date fa t"
| "fact_text fa Uid_print t = dec (fa_uid fa)"
| "fact_text fa User_print t = fa_user fa"
| "fact_text fa Nusers_print t = dec (fa_users fa)"
| "fact_text fa Nproc_print t = dec (fa_procs fa)"
| "fact_text fa Ncpus_print t = dec (fa_cpus fa)"
| "fact_text fa Bat_level_print t = dec (fa_level fa)"
| "fact_text fa Bat_charging_human_print t = env_text fa"
| "fact_text fa Bat_charging_print t = (if fa_charging fa then ''1'' else ''0'')"
| "fact_text fa Mem_free_human_print t = human_text (fa_free fa)"
| "fact_text fa Mem_free_print t = dec (fa_free fa)"
| "fact_text fa Mem_ratio_print t = ratio_text (fa_free fa) (fa_total fa)"
| "fact_text fa Mem_total_human_print t = human_text (fa_total fa)"
| "fact_text fa Mem_total_print t = dec (fa_total fa)"
| "fact_text fa Fs_total_human_print t = human_text (fst (mount_of fa t))"
| "fact_text fa Fs_total_print t = dec (fst (mount_of fa t))"
| "fact_text fa Fs_ratio_print t = ratio_text (snd (mount_of fa t)) (fst (mount_of fa t))"
| "fact_text fa Fs_free_human_print t = human_text (snd (mount_of fa t))"
| "fact_text fa Fs_free_print t = dec (snd (mount_of fa t))"
| "fact_text fa Fs_used_human_print t = human_text (fst (mount_of fa t) - snd (mount_of fa t))"
| "fact_text fa Fs_used_print t = dec (fst (mount_of fa t) - snd (mount_of fa t))"
| "fact_text fa Ntcp6_established_print t = dec (sockets (fa_tcp6 fa) TCP_ESTABLISHED)"
| "fact_text fa Ntcp6_listen_print t = dec (sockets (fa_tcp6 fa) TCP_LISTEN)"
| "fact_text fa Ntcp6_closing_print t = dec (sockets (fa_tcp6 fa) TCP_CLOSING)"
| "fact_text fa Ntcp6_all_print t = dec (length (fa_tcp6 fa))"
| "fact_text fa Ntcp4_established_print t = dec (sockets (fa_tcp4 fa) TCP_ESTABLISHED)"
| "fact_text fa Ntcp4_listen_print t = dec (sockets (fa_tcp4 fa) TCP_LISTEN)"
| "fact_text fa Ntcp4_closing_print t = dec (sockets (fa_tcp4 fa) TCP_CLOSING)"
| "fact_text fa Ntcp4_all_print t = dec (length (fa_tcp4 fa))"
| "fact_text fa Ntcp_print t = ''0:'' @ sockets_text fa"
| "fact_text fa Ntcp_established_print t = dec (sockets (fa_tcp4 fa) TCP_ESTABLISHED + sockets (fa_tcp6 fa) TCP_ESTABLISHED)"
| "fact_text fa Ntcp_listen_print t = dec (sockets (fa_tcp4 fa) TCP_LISTEN + sockets (fa_tcp6 fa) TCP_LISTEN)"
| "fact_text fa Ntcp_closing_print t = dec (sockets (fa_tcp4 fa) TCP_CLOSING + sockets (fa_tcp6 fa) TCP_CLOSING)"
| "fact_text fa Ntcp_all_print t = dec (length (fa_tcp4 fa) + length (fa_tcp6 fa))"
| "fact_text fa Color_off t = ESC # ''[0m''"
| "fact_text fa Color8_fg_normal_print t = color8_text 0 t"
| "fact_text fa Color8_fg_bright_print t = color8_text 1 t"
| "fact_text fa Color8_bg_normal_print t = color8_text 2 t"
| "fact_text fa Color8_bg_bright_print t = color8_text 3 t"
| "fact_text fa Xterm256_fg_print t = xterm256_text XTERM256_FG t"
| "fact_text fa Xterm256_bg_print t = xterm256_text XTERM256_BG t"
| "fact_text fa Rgb_fg_print t = rgb_text XTERM_RGB_FG t"
| "fact_text fa Rgb_bg_print t = rgb_text XTERM_RGB_BG t"

text \<open>
  The text for an argument: \<open>render\<close> gives the text for a module and for the part of the argument after the
  module's name.
\<close>

definition rendered :: "(print_fn \<Rightarrow> string \<Rightarrow> string) \<Rightarrow> string \<Rightarrow> string" where
  "rendered render s = (let m = chosen (cstring s) in render (mod_print m) (drop (length (name_of m)) s))"

section \<open>Systems that report the facts\<close>

text \<open>What a line of mountinfo and \<open>statvfs\<close> tell of a file system, without any wrap-around.\<close>

definition mount_facts :: "statvfs \<Rightarrow> string \<Rightarrow> (string \<times> nat \<times> nat) list" where
  "mount_facts stat p = (case stat p of
     Some (blocks, bfree, frsize) \<Rightarrow>
       if ignored_mount p \<or> unat blocks * unat frsize = 0 then []
       else [(p, unat blocks * unat frsize, unat bfree * unat frsize)]
   | None \<Rightarrow> [])"

definition stat_exact :: "statvfs \<Rightarrow> string \<Rightarrow> bool" where
  "stat_exact stat p \<longleftrightarrow> (case stat p of
     Some (blocks, bfree, frsize) \<Rightarrow> unat blocks * unat frsize < 2 ^ 53 \<and> bfree \<le> blocks
   | None \<Rightarrow> True)"

text \<open>The answers that an initialiser asks for.\<close>

fun reports :: "facts \<Rightarrow> 'tm machine \<Rightarrow> init_fn \<Rightarrow> bool" where
  "reports fa mc No_init = True"
| "reports fa mc Load_init = (\<exists>si a b c. mc_sysinfo mc = Some si \<and> si_loads si = [a, b, c] \<and>
     fa_loads fa = (unat a, unat b, unat c) \<and> unat a < 2 ^ 40 \<and> unat b < 2 ^ 40 \<and> unat c < 2 ^ 40)"
| "reports fa mc Uptime_init = (\<exists>t later. mc_uptime mc = Some (Bytes t # later) \<and> length t < FMT_ULONG \<and>
     undec (takeWhile is_digit t) = fa_uptime fa \<and> fa_uptime fa < 2 ^ 63)"
| "reports fa mc Nusers_init = (snd (mc_utmpx mc) = fst (mc_utmpx mc) \<and> list_all utmpx_ok (fst (mc_utmpx mc)) \<and>
     prefix_free (set (users (fst (mc_utmpx mc)))) \<and> card (set (users (fst (mc_utmpx mc)))) = fa_users fa \<and>
     fa_users fa < 10 ^ 6 \<and> sorts (mc_qsort mc) \<and> (\<forall>i. zeroed (mc_heap mc i)))"
| "reports fa mc Bat_init = (\<exists>t later c later'. mc_bat_status mc = Some (Bytes t # later) \<and> length t < MAX_BYTES \<and>
     mc_bat_capacity mc = Some (Bytes c # later') \<and> length c < MAX_BYTES \<and>
     prefix ''Charging'' (ctext t) = fa_charging fa \<and> undec (takeWhile is_digit c) = fa_level fa \<and> fa_level fa < 2 ^ 31)"
| "reports fa mc Mem_init = (\<exists>si. mc_sysinfo mc = Some si \<and>
     unat (si_totalram si) * unat (si_mem_unit si) = fa_total fa \<and>
     unat (si_freeram si) * unat (si_mem_unit si) = fa_free fa \<and>
     fa_free fa \<le> fa_total fa \<and> 0 < fa_total fa \<and> fa_total fa < 2 ^ 53)"
| "reports fa mc Fs_init = (\<exists>fd xs later. mc_mountinfo mc = Some (fd, Bytes (concat (map mline_text xs)) # later) \<and>
     clean fd \<and> content fd \<noteq> [] \<and> length (concat (map mline_text xs)) \<le> 2 * length (content fd) \<and>
     list_all mline_ok xs \<and> list_all (\<lambda>x. stat_exact (mc_statvfs mc) (ml_point x)) xs \<and>
     concat (map (\<lambda>x. mount_facts (mc_statvfs mc) (ml_point x)) xs) = fa_mounts fa \<and> fa_mounts fa \<noteq> [])"
| "reports fa mc Tcp_init = (\<exists>fd4 h4 xs4 fd6 h6 xs6. mc_tcp4 mc = Some fd4 \<and> mc_tcp6 mc = Some fd6 \<and>
     clean fd4 \<and> content fd4 = proc_text h4 xs4 \<and> LF \<notin> set h4 \<and> known_lines xs4 \<and> map line_state xs4 = fa_tcp4 fa \<and>
     clean fd6 \<and> content fd6 = proc_text h6 xs6 \<and> LF \<notin> set h6 \<and> known_lines xs6 \<and> map line_state xs6 = fa_tcp6 fa \<and>
     length xs4 + length xs6 < 2 ^ 64)"

text \<open>The answers that a print function asks for.\<close>

fun answers :: "facts \<Rightarrow> print_fn \<Rightarrow> 'tm machine \<Rightarrow> bool" where
  "answers fa Date_print mc = (\<exists>tm. unat (fst (mc_time mc)) < 2 ^ 44 \<and> unat (snd (mc_time mc)) < 10 ^ 6 \<and>
     mc_gmtime mc (int (unat (fst (mc_time mc)))) = Some tm \<and> (\<forall>fmt. mc_strftime mc 256 fmt tm = fa_date fa fmt))"
| "answers fa Uid_print mc = (unat (mc_uid mc) = fa_uid fa \<and> fa_uid fa < 10 ^ 6)"
| "answers fa User_print mc = (mc_pw_name mc = Some (cstring (fa_user fa)) \<and> is_text (fa_user fa))"
| "answers fa Nproc_print mc = (\<exists>ds. mc_proc mc = Some ds \<and> list_all (\<lambda>d. d \<noteq> []) ds \<and> length ds < 2 ^ 64 \<and>
     length (filter (\<lambda>d. is_digit (hd d)) ds) = fa_procs fa)"
| "answers fa Ncpus_print mc = (mc_ncpus mc = int (fa_cpus fa) \<and> fa_cpus fa < 2 ^ 63)"
| "answers fa Bat_charging_human_print mc = (\<forall>k. mc_getenv mc k = map_option cstring (fa_env fa k) \<and>
     (\<forall>v. fa_env fa k = Some v \<longrightarrow> is_text v))"
| "answers fa p mc = True"

section \<open>The machine of the examples\<close>

definition example_facts :: facts where
  "example_facts = \<lparr>fa_loads = (98304, 65536, 131000), fa_uptime = 86461, fa_users = 2, fa_charging = True,
     fa_level = 97, fa_total = 4096000000, fa_free = 1024000000, fa_mounts = [(''/home'', 4096000, 1024000)],
     fa_tcp4 = [10, 1], fa_tcp6 = [1], fa_date = (\<lambda>f. []), fa_uid = 1000, fa_user = ''ann'', fa_procs = 1,
     fa_cpus = 4, fa_env = (\<lambda>k. None)\<rparr>"

end
