(* ===== verification/Correctness.thy ===== *)
theory Correctness
  imports Definedness Specification
begin

text \<open>
  The program refines its specification. The locale \<open>correct_build\<close> states what is needed of a build: its
  initialisers leave the static variables as a system with these facts makes them, and a print function
  prints the text for the facts that the initialiser has found. Then a run prints the texts in the order of
  the arguments.
\<close>

section \<open>Builds that print a specification\<close>

locale correct_build = safe_inits ini sane reporting inv promise usable "{}"
  for ini :: "'mc caller" and sane :: "statics \<Rightarrow> bool" and reporting :: "'mc \<Rightarrow> bool"
    and inv :: "statics \<Rightarrow> bool" and promise :: "init_fn \<Rightarrow> statics \<Rightarrow> bool" and usable :: "init_fn \<Rightarrow> bool" +
  fixes prt :: "'mc printer" and answers :: "print_fn \<Rightarrow> 'mc \<Rightarrow> bool" and render :: "print_fn \<Rightarrow> string \<Rightarrow> string"
  assumes prints: "promise (reads (mod_print m)) st \<Longrightarrow> answers (mod_print m) mc \<Longrightarrow> mod_name m = cstring nm \<Longrightarrow>
    is_text (nm @ t) \<Longrightarrow>
    (mod_print m \<in> color8_modules \<Longrightarrow> nm \<noteq> [] \<and> \<not> is_digit (last nm) \<and> last (nm @ t) \<noteq> CHR ''8'') \<Longrightarrow>
    \<exists>ws r. prt (mod_print m) mc st 1 m (cstring (nm @ t)) (length (nm @ t)) = Some (ws, r) \<and>
      written 1 ws = render (mod_print m) t"
begin

lemma print_args_correct:
  assumes same: "same_table modules mods" and "list_all arg_safe ss"
    and "\<forall>s \<in> set ss. promise (mod_init (chosen (cstring s))) st"
    and "\<forall>i. \<forall>s \<in> set ss. answers (mod_print (chosen (cstring s))) (mach i)"
  shows "\<exists>ws. print_args prt mach i (map cstring ss) (map (\<lambda>s. selected modules s mod nmodules) ss) mods st = Some ws \<and>
    written 1 ws = concat (map (rendered render) ss)"
  using assms(2-4)
proof (induction ss arbitrary: i)
  case Nil
  then show ?case by simp
next
  case (Cons s ss)
  let ?k = "selected modules s mod nmodules"
  have k: "?k < length modules" using length_modules by (simp add: nmodules_def)
  note f = same_table_fields [OF same k]
  have s: "is_text s" "mod_print (modules ! ?k) \<in> color8_modules \<longrightarrow> last s \<noteq> CHR ''8''"
    using Cons.prems(1) by (simp_all add: arg_safe_def)
  then have ch: "chosen (cstring s) = modules ! ?k" by (simp add: chosen_def)
  have "list_all (\<lambda>m. mod_print m \<in> color8_modules \<longrightarrow> name_of m \<noteq> [] \<and> \<not> is_digit (last (name_of m))) modules"
    by code_simp
  then have all: "mod_name (modules ! ?k) = cstring (name_of (modules ! ?k))"
    "mod_print (modules ! ?k) \<in> color8_modules \<longrightarrow>
      name_of (modules ! ?k) \<noteq> [] \<and> \<not> is_digit (last (name_of (modules ! ?k)))"
    "mod_init (modules ! ?k) = reads (mod_print (modules ! ?k))"
    using modules_names modules_reads k by (simp_all add: list_all_length)
  obtain t where t: "s = name_of (modules ! ?k) @ t" using selected_prefix by blast
  have r: "rendered render s = render (mod_print (modules ! ?k)) t"
    unfolding rendered_def Let_def ch by (subst t) simp
  have "\<exists>ws r. prt (mod_print (mods ! ?k)) (mach i) st 1 (mods ! ?k) (cstring (name_of (modules ! ?k) @ t))
      (length (name_of (modules ! ?k) @ t)) = Some (ws, r) \<and> written 1 ws = render (mod_print (mods ! ?k)) t"
    by (rule prints) (use Cons.prems(2,3) f all s t ch in auto)
  then obtain ws r where "prt (mod_print (mods ! ?k)) (mach i) st 1 (mods ! ?k) (cstring s) (length s) = Some (ws, r)"
    "written 1 ws = rendered render s"
    unfolding t [symmetric] r f(3) by auto
  moreover from Cons.IH [of "Suc i"] Cons.prems obtain ws' where
    "print_args prt mach (Suc i) (map cstring ss) (map (\<lambda>s. selected modules s mod nmodules) ss) mods st = Some ws'"
    "written 1 ws' = concat (map (rendered render) ss)" by auto
  ultimately show ?case using s(1) by simp
qed

lemma run_correct:
  assumes "\<forall>i. reporting (mach i)" and "\<forall>i. \<forall>s \<in> set ss. answers (mod_print (chosen (cstring s))) (mach' i)"
    and "\<forall>s \<in> set ss. usable (mod_init (chosen (cstring s)))"
    and "list_all arg_safe ss" and "no_help (map cstring ss)"
  shows "\<exists>ws. main_of ini prt mach mach' (map cstring ss) = Some (ws, 0) \<and>
    written 1 ws = concat (map (rendered render) ss)"
proof -
  have texts: "\<forall>s \<in> set ss. is_text s" using assms(4) by (simp add: list_all_iff arg_safe_def)
  then have ctexts: "map (\<lambda>arg. selected modules (ctext arg) mod nmodules) (map cstring ss) =
      map (\<lambda>s. selected modules s mod nmodules) ss" by simp
  have args: "list_all terminated (map cstring ss)"
    "list_all (\<lambda>arg. terminated arg \<and> usable (mod_init (chosen arg))) (map cstring ss)"
    using assms(3) by (simp_all add: list_all_iff)
  note run = main_of_no_help [OF assms(5) args(1), of ini prt mach mach']
  from init_args_safe [OF _ starts modules_promised same_table_refl args(2), of mach 1] assms(1)
  obtain ws mods st where i: "init_args ini mach 1 (map cstring ss) modules statics_initial =
        Some (ws, Inr (mods, st, map (\<lambda>s. selected modules s mod nmodules) ss))" "same_table modules mods"
      "\<forall>s \<in> set ss. promise (mod_init (modules ! (selected modules s mod nmodules))) st"
    unfolding ctexts by auto
  have "written 1 ws = []"
    using init_args_frame [OF i(1) args(1) names_ok_modules modules_ne] by simp
  moreover have "\<forall>s \<in> set ss. promise (mod_init (chosen (cstring s))) st"
    using i(3) texts by (simp add: chosen_def)
  from print_args_correct [OF i(2) assms(4) this assms(2), of 1] obtain ws' where
    "print_args prt mach' 1 (map cstring ss) (map (\<lambda>s. selected modules s mod nmodules) ss) mods st = Some ws'"
    "written 1 ws' = concat (map (rendered render) ss)" by blast
  ultimately show ?thesis using run i(1) by simp
qed

end

end
