(* ===== verification/Linux_correct.thy ===== *)
theory Linux_correct
  imports Safety Correctness
begin

text \<open>
  The build for Linux refines the specification: from the answers of the system to the static variables
  (\<open>holds\<close>), from these to the texts of every module, and the interpretation of \<open>correct_build\<close>.
\<close>

section \<open>The static variables for the facts\<close>

definition counters_for :: "(nat \<Rightarrow> nat) \<Rightarrow> u64 list" where
  "counters_for f = map (\<lambda>i. of_nat (f i)) [0..<n_tcp_states]"

definition tcp_for :: "nat list \<Rightarrow> nat list \<Rightarrow> tcp_state" where
  "tcp_for l4 l6 = \<lparr>tcp_counters = counters_for (\<lambda>i. sockets l4 i + sockets l6 i),
     tcp4_counters = counters_for (sockets l4), tcp6_counters = counters_for (sockets l6), tcp_inited = True\<rparr>"

definition fs_view :: "ustat_fs \<Rightarrow> string \<times> nat \<times> nat" where
  "fs_view e = (fs_name e, unat (fs_n_total e), unat (fs_n_free e))"

definition table_for :: "(string \<times> nat \<times> nat) list \<Rightarrow> fs_table \<Rightarrow> bool" where
  "table_for l fs \<longleftrightarrow> (\<exists>es. fs = Some es \<and> es \<noteq> [] \<and> list_all (\<lambda>e. entry_safe e \<and> 0 < unat (fs_n_total e)) es \<and>
     map fs_view es = l)"

fun holds :: "facts \<Rightarrow> init_fn \<Rightarrow> statics \<Rightarrow> bool" where
  "holds fa No_init st = True"
| "holds fa Load_init st = (case fa_loads fa of (a, b, c) \<Rightarrow>
     st_load st = map (\<lambda>v. Fin (of_nat v / 65536)) [a, b, c] \<and> a < 2 ^ 40 \<and> b < 2 ^ 40 \<and> c < 2 ^ 40)"
| "holds fa Uptime_init st = (st_uptime st = of_nat (fa_uptime fa) \<and> fa_uptime fa < 2 ^ 63)"
| "holds fa Nusers_init st = (st_nusers st = int (fa_users fa) \<and> fa_users fa < 10 ^ 6)"
| "holds fa Bat_init st = (st_battery st = \<lparr>bat_level = of_nat (fa_level fa),
     bat_is_charging = (if fa_charging fa then 1 else 0)\<rparr> \<and> fa_level fa < 2 ^ 31)"
| "holds fa Mem_init st = (st_mem st = (of_nat (fa_total fa), of_nat (fa_free fa)) \<and> fa_free fa \<le> fa_total fa \<and>
     0 < fa_total fa \<and> fa_total fa < 2 ^ 53)"
| "holds fa Fs_init st = table_for (fa_mounts fa) (st_fs st)"
| "holds fa Tcp_init st = (st_tcp st = tcp_for (fa_tcp4 fa) (fa_tcp6 fa) \<and>
     length (fa_tcp4 fa) + length (fa_tcp6 fa) < 2 ^ 64)"

text \<open>A variable that is read only once has its first value or the one for the facts.\<close>

definition factual :: "facts \<Rightarrow> statics \<Rightarrow> bool" where
  "factual fa st \<longleftrightarrow> (st_nusers st = -1 \<or> holds fa Nusers_init st) \<and>
     (st_battery st = battery_initial \<or> holds fa Bat_init st) \<and> (st_mem st = mem_initial \<or> holds fa Mem_init st) \<and>
     (st_fs st = None \<or> holds fa Fs_init st) \<and> (st_tcp st = tcp_initial \<or> holds fa Tcp_init st)"

lemma factual_initial: "factual fa statics_initial"
  by (simp add: factual_def statics_initial_def)

section \<open>The first loop\<close>

lemma unat_of_nat_u64: "n < 2 ^ 64 \<Longrightarrow> unat (of_nat n :: u64) = n"
  by (simp only: unat_of_nat) simp

lemma load_init_facts:
  assumes "reports fa mc Load_init"
  shows "\<exists>v. load_init (get_loadavg (mc_sysinfo mc)) load m = (1, v, m\<lparr>mod_ready := True\<rparr>) \<and>
    (\<forall>st. st_load st = v \<longrightarrow> holds fa Load_init st)"
  using assms by (auto simp: load_init_def get_loadavg_def load_quotient Let_def simp del: of_nat_unat)

lemma uptime_init_facts:
  assumes "reports fa mc Uptime_init"
  shows "uptime_init (get_boottime (mc_uptime mc)) u m = Some (1, of_nat (fa_uptime fa), m\<lparr>mod_ready := True\<rparr>) \<and>
    fa_uptime fa < 2 ^ 63"
proof -
  from assms obtain t later where t: "mc_uptime mc = Some (Bytes t # later)" "length t < FMT_ULONG"
    "undec (takeWhile is_digit t) = fa_uptime fa" "fa_uptime fa < 2 ^ 63" by auto
  obtain rest where r: "buf_str (map Some t @ Some NUL # drop (Suc (length t)) (buf_new FMT_ULONG)) = t @ NUL # rest"
    using buf_str_prefix by blast
  have "read_text (Bytes t # later) (buf_new FMT_ULONG) =
      Some (map Some t @ Some NUL # drop (Suc (length t)) (buf_new FMT_ULONG))"
    using t(2) by (intro read_text_fits [OF refl]) simp
  with t r show ?thesis by (simp add: uptime_init_def get_boottime_def scan_ulong_text)
qed

lemma nusers_init_facts:
  assumes "reports fa mc Nusers_init" and "n = -1 \<or> n = int (fa_users fa)"
  shows "nusers_init (mc_qsort mc) (mc_heap mc) (fst (mc_utmpx mc)) (snd (mc_utmpx mc)) n m =
    Some (1, int (fa_users fa), m\<lparr>mod_ready := True\<rparr>)"
proof (cases "n = -1")
  case True
  from assms(1) nusers_init_count [of "mc_qsort mc" "mc_heap mc" "fst (mc_utmpx mc)" m] True show ?thesis by simp
next
  case False
  with assms(2) show ?thesis by (simp add: nusers_init_def)
qed

lemma bat_init_facts:
  assumes "reports fa mc Bat_init" and "bi = battery_initial \<or> bi = v"
    and "v = \<lparr>bat_level = of_nat (fa_level fa), bat_is_charging = (if fa_charging fa then 1 else 0)\<rparr>"
  shows "\<exists>m'. bat_init (get_battery_info (mc_bat_status mc) (mc_bat_capacity mc)) bi m =
    Some (1, if mod_ready m then bi else v, m')"
proof -
  from assms(1) obtain t later c later' where f: "mc_bat_status mc = Some (Bytes t # later)" "length t < MAX_BYTES"
    "mc_bat_capacity mc = Some (Bytes c # later')" "length c < MAX_BYTES"
    "prefix ''Charging'' (ctext t) = fa_charging fa" "undec (takeWhile is_digit c) = fa_level fa" by auto
  have "bi\<lparr>bat_level := of_nat (fa_level fa), bat_is_charging := (if fa_charging fa then 1 else bat_is_charging bi)\<rparr> = v"
    using assms(2,3) by (auto simp: battery_initial_def)
  then have "get_battery_info (mc_bat_status mc) (mc_bat_capacity mc) bi = Some (1, v)"
    using get_battery_info_files [OF f(2,4), of later later' bi] f(1,3,5,6) by (cases bi) simp
  then show ?thesis by (simp add: bat_init_def)
qed

lemma mem_init_facts:
  assumes "reports fa mc Mem_init" and "st = mem_initial \<or> st = (of_nat (fa_total fa), of_nat (fa_free fa))"
  shows "\<exists>m'. mem_init (mem_get_linux (mc_sysinfo mc)) st m = (1, (of_nat (fa_total fa), of_nat (fa_free fa)), m')"
proof -
  from assms(1) obtain si where si: "mc_sysinfo mc = Some si"
    "unat (si_totalram si) * unat (si_mem_unit si) = fa_total fa"
    "unat (si_freeram si) * unat (si_mem_unit si) = fa_free fa" "fa_free fa \<le> fa_total fa" "fa_total fa < 2 ^ 53" by auto
  have "si_totalram si * ucast (si_mem_unit si) = of_nat (fa_total fa)"
    "si_freeram si * ucast (si_mem_unit si) = of_nat (fa_free fa)"
    unfolding si(2,3) [symmetric] by (simp_all add: unsigned_ucast_eq)
  with assms(2) si(1) show ?thesis by (auto simp: mem_init_def mem_get_linux_def Let_def mem_initial_def)
qed

lemma mount_entries_facts:
  assumes "stat_exact stat p" and "is_text p"
  shows "map fs_view (mount_entries stat p) = mount_facts stat p \<and>
    list_all (\<lambda>e. entry_safe e \<and> 0 < unat (fs_n_total e)) (mount_entries stat p)"
proof (cases "stat p")
  case None
  then show ?thesis by (simp add: mount_entries_def mount_facts_def)
next
  case (Some x)
  obtain bl bf fr where x: "stat p = Some (bl, bf, fr)" using Some by (cases x) auto
  with assms(1) have b: "unat bl * unat fr < 2 ^ 53" "unat bf \<le> unat bl"
    by (simp_all add: stat_exact_def word_le_nat_alt)
  have le: "unat bf * unat fr \<le> unat bl * unat fr" using b(2) by (rule mult_le_mono1)
  have u: "unat (bl * fr) = unat bl * unat fr" "unat (bf * fr) = unat bf * unat fr"
  proof -
    have "unat bl * unat fr < 2 ^ 64" by (rule less_trans [OF b(1)]) simp
    with le_less_trans [OF le this] show "unat (bl * fr) = unat bl * unat fr" "unat (bf * fr) = unat bf * unat fr"
      unfolding unat_word_ariths by simp_all
  qed
  have "bl * fr = 0 \<longleftrightarrow> unat bl * unat fr = 0" unfolding u(1) [symmetric] by (simp only: unat_eq_zero)
  then show ?thesis
    using x u le b(1) assms(2)
    by (simp add: mount_entries_def mount_facts_def fs_view_def entry_safe_def word_le_nat_alt del: mult_eq_0_iff)
qed

lemma fs_init_facts:
  assumes "reports fa mc Fs_init" and "fs = None \<or> table_for (fa_mounts fa) fs"
  shows "\<exists>ws fs' m'. fs_init (fs_init_platform (mc_statvfs mc) (mc_mountinfo mc)) fs m = Some (ws, 1, fs', m') \<and>
    (fs' = fs \<or> table_for (fa_mounts fa) fs') \<and> (mod_ready m \<or> table_for (fa_mounts fa) fs')"
proof (cases "fs = None \<and> \<not> mod_ready m")
  case True
  let ?stat = "mc_statvfs mc"
  from assms(1) obtain fd xs later where x: "mc_mountinfo mc = Some (fd, Bytes (concat (map mline_text xs)) # later)"
    "clean fd" "content fd \<noteq> []" "length (concat (map mline_text xs)) \<le> 2 * length (content fd)" "list_all mline_ok xs"
    "list_all (\<lambda>x. stat_exact ?stat (ml_point x)) xs"
    "concat (map (\<lambda>x. mount_facts ?stat (ml_point x)) xs) = fa_mounts fa" "fa_mounts fa \<noteq> []" by auto
  have one: "map fs_view (mount_entries ?stat (ml_point x)) = mount_facts ?stat (ml_point x)"
    "list_all (\<lambda>e. entry_safe e \<and> 0 < unat (fs_n_total e)) (mount_entries ?stat (ml_point x))" if "x \<in> set xs" for x
    using mount_entries_facts [of ?stat "ml_point x"] that x(5,6) by (auto simp: list_all_iff mline_ok_def is_word_text)
  then have "map fs_view (mounts ?stat xs) = fa_mounts fa"
    unfolding x(7) [symmetric] mounts_def map_concat map_map comp_def by (intro arg_cong [where f = concat] map_cong) simp_all
  moreover have "list_all (\<lambda>e. entry_safe e \<and> 0 < unat (fs_n_total e)) (mounts ?stat xs)"
    using one(2) by (fastforce simp: mounts_def list_all_iff)
  moreover have "mounts ?stat xs \<noteq> []" using calculation(1) x(8) by auto
  moreover have "fs_init_platform ?stat (mc_mountinfo mc) None = Some (1, fs_extend None (mounts ?stat xs))"
    unfolding x(1) by (rule fs_init_platform_lines [OF x(2,3) refl x(4,5)])
  ultimately show ?thesis
    using True by (simp add: fs_init_def fs_extend_def fs_entries_def table_for_def)
next
  case False
  with assms(2) show ?thesis by (auto simp: fs_init_def)
qed

lemma tally_counters: "(tally xs)[INDEX_TOTAL := of_nat (length xs)] = counters_for (sockets (map line_state xs))"
  by (rule nth_equalityI) (auto simp: counters_for_def tally_nth sockets_def INDEX_TOTAL_def nth_list_update)

lemma tcp_init_facts:
  assumes "reports fa mc Tcp_init" and "st = tcp_initial \<or> st = tcp_for (fa_tcp4 fa) (fa_tcp6 fa)"
  shows "tcp_init (mc_tcp4 mc) (mc_tcp6 mc) st m = Some (1, tcp_for (fa_tcp4 fa) (fa_tcp6 fa), m\<lparr>mod_ready := True\<rparr>)"
proof (cases "tcp_inited st")
  case True
  then have "st = tcp_for (fa_tcp4 fa) (fa_tcp6 fa)" using assms(2) by (auto simp: tcp_initial_def)
  with True show ?thesis by (simp add: tcp_init_def)
next
  case False
  from assms(1) obtain fd4 h4 xs4 fd6 h6 xs6 where f: "mc_tcp4 mc = Some fd4" "mc_tcp6 mc = Some fd6"
    "clean fd4" "content fd4 = proc_text h4 xs4" "LF \<notin> set h4" "known_lines xs4"
    "clean fd6" "content fd6 = proc_text h6 xs6" "LF \<notin> set h6" "known_lines xs6"
    "map line_state xs4 = fa_tcp4 fa" "map line_state xs6 = fa_tcp6 fa" by auto
  have "map2 (+) (counters_for f) (counters_for g) = counters_for (\<lambda>i. f i + g i)" for f g
    by (rule nth_equalityI) (simp_all add: counters_for_def)
  with tcp_init_lines [OF False f(3-10), of m] f(1,2) show ?thesis
    by (simp add: tally_counters f(11,12) tcp_for_def)
qed

lemma call_init_facts:
  assumes rep: "reports fa mc f" and st: "factual fa st"
  shows "\<exists>ws rc st' m'. call_init f mc st m = Some (ws, Inr (rc, st', m')) \<and> factual fa st' \<and> rc \<noteq> 0 \<and>
    (mod_ready m \<or> holds fa f st') \<and> (\<forall>g. holds fa g st \<longrightarrow> holds fa g st')"
proof (cases f)
  case No_init
  with st show ?thesis by (simp add: no_init_def)
next
  case Load_init
  from load_init_facts [OF rep [unfolded Load_init], of "st_load st" m] obtain v where
    v: "load_init (get_loadavg (mc_sysinfo mc)) (st_load st) m = (1, v, m\<lparr>mod_ready := True\<rparr>)"
      "\<forall>st. st_load st = v \<longrightarrow> holds fa Load_init st" by blast
  then have h: "holds fa Load_init (st\<lparr>st_load := v\<rparr>)" by (simp del: holds.simps)
  have "\<forall>g. holds fa g st \<longrightarrow> holds fa g (st\<lparr>st_load := v\<rparr>)"
    by (rule allI, case_tac g) (use h in simp_all)
  with st v h show ?thesis by (simp add: Load_init factual_def del: holds.simps(2))
next
  case Uptime_init
  from uptime_init_facts [OF rep [unfolded Uptime_init], of "st_uptime st" m] have
    v: "uptime_init (get_boottime (mc_uptime mc)) (st_uptime st) m = Some (1, of_nat (fa_uptime fa), m\<lparr>mod_ready := True\<rparr>)"
      "fa_uptime fa < 2 ^ 63" by blast+
  have "\<forall>g. holds fa g st \<longrightarrow> holds fa g (st\<lparr>st_uptime := of_nat (fa_uptime fa)\<rparr>)"
    by (rule allI, case_tac g) simp_all
  with st v show ?thesis by (simp add: Uptime_init factual_def)
next
  case Nusers_init
  have "st_nusers st = -1 \<or> st_nusers st = int (fa_users fa)" using st by (auto simp: factual_def)
  note v = nusers_init_facts [OF rep [unfolded Nusers_init] this, of m]
  have "fa_users fa < 10 ^ 6" using rep Nusers_init by simp
  moreover have "\<forall>g. holds fa g st \<longrightarrow> holds fa g (st\<lparr>st_nusers := int (fa_users fa)\<rparr>)"
    by (rule allI, case_tac g) simp_all
  ultimately show ?thesis using st v by (simp add: Nusers_init factual_def)
next
  case Bat_init
  let ?v = "\<lparr>bat_level = of_nat (fa_level fa), bat_is_charging = (if fa_charging fa then 1 else 0)\<rparr> :: ustat_battery"
  have "st_battery st = battery_initial \<or> st_battery st = ?v" using st by (auto simp: factual_def)
  from bat_init_facts [OF rep [unfolded Bat_init] this refl, of m] obtain m' where
    v: "bat_init (get_battery_info (mc_bat_status mc) (mc_bat_capacity mc)) (st_battery st) m =
      Some (1, if mod_ready m then st_battery st else ?v, m')" by blast
  have "fa_level fa < 2 ^ 31" using rep Bat_init by auto
  moreover have "\<forall>g. holds fa g st \<longrightarrow> holds fa g (st\<lparr>st_battery := ?v\<rparr>)"
    by (rule allI, case_tac g) simp_all
  ultimately show ?thesis using st v by (cases "mod_ready m") (simp_all add: Bat_init factual_def)
next
  case Mem_init
  let ?v = "(of_nat (fa_total fa), of_nat (fa_free fa)) :: mem_state"
  have "st_mem st = mem_initial \<or> st_mem st = ?v" using st by (auto simp: factual_def)
  from mem_init_facts [OF rep [unfolded Mem_init] this, of m] obtain m' where
    v: "mem_init (mem_get_linux (mc_sysinfo mc)) (st_mem st) m = (1, ?v, m')" by blast
  have "fa_free fa \<le> fa_total fa" "0 < fa_total fa" "fa_total fa < 2 ^ 53" using rep Mem_init by auto
  moreover have "\<forall>g. holds fa g st \<longrightarrow> holds fa g (st\<lparr>st_mem := ?v\<rparr>)"
    by (rule allI, case_tac g) simp_all
  ultimately show ?thesis using st v by (simp add: Mem_init factual_def)
next
  case Fs_init
  have "st_fs st = None \<or> table_for (fa_mounts fa) (st_fs st)" using st by (auto simp: factual_def)
  from fs_init_facts [OF rep [unfolded Fs_init] this, of m] obtain ws v m' where
    v: "fs_init (fs_init_platform (mc_statvfs mc) (mc_mountinfo mc)) (st_fs st) m = Some (ws, 1, v, m')"
      "v = st_fs st \<or> table_for (fa_mounts fa) v" "mod_ready m \<or> table_for (fa_mounts fa) v" by blast
  have "\<forall>g. holds fa g st \<longrightarrow> holds fa g (st\<lparr>st_fs := v\<rparr>)"
    using v(2) by (intro allI, case_tac g) auto
  with st v show ?thesis by (auto simp: Fs_init factual_def)
next
  case Tcp_init
  let ?v = "tcp_for (fa_tcp4 fa) (fa_tcp6 fa)"
  have "st_tcp st = tcp_initial \<or> st_tcp st = ?v" using st by (auto simp: factual_def)
  note v = tcp_init_facts [OF rep [unfolded Tcp_init] this, of m]
  from rep [unfolded Tcp_init] have "length (fa_tcp4 fa) + length (fa_tcp6 fa) < 2 ^ 64"
    by (auto dest!: sym [of "map line_state xs" for xs])
  moreover have "\<forall>g. holds fa g st \<longrightarrow> holds fa g (st\<lparr>st_tcp := ?v\<rparr>)"
    by (rule allI, case_tac g) simp_all
  ultimately show ?thesis using st v by (simp add: Tcp_init factual_def)
qed

section \<open>The second loop\<close>

lemma written_rat:
  assumes "0 \<le> q" and "q \<le> 2 ^ 55"
  shows "\<exists>ws. write_double fd (Fin q) 2 = Some (ws, 1) \<and> written fd ws = rat_text q"
  using write_double_2_Fin [OF assms, of fd] by (simp add: rat_text_def)

lemma written_human:
  assumes "unat v < 2 * 10 ^ 18"
  shows "\<exists>ws. write_uint64_human fd 1 v = Some (ws, 1) \<and> written fd ws = human_text (unat v)"
  using write_uint64_human_1 [of v fd] units_le [of "unat v" 5] assms by (auto simp: human_text_def rat_text_def)

lemma written_ratio:
  assumes "a \<le> b" and "0 < b"
  shows "\<exists>ws. write_double fd (d_div (Fin (of_nat a)) (Fin (of_nat b))) 2 = Some (ws, 1) \<and>
    written fd ws = ratio_text a b"
proof -
  have "rnd_rat (of_nat a / of_nat b) \<le> 2 ^ 55"
    using ratio_quotient(3) [OF assms] by (rule order_trans) simp
  from written_rat [OF ratio_quotient(2) [OF assms] this] show ?thesis
    unfolding ratio_quotient(1) [OF assms] ratio_text_def .
qed

text \<open>A call whose writes to standard output are a text.\<close>

definition says :: "printed \<Rightarrow> string \<Rightarrow> bool" where
  "says p t \<longleftrightarrow> (\<exists>ws r. p = Some (ws, r) \<and> written 1 ws = t)"

lemma saysI [intro]: "\<exists>ws. p = Some (ws, 1) \<and> written 1 ws = t \<Longrightarrow> says p t"
  by (auto simp: says_def)

lemma says_one [simp]: "says (Some ([(1, s)], r)) t \<longleftrightarrow> s = t" "says (Some ([(Suc 0, s)], r)) t \<longleftrightarrow> s = t"
  "says (Some ([], r)) t \<longleftrightarrow> t = []"
  by (auto simp: says_def)

lemma says_dec:
  assumes "n < 2 ^ 64"
  shows "says (tcp_print_num 1 (of_nat n)) (dec n)" "says (mem_print 1 (of_nat n)) (dec n)"
    "says (write_uint64 1 (of_nat n)) (dec n)"
  using assms by (simp_all add: tcp_print_num_def u64_fmt.exact mem_print_def u64_fmt.fixed_20 FMT_ULONG_def
      write_uint64_eq unat_of_nat_u64)

lemma load_says:
  assumes "holds fa Load_init st"
  shows "says (load_print (st_load st) 1 m s l) (fact_text fa Load_print t)"
proof -
  obtain a b c where f: "fa_loads fa = (a, b, c)" by (cases "fa_loads fa")
  with assms have h: "st_load st = map (\<lambda>v. Fin (of_nat v / 65536)) [a, b, c]" "a < 2 ^ 40" "b < 2 ^ 40" "c < 2 ^ 40"
    by simp_all
  obtain wa wb wc where w: "write_double 1 (Fin (of_nat a / 65536)) 2 = Some (wa, 1)"
      "write_double 1 (Fin (of_nat b / 65536)) 2 = Some (wb, 1)"
      "write_double 1 (Fin (of_nat c / 65536)) 2 = Some (wc, 1)"
    and t: "written 1 wa = load_text a" "written 1 wb = load_text b" "written 1 wc = load_text c"
    using load_write h(2-4) by meson
  show ?thesis using load_print_three [OF w, of m s l] t f h(1) by (simp add: says_def)
qed

lemma uptime_says:
  assumes "holds fa Uptime_init st"
  shows "says (uptime_print (st_uptime st) 1 m s l) (dec (fa_uptime fa))"
    and "says (uptime_print_human (st_uptime st) 1 m s l) (days_text (fa_uptime fa))"
proof -
  let ?n = "fa_uptime fa"
  from assms have u: "unat (st_uptime st) = ?n" "?n < 2 ^ 63" by (simp_all add: unat_of_nat_u64)
  then show "says (uptime_print (st_uptime st) 1 m s l) (dec ?n)" by (simp add: uptime_print_def write_uint64_eq)
  let ?d = "?n div 86400" and ?h = "?n mod 86400 div 3600" and ?m = "?n mod 3600 div 60" and ?s = "?n mod 60"
  have "?n = 86400 * ?d + ?n mod 86400" "?n mod 86400 = 3600 * ?h + ?n mod 86400 mod 3600"
    "?n mod 3600 = 60 * ?m + ?n mod 3600 mod 60" by simp_all
  moreover have "?n mod 86400 mod 3600 = ?n mod 3600" "?n mod 3600 mod 60 = ?s" by (simp_all add: mod_mod_cancel)
  ultimately have e: "?n = 86400 * ?d + 3600 * ?h + 60 * ?m + ?s" by linarith
  have b: "?h < 24" "?m < 60" "?s < 60" by (simp_all add: less_mult_imp_div_less)
  have "unat (st_uptime st) < 2 ^ 63" unfolding u(1) by (rule u(2))
  from uptime_decomposed [OF trans [OF u(1) e] this b, of 1 m s l]
  show "says (uptime_print_human (st_uptime st) 1 m s l) (days_text ?n)"
    unfolding days_text_def part_text_def by (rule saysI)
qed

lemma mem_says:
  assumes "holds fa Mem_init st"
  shows "says (mem_total_print (st_mem st) 1 m s l) (dec (fa_total fa))"
    and "says (mem_free_print (st_mem st) 1 m s l) (dec (fa_free fa))"
    and "says (mem_total_human_print (st_mem st) 1 m s l) (human_text (fa_total fa))"
    and "says (mem_free_human_print (st_mem st) 1 m s l) (human_text (fa_free fa))"
    and "says (mem_ratio_print (st_mem st) 1 m s l) (ratio_text (fa_free fa) (fa_total fa))"
proof -
  from assms have h: "st_mem st = (of_nat (fa_total fa), of_nat (fa_free fa))" "fa_free fa \<le> fa_total fa"
    "0 < fa_total fa" "fa_total fa < 2 ^ 53" "fa_free fa < 2 ^ 53" by simp_all
  have u: "unat (of_nat n :: u64) = n" "d_of_u64 (of_nat n) = Fin (of_nat n)" if "n < 2 ^ 53" for n
  proof -
    show "unat (of_nat n :: u64) = n" using that by (intro unat_of_nat_u64) simp
    moreover have "repr (of_nat n)" using repr_int [of "int n"] that by simp
    ultimately show "d_of_u64 (of_nat n) = Fin (of_nat n)" by (simp add: d_of_u64_eq rnd_rat_repr)
  qed
  show "says (mem_total_print (st_mem st) 1 m s l) (dec (fa_total fa))"
    "says (mem_free_print (st_mem st) 1 m s l) (dec (fa_free fa))"
    using h says_dec(2) by (simp_all add: mem_total_print_def mem_free_print_def)
  show "says (mem_total_human_print (st_mem st) 1 m s l) (human_text (fa_total fa))"
    "says (mem_free_human_print (st_mem st) 1 m s l) (human_text (fa_free fa))"
    using written_human [of "of_nat (fa_total fa)" 1] written_human [of "of_nat (fa_free fa)" 1] h
    by (auto simp: mem_total_human_print_def mem_free_human_print_def u simp del: of_nat_unat)
  show "says (mem_ratio_print (st_mem st) 1 m s l) (ratio_text (fa_free fa) (fa_total fa))"
    using written_ratio [OF h(2,3)] h by (auto simp: mem_ratio_print_def u)
qed

lemma bat_says:
  assumes "holds fa Bat_init st"
  shows "says (bat_level_print (st_battery st) 1) (dec (fa_level fa))"
    and "says (bat_charging_print (st_battery st) 1) (if fa_charging fa then ''1'' else ''0'')"
    and "answers fa Bat_charging_human_print mc \<Longrightarrow>
      says (bat_charging_human_print (mc_getenv mc) (st_battery st) 1) (env_text fa)"
proof -
  from assms have h: "st_battery st = \<lparr>bat_level = of_nat (fa_level fa), bat_is_charging = (if fa_charging fa then 1 else 0)\<rparr>"
    "fa_level fa < 2 ^ 31" by simp_all
  have u: "unat (of_nat (fa_level fa) :: u32) = fa_level fa" using h(2) by (simp add: unat_of_nat)
  have b: "bat_level (st_battery st) < 2 ^ 31" "bat_is_charging (st_battery st) = (if fa_charging fa then 1 else 0)"
    using h u by (simp_all add: word_less_nat_alt)
  show "says (bat_level_print (st_battery st) 1) (dec (fa_level fa))"
    "says (bat_charging_print (st_battery st) 1) (if fa_charging fa then ''1'' else ''0'')"
    using bat_prints [OF b, of "\<lambda>k. None" 1] h(1) u by (simp_all add: says_def)
  assume "answers fa Bat_charging_human_print mc"
  then have a: "mc_getenv mc k = map_option cstring (fa_env fa k)" "fa_env fa k = Some v \<Longrightarrow> is_text v" for k v by auto
  have env: "\<exists>v. e = cstring v \<and> is_text v" if "mc_getenv mc k = Some e" for k e
    using that a by (auto simp: map_option_case split: option.splits)
  have "bat_charging_human_print (mc_getenv mc) (st_battery st) 1 = Some ([(1,
        let key = (if fa_charging fa then ''USTAT_BAT_CHARGING'' else ''USTAT_BAT_DISCHARGING'');
          def = (if fa_charging fa then ''^'' else ''v'')
        in case mc_getenv mc key of None \<Rightarrow> def | Some e \<Rightarrow> if ctext e = [] then def else ctext e)], 1)"
    using bat_prints [where getenv = "mc_getenv mc" and fd = 1, OF b] env by blast
  then show "says (bat_charging_human_print (mc_getenv mc) (st_battery st) 1) (env_text fa)"
    using a by (auto simp: says_def env_text_def Let_def split: option.splits)
qed

lemma named_view:
  assumes "es \<noteq> []"
  shows "fs_view (if t = [] then hd es else named_entry es t) =
    (if t = [] then hd (map fs_view es)
     else case filter (\<lambda>x. fst x = t) (map fs_view es) of [] \<Rightarrow> hd (map fs_view es) | x # _ \<Rightarrow> x)"
proof -
  have "(\<lambda>e. fst (fs_view e) = t) = (\<lambda>e. fs_name e = t)" by (simp add: fs_view_def)
  then show ?thesis
    using assms by (auto simp: named_entry_def filter_map comp_def hd_map split: list.splits)
qed

text \<open>The number for a file system in a table, and its text.\<close>

lemma fs_says:
  assumes "holds fa Fs_init st" and "mod_name m = cstring nm" and "is_text (nm @ t)"
  defines "s \<equiv> cstring (nm @ t)" and "l \<equiv> length (nm @ t)" and "x \<equiv> mount_of fa t"
  shows "says (fs_total_print (st_fs st) 1 m s l) (dec (fst x))"
    and "says (fs_total_human_print (st_fs st) 1 m s l) (human_text (fst x))"
    and "says (fs_free_print (st_fs st) 1 m s l) (dec (snd x))"
    and "says (fs_free_human_print (st_fs st) 1 m s l) (human_text (snd x))"
    and "says (fs_used_print (st_fs st) 1 m s l) (dec (fst x - snd x))"
    and "says (fs_used_human_print (st_fs st) 1 m s l) (human_text (fst x - snd x))"
    and "says (fs_ratio_print (st_fs st) 1 m s l) (ratio_text (snd x) (fst x))"
proof -
  from assms(1) obtain es where es: "st_fs st = Some es" "es \<noteq> []"
    "list_all (\<lambda>e. entry_safe e \<and> 0 < unat (fs_n_total e)) es" "map fs_view es = fa_mounts fa"
    by (auto simp: table_for_def)
  define e where "e = (if t = [] then hd es else named_entry es t)"
  have ok: "list_all entry_ok es" using es(3) by (simp add: list_all_iff entry_safe_def)
  have sel: "fs_select m (st_fs st) s l = Some e"
    using fs_select_eq [OF assms(2) _ _ ok es(2), of t] assms(3) unfolding es(1) s_def l_def e_def by simp
  have "e \<in> set es" unfolding e_def using named_entry_in [OF es(2), of t] es(2) by simp
  with es(3) have sf: "entry_safe e" "0 < unat (fs_n_total e)" by (auto simp: list_all_iff)
  have "x = snd (fs_view e)"
    unfolding e_def named_view [OF es(2)] es(4) by (simp add: x_def mount_of_def)
  then have x: "fst x = unat (fs_n_total e)" "snd x = unat (fs_n_free e)" by (simp_all add: fs_view_def)
  from sf(1) have le: "unat (fs_n_free e) \<le> unat (fs_n_total e)" "unat (fs_n_total e) < 2 ^ 53"
    by (simp_all add: entry_safe_def word_le_nat_alt)
  have sub: "i64_sub (fs_n_total e) (fs_n_free e) = Some (fs_n_total e - fs_n_free e)"
    "unat (fs_n_total e - fs_n_free e) = unat (fs_n_total e) - unat (fs_n_free e)"
    using sf(1) le by (simp_all add: i64_sub_le entry_safe_def unat_sub)
  show "says (fs_total_print (st_fs st) 1 m s l) (dec (fst x))" "says (fs_free_print (st_fs st) 1 m s l) (dec (snd x))"
    "says (fs_used_print (st_fs st) 1 m s l) (dec (fst x - snd x))"
    by (simp_all add: fs_total_print_def fs_free_print_def fs_used_print_def sel sub write_uint64_eq x)
  have h: "says (write_uint64_human 1 1 v) (human_text (unat v))" if "unat v \<le> unat (fs_n_total e)" for v
    using written_human [of v 1] that le(2) by auto
  show "says (fs_total_human_print (st_fs st) 1 m s l) (human_text (fst x))"
    "says (fs_free_human_print (st_fs st) 1 m s l) (human_text (snd x))"
    "says (fs_used_human_print (st_fs st) 1 m s l) (human_text (fst x - snd x))"
    using h [of "fs_n_total e"] h [OF le(1)] h [of "fs_n_total e - fs_n_free e"]
    by (simp_all add: fs_total_human_print_def fs_free_human_print_def fs_used_human_print_def sel sub x)
  have d: "d_of_int (sint v) = Fin (of_nat (unat v))" if "unat v \<le> unat (fs_n_total e)" for v :: u64
  proof -
    have b: "unat v < 2 ^ 53" using that le(2) by simp
    then have "sint v = int (unat v)" by (intro sint_u64) simp
    with d_of_int_exact [of "int (unat v)"] b show ?thesis by (simp del: of_nat_unat)
  qed
  have "fs_n_total e \<noteq> 0" using sf(2) by auto
  then show "says (fs_ratio_print (st_fs st) 1 m s l) (ratio_text (snd x) (fst x))"
    using written_ratio [OF le(1) sf(2), of 1] d [OF le(1)] d [OF order_refl] by (auto simp: fs_ratio_print_def sel x)
qed

lemma counters_say:
  assumes "i < n_tcp_states" and "f i < 2 ^ 64"
  shows "says (tcp_print_at 1 (counters_for f) i) (dec (f i))"
  using assms says_dec(1) by (simp add: tcp_print_at_def arr_get_def counters_for_def)

lemma sockets_le: "sockets l i \<le> length l"
  by (simp add: sockets_def count_le_length)

lemma sockets_fit:
  assumes "length l4 + length l6 < 2 ^ 64"
  shows "sockets l4 i + sockets l6 i < 2 ^ 64" and "sockets l4 i < 2 ^ 64" and "sockets l6 i < 2 ^ 64"
  using sockets_le [of l4 i] sockets_le [of l6 i] assms by linarith+

lemma tcp_says:
  assumes "holds fa Tcp_init st" and "i < n_tcp_states"
  shows "says (tcp_print_at 1 (tcp_counters (st_tcp st)) i) (dec (sockets (fa_tcp4 fa) i + sockets (fa_tcp6 fa) i))"
    and "says (tcp_print_at 1 (tcp4_counters (st_tcp st)) i) (dec (sockets (fa_tcp4 fa) i))"
    and "says (tcp_print_at 1 (tcp6_counters (st_tcp st)) i) (dec (sockets (fa_tcp6 fa) i))"
proof -
  from assms(1) have st: "st_tcp st = tcp_for (fa_tcp4 fa) (fa_tcp6 fa)"
    and len: "length (fa_tcp4 fa) + length (fa_tcp6 fa) < 2 ^ 64" by simp_all
  show "says (tcp_print_at 1 (tcp_counters (st_tcp st)) i) (dec (sockets (fa_tcp4 fa) i + sockets (fa_tcp6 fa) i))"
    "says (tcp_print_at 1 (tcp4_counters (st_tcp st)) i) (dec (sockets (fa_tcp4 fa) i))"
    "says (tcp_print_at 1 (tcp6_counters (st_tcp st)) i) (dec (sockets (fa_tcp6 fa) i))"
    unfolding st tcp_for_def tcp_state.simps by (rule counters_say [OF assms(2)], rule sockets_fit [OF len])+
qed

lemma tcpdump_says:
  assumes "holds fa Tcp_init st"
  shows "says (ntcp_print (st_tcp st) 1) (''0:'' @ sockets_text fa)"
proof -
  let ?f4 = "sockets (fa_tcp4 fa)" and ?f6 = "sockets (fa_tcp6 fa)"
  from assms have st: "st_tcp st = tcp_for (fa_tcp4 fa) (fa_tcp6 fa)"
    and len: "length (fa_tcp4 fa) + length (fa_tcp6 fa) < 2 ^ 64" by simp_all
  note u = sockets_fit [OF len, THEN unat_of_nat_u64]
  obtain ws where ws: "ntcp_print_loop (st_tcp st) 1 0 = Some ws" "written 1 ws =
    concat (map (\<lambda>i. dec (unat (tcp_counters (st_tcp st) ! i)) @ ''.'' @ dec (unat (tcp4_counters (st_tcp st) ! i)) @
      ''.'' @ dec (unat (tcp6_counters (st_tcp st) ! i)) @ '' '') [0..<n_tcp_states])"
    using ntcp_print_loop_eq [of "st_tcp st" 0 1] by (auto simp: st tcp_for_def counters_for_def)
  have "written 1 ws = sockets_text fa"
    unfolding ws(2) sockets_text_def n_tcp_states_def [symmetric] st
    by (intro arg_cong [where f = concat] map_cong refl) (simp add: tcp_for_def counters_for_def u del: of_nat_add)
  moreover have "dec 0 = ''0''" by code_simp
  ultimately show ?thesis
    using ws(1) by (simp add: says_def ntcp_print_def tcp_print_num_def u64_fmt.exact INDEX_TOTAL_def)
qed

lemma color8_says:
  assumes "nm \<noteq> []" and "\<not> is_digit (last nm)" and "last (nm @ t) \<noteq> CHR ''8''" and "k < 4"
  shows "says (do { c \<leftarrow> last_char (cstring (nm @ t)) (length (nm @ t)); color8_print 1 c (int k) }) (color8_text k t)"
proof -
  have "nm @ t = butlast (nm @ t) @ [last (nm @ t)]" using assms(1) by (simp del: last_append butlast_append)
  then obtain u c where u: "nm @ t = u @ [c]" "c = last (nm @ t)" by blast
  then have c: "c \<noteq> CHR ''8''" "t = [] \<longrightarrow> \<not> is_digit c" "t \<noteq> [] \<longrightarrow> last t = c" using assms by auto
  have "says (color8_print 1 c (int k)) (color8_text k t)"
    using color8_print_eq [OF assms(4), of 1 c] c by (auto simp: color8_text_def)
  then show ?thesis unfolding u(1) using last_char_snoc [of u c] by simp
qed

lemma xterm256_says:
  assumes "mod_name m = cstring nm" and "is_text nm"
  shows "says (xterm256_print 1 m (cstring (nm @ t)) l mode) (xterm256_text mode t)"
  unfolding xterm256_print_eq [OF assms] by (auto simp: xterm256_text_def Let_def says_def)

lemma rgb_says:
  assumes "mod_name m = cstring nm" and "is_text nm"
  shows "says (rgb_print 1 m (cstring (nm @ h)) (length (nm @ h)) mode) (rgb_text mode h)"
  unfolding rgb_print_eq [OF assms] by (auto simp: rgb_text_def says_def)

lemma date_says:
  assumes "answers fa Date_print mc" and "mod_name m = cstring nm" and "is_text nm" and "is_text t"
  shows "says (date_print (mc_gmtime mc) (mc_strftime mc) (mc_time mc) 1 m (cstring (nm @ t)) l) (fa_date fa t)"
proof -
  obtain sec usec where time: "mc_time mc = (sec, usec)" by (cases "mc_time mc")
  with assms(1) obtain tm where d: "unat sec < 2 ^ 44" "unat usec < 10 ^ 6"
    "mc_gmtime mc (int (unat sec)) = Some tm" "\<And>fmt. mc_strftime mc 256 fmt tm = fa_date fa fmt" by auto
  have "unat sec * 10 ^ 6 + unat usec < 2 ^ 64" using d(1,2) by simp
  from date_seconds_eq [OF this] have "unat (date_seconds sec usec) = unat sec" using d(2) by simp
  then have "date_seconds sec usec = sec" by (simp add: word_unat_eq_iff)
  moreover have "sint sec = int (unat sec)" using d(1) by (intro sint_u64) simp
  moreover have "drop (length nm) (cstring (nm @ t)) = cstring t" by (simp add: cstring_def)
  ultimately show ?thesis
    using d(3,4) assms(2-4) by (auto simp: date_print_def time Let_def says_def simp del: of_nat_unat)
qed

lemma numbers_say:
  shows "answers fa Uid_print mc \<Longrightarrow> says (uid_print (mc_uid mc) 1 m s l) (dec (fa_uid fa))"
    and "answers fa User_print mc \<Longrightarrow> says (user_print (mc_pw_name mc) 1 m s l) (fa_user fa)"
    and "holds fa Nusers_init st \<Longrightarrow> says (nusers_print (st_nusers st) 1 m s l) (dec (fa_users fa))"
    and "answers fa Nproc_print mc \<Longrightarrow> says (nproc_print (get_number_active_processes (mc_proc mc)) 1 m s l) (dec (fa_procs fa))"
    and "answers fa Ncpus_print mc \<Longrightarrow> says (ncpus_print (mc_ncpus mc) 1 m s l) (dec (fa_cpus fa))"
proof -
  show "answers fa Uid_print mc \<Longrightarrow> says (uid_print (mc_uid mc) 1 m s l) (dec (fa_uid fa))"
    using user_numbers [of 0 "mc_uid mc" 1 m s l] by simp
  show "answers fa User_print mc \<Longrightarrow> says (user_print (mc_pw_name mc) 1 m s l) (fa_user fa)"
    by (auto simp: user_print_def str_len_eq cstring_def)
  show "holds fa Nusers_init st \<Longrightarrow> says (nusers_print (st_nusers st) 1 m s l) (dec (fa_users fa))"
    using user_numbers [of "int (fa_users fa)" _ 1 m s l] by simp
  show "answers fa Ncpus_print mc \<Longrightarrow> says (ncpus_print (mc_ncpus mc) 1 m s l) (dec (fa_cpus fa))"
    using process_numbers [of "[]" "int (fa_cpus fa)" 1 m s l] by simp
  assume "answers fa Nproc_print mc"
  then obtain ds where d: "mc_proc mc = Some ds" "list_all (\<lambda>d. d \<noteq> []) ds" "length ds < 2 ^ 64"
    "length (filter (\<lambda>d. is_digit (hd d)) ds) = fa_procs fa" by auto
  show "says (nproc_print (get_number_active_processes (mc_proc mc)) 1 m s l) (dec (fa_procs fa))"
    using process_numbers [OF d(2,3), of 0 1 m s l] d(1,4) by simp
qed

lemma pass_says:
  assumes "mod_name m = cstring nm" and "is_text (nm @ t)"
  shows "says (pass_print 1 m (cstring (nm @ t)) (length (nm @ t))) t"
proof -
  have "take (length (nm @ t) - length nm) (drop (length nm) (cstring (nm @ t))) = t"
    "length (nm @ t) \<le> length (cstring (nm @ t))"
    by (simp_all add: cstring_def)
  with assms show ?thesis by (simp add: pass_print_def)
qed

lemma call_print_facts:
  assumes st: "holds fa (reads (mod_print m)) st" and mc: "answers fa (mod_print m) mc"
    and m: "mod_name m = cstring nm" and t: "is_text (nm @ t)"
    and col: "mod_print m \<in> color8_modules \<Longrightarrow> nm \<noteq> [] \<and> \<not> is_digit (last nm) \<and> last (nm @ t) \<noteq> CHR ''8''"
  shows "says (call_print (mod_print m) mc st 1 m (cstring (nm @ t)) (length (nm @ t))) (fact_text fa (mod_print m) t)"
proof -
  have nm: "is_text nm" "is_text t" using t by simp_all
  have c8: "says (do { c \<leftarrow> last_char (cstring (nm @ t)) (length (nm @ t)); color8_print 1 c (int k) }) (color8_text k t)"
    if "k < 4" "mod_print m \<in> color8_modules" for k
    using color8_says [OF _ _ _ that(1)] col [OF that(2)] by blast
  have tcp: "TCP_ESTABLISHED < n_tcp_states" "TCP_LISTEN < n_tcp_states" "TCP_CLOSING < n_tcp_states" "INDEX_TOTAL < n_tcp_states"
    and all: "sockets l INDEX_TOTAL = length l" for l
    by (simp_all add: n_tcp_states_def TCP_ESTABLISHED_def TCP_LISTEN_def TCP_CLOSING_def INDEX_TOTAL_def sockets_def)
  note tcp_at = tcp_says [OF _ tcp(1)] tcp_says [OF _ tcp(2)] tcp_says [OF _ tcp(3)] tcp_says [OF _ tcp(4), unfolded all]
  show ?thesis
  proof (cases "mod_print m")
    case Color8_fg_normal_print
    then show ?thesis using c8 [of 0] by (simp add: color8_fg_normal_print_def color8_modules_def)
  next
    case Color8_fg_bright_print
    then show ?thesis using c8 [of 1] by (simp add: color8_fg_bright_print_def color8_modules_def)
  next
    case Color8_bg_normal_print
    then show ?thesis using c8 [of 2] by (simp add: color8_bg_normal_print_def color8_modules_def)
  next
    case Color8_bg_bright_print
    then show ?thesis using c8 [of 3] by (simp add: color8_bg_bright_print_def color8_modules_def)
  qed (use st mc pass_says [OF m t] date_says [OF _ m nm] load_says uptime_says mem_says bat_says fs_says [OF _ m t]
      numbers_say tcp_at tcpdump_says xterm256_says [OF m nm(1)] rgb_says [OF m nm(1)]
      in \<open>simp_all del: holds.simps answers.simps(1-6) add: nl_print_def color_off_def
      xterm256_fg_print_def xterm256_bg_print_def rgb_fg_print_def rgb_bg_print_def
      ntcp_established_print_def ntcp_all_print_def ntcp_listen_print_def ntcp_closing_print_def
      ntcp4_established_print_def ntcp4_all_print_def ntcp4_listen_print_def ntcp4_closing_print_def
      ntcp6_established_print_def ntcp6_all_print_def ntcp6_listen_print_def ntcp6_closing_print_def\<close>)
qed

section \<open>The whole program\<close>

text \<open>For facts \<open>fa\<close> and a set \<open>F\<close> of initialisers that the arguments need.\<close>

interpretation linux_correct: correct_build call_init statics_ok "\<lambda>mc. \<forall>f \<in> F. reports fa mc f" "factual fa"
    "holds fa" "\<lambda>f. f \<in> F" call_print "answers fa" "fact_text fa"
  for fa :: facts and F :: "init_fn set"
proof unfold_locales
  fix mc :: "'tm machine" and st f m
  assume "\<forall>f \<in> F. reports fa mc f" "factual fa st" "f \<in> F"
  then have "reports fa mc f" "factual fa st" by simp_all
  from call_init_facts [OF this, of m]
  show "(\<exists>ws code. call_init f mc st m = Some (ws, Inl code) \<and> code \<in> {}) \<or>
      (\<exists>ws rc st' m'. call_init f mc st m = Some (ws, Inr (rc, st', m')) \<and> factual fa st' \<and>
        (rc = 0 \<longrightarrow> 1 \<in> {}) \<and> (rc \<noteq> 0 \<longrightarrow> mod_ready m \<or> holds fa f st') \<and> (\<forall>g. holds fa g st \<longrightarrow> holds fa g st'))" by blast
next
  fix mc :: "'tm machine" and m :: ustat_module and st nm t
  assume "holds fa (reads (mod_print m)) st" "answers fa (mod_print m) mc" "mod_name m = cstring nm" "is_text (nm @ t)"
    and "mod_print m \<in> color8_modules \<Longrightarrow> nm \<noteq> [] \<and> \<not> is_digit (last nm) \<and> last (nm @ t) \<noteq> CHR ''8''"
  then have "says (call_print (mod_print m) mc st 1 m (cstring (nm @ t)) (length (nm @ t))) (fact_text fa (mod_print m) t)"
    by (rule call_print_facts)
  then show "\<exists>ws r. call_print (mod_print m) mc st 1 m (cstring (nm @ t)) (length (nm @ t)) = Some (ws, r) \<and>
      written 1 ws = fact_text fa (mod_print m) t" by (simp add: says_def)
qed (simp_all add: factual_initial)

lemma correct_run:
  assumes "\<forall>i. \<forall>s \<in> set ss. reports fa (mach i) (mod_init (chosen (cstring s)))"
    and "\<forall>i. \<forall>s \<in> set ss. answers fa (mod_print (chosen (cstring s))) (mach' i)"
    and "list_all arg_safe ss" and "no_help (map cstring ss)"
  shows "\<exists>ws. ustat_main mach mach' (map cstring ss) = Some (ws, 0) \<and>
    written 1 ws = concat (map (rendered (fact_text fa)) ss)"
  unfolding ustat_main_def
  by (rule linux_correct.run_correct [where F = "(\<lambda>s. mod_init (chosen (cstring s))) ` set ss"]) (use assms in auto)


lemma example_reports:
  assumes "f \<in> {Load_init, Uptime_init, Fs_init, Tcp_init, No_init}"
  shows "reports example_facts example_machine f"
proof -
  have "reports example_facts example_machine Load_init"
    by (simp add: example_facts_def example_machine_def sample_sysinfo_def)
  moreover have "reports example_facts example_machine Uptime_init"
  proof -
    have "takeWhile is_digit ''86461.07 1.23'' = ''86461''" by code_simp
    moreover have "undec ''86461'' = 86461" by (simp add: undec_def dval_def)
    ultimately show ?thesis by (simp add: example_facts_def example_machine_def FMT_ULONG_def)
  qed
  moreover have "reports example_facts example_machine Fs_init"
  proof -
    have "mline_ok (mount_at ''/home'')" "\<not> ignored_mount ''/home''" by code_simp+
    moreover have "mline_text (mount_at ''/home'') \<noteq> []" by (simp add: mline_text_def)
    moreover have "ml_point (mount_at p) = p" for p by (simp add: mount_at_def)
    ultimately show ?thesis
      by (simp add: example_facts_def example_machine_def stat_exact_def stat_1000_def mount_facts_def
          exI [of _ "[mount_at ''/home'']"])
  qed
  moreover have "reports example_facts example_machine Tcp_init"
  proof -
    have st: "line_state listening_line = 10" "line_state established_line = 1" by code_simp+
    have k: "known_lines [established_line]" using examples_ok(1) by (simp add: known_lines_def)
    show ?thesis
      unfolding reports.simps
      by (rule exI [of _ "[Bytes (proc_text proc_head [listening_line, established_line])]"], rule exI [of _ proc_head],
          rule exI [of _ "[listening_line, established_line]"], rule exI [of _ "[Bytes (proc_text proc_head [established_line])]"],
          rule exI [of _ proc_head], rule exI [of _ "[established_line]"])
        (use k examples_ok in \<open>simp add: example_facts_def example_machine_def st proc_text_def\<close>)
  qed
  ultimately show ?thesis using assms by (cases f) (simp_all del: reports.simps add: reports.simps(1))
qed


end
