(* ===== verification/Spec2Isabelle.thy ===== *)
theory Spec2Isabelle
  imports Bsd_safety Netlink Linux_correct
begin

text \<open>
  \<^bold>\<open>A model of ustat.\<close>
  The program prints facts about a system to standard output, for a prompt or a status line. Each
  argument names a module by a prefix, and \<open>ustat tcp6.e / tcp\<close> prints two counters with a slash
  between them. \<^verbatim>\<open>ustat.c\<close> holds a table of 49 modules (name, description, \<open>init\<close>, \<open>print\<close>) and
  \<open>main\<close>, which looks every argument up and calls \<open>init\<close> once for each module, and then calls
  every \<open>print\<close> in the order of the arguments. The modules keep what they found in static
  variables, and write with a few helper functions and functions of djb's library.

  \<^bold>\<open>Conventions.\<close>
  A function of C is a function to an option type, where \<^term>\<open>None\<close> is undefined behaviour: an
  access outside an object, a conversion out of range, signed overflow, a loop that never ends. The
  theorems that state a result thus state that the code has no undefined behaviour, too. Integers
  have the widths of LP64; \<open>nat\<close> stands for positions and lengths. A string of C is the list of
  the bytes of its object (\<open>cstr\<close>), an array that is filled step by step a list of optional
  bytes (\<open>buf\<close>). What a function writes is a list of descriptors and texts (\<open>out\<close>), and
  \<^term>\<open>written fd ws\<close> the bytes that reach a descriptor. A descriptor that is read is the list of
  what successive calls of \<open>read\<close> can deliver (\<open>stream\<close>), so that the sizes of partial reads
  are part of the model. The other answers of the system (\<open>sysinfo\<close>, \<open>statvfs\<close>, \<open>getutxent\<close>,
  \<open>getpwuid\<close>, \<open>gmtime\<close>, \<open>strftime\<close>, \<open>qsort\<close>, \<open>getenv\<close>, a file that cannot be opened) are
  arguments of the functions, collected in the record \<open>machine\<close>.

  \<^bold>\<open>The theories.\<close>
    \<^item> \<open>Prelude\<close>: bytes, texts, buffers, writes, streams, decimal numerals.
    \<^item> \<open>Djb\<close>: \<^verbatim>\<open>djb/\<close>. Every routine is translated with its unrolled loop and shown equal to a
      recursive reference. The locale \<open>decimal_formatter\<close> states what the callers of a formatter
      need; \<open>fmt_ulong\<close> provides it here, and \<open>fmt_uint64\<close> in \<open>Helpers\<close>.
    \<^item> \<open>Floating\<close>: the doubles that the program computes with, as rationals with rounding to
      nearest, ties to even, gradual underflow, infinities and NaN. The two zeros are one value, as no
      operation of the program tells them apart.
    \<^item> \<open>Helpers\<close>: \<^verbatim>\<open>ustat_helper/\<close>. \<open>write_double\<close>, \<open>write_uint64_human\<close>, \<open>scan_hex\<close>,
      \<open>first_n_fields\<close>, \<open>read_double_from_fd\<close> and the rest.
    \<^item> \<open>Module\<close>: \<^verbatim>\<open>ustat.h\<close>, \<^verbatim>\<open>ustat_pass.c\<close>, \<^verbatim>\<open>ustat_spec.c\<close>. A function pointer is a
      constructor of \<open>init_fn\<close> or \<open>print_fn\<close>.
    \<^item> \<open>Color\<close>: \<^verbatim>\<open>ustat_color.c\<close>.
    \<^item> \<open>Tcp\<close>: \<^verbatim>\<open>ustat_tcp.c\<close> and the reader of \<^verbatim>\<open>/proc/net/tcp\<close> in \<^verbatim>\<open>ustat_tcp_linux.c\<close>, whose
      labels are the constructors of \<open>label\<close>. The lemmas go from the buffered reader to the bytes of the
      file, from there to its lines, and to the counters.
    \<^item> \<open>Tcp_netlink\<close>, \<open>Tcp_bsd\<close>: the other sources of the counters, the netlink branch of
      \<^verbatim>\<open>ustat_tcp_linux.c\<close>, which is shown to agree with the parser, and \<^verbatim>\<open>ustat_tcp_bsd.c\<close>.
    \<^item> \<open>Fs\<close>: \<^verbatim>\<open>ustat_fs.c\<close>, \<^verbatim>\<open>ustat_fs_linux.c\<close>, \<^verbatim>\<open>ustat_fs_other.c\<close>. The loop over
      mountinfo, which cuts the buffer into strings in place, refines \<open>mountinfo_table\<close>, which splits
      the text of the file into lines and columns.
    \<^item> \<open>Users\<close>: \<^verbatim>\<open>ustat_user.c\<close>. \<open>qsort\<close> is a function argument of which the theorems only use
      that it sorts when the comparison is consistent.
    \<^item> \<open>Sysinfo\<close>: \<^verbatim>\<open>ustat_load.c\<close>, \<^verbatim>\<open>ustat_mem*.c\<close>, \<^verbatim>\<open>ustat_procs.c\<close>, \<^verbatim>\<open>ustat_cpu.c\<close>.
    \<^item> \<open>Uptime\<close>, \<open>Battery\<close>, \<open>Date\<close>: \<^verbatim>\<open>ustat_uptime*.c\<close>, \<^verbatim>\<open>ustat_battery*.c\<close>,
      \<^verbatim>\<open>ustat_date.c\<close>.
    \<^item> \<open>Ustat\<close>: \<^verbatim>\<open>ustat.c\<close>, with the record \<open>statics\<close> of all static variables, both loops of
      \<open>main\<close> over the dispatchers of a build, and the dispatch of the function pointers for Linux. The
      locale \<open>prefix_table\<close> says in which tables the first match is the longest, and the locale
      \<open>initialiser\<close> what \<open>main\<close> needs of the initialisers: that they change nothing of a module but
      \<open>ready\<close>, write nothing to standard output and keep an invariant; \<open>returning_initialiser\<close> adds
      that they do not end the program. They are interpreted on the model.
    \<^item> \<open>Steps\<close>: \<open>main\<close> as a state machine with a step for every iteration and every call. The lemmas show
      that the machine refines the recursive description, that every step makes a measure smaller, and
      invariants of the reachable configurations; the locale \<open>growing_initialiser\<close> carries a relation
      of the static variables from single calls to runs.
    \<^item> \<open>Runs\<close>: runs of any build whose dispatchers satisfy the locale \<open>build\<close>.
    \<^item> \<open>Depends\<close>: the locale \<open>same_runs\<close>, which carries the agreement of two builds, or of one build on
      two systems, from single calls to whole runs; what each module asks the system for; and
      \<^verbatim>\<open>djb/open_read.c\<close> with the names of the files that are opened.
    \<^item> \<open>Definedness\<close>: the locales \<open>safe_inits\<close> and \<open>safe_build\<close>, with the proof that runs within the limits of a build have no
      undefined behaviour, make progress and end after a bounded number of steps.
    \<^item> \<open>Safety\<close>: the limits of the build for Linux (\<open>machine_safe\<close>), and the proofs for every
      initialiser and every print function.
    \<^item> \<open>Specification\<close>: what the program is to print. The record \<open>facts\<close> describes a system by numbers and
      texts, \<open>fact_text\<close> gives the text of every module for them, and \<open>reports\<close> and \<open>answers\<close> say which
      answers of the system report the facts that an initialiser and a print function ask for.
    \<^item> \<open>Correctness\<close>, \<open>Linux_correct\<close>: the locale \<open>correct_build\<close>, which extends the part of \<open>safe_build\<close> for the
      first loop, and the refinement: a run on a system that reports some facts prints the specified texts in the
      order of the arguments.
    \<^item> \<open>Netlink\<close>: the build for Linux with \<open>USTAT_NETLINK\<close>. It is shown to give the same results as the
      one without it, when the answers of the kernel are consistent with the files and when netlink fails.
    \<^item> \<open>Bsd\<close>, \<open>Bsd_safety\<close>: the builds for a BSD and for macOS, with the dispatch to the platform's functions and the
      numbers of the states that the BSD part of \<^verbatim>\<open>ustat_tcp.c\<close> selects, and their limits
      (\<open>bsd_machine_safe\<close>).
    \<^item> \<open>Spec2Isabelle\<close>: the properties of whole runs on Linux.

  The locales \<open>initialiser\<close>, \<open>growing_initialiser\<close>, \<open>build\<close> and \<open>same_runs\<close> are interpreted on the
  dispatchers of all three builds, and \<open>safe_build\<close> on those for Linux and for the BSDs; \<open>correct_build\<close> is interpreted on the one for Linux.

  \<^bold>\<open>Termination.\<close>
  The loops are functions with a measure, and need no fuel. Only \<open>read_double_from_fd\<close> and
  \<open>_count_tcp_states\<close> can loop for ever, and the walk over the control blocks of the BSDs has no bound of
  its own; these loops are partial functions, and theorems show inputs on which the first two hang.

  \<^bold>\<open>Not modelled.\<close>
  Failures of \<open>write\<close>, \<open>malloc\<close> and \<open>realloc\<close>, whose results the program ignores, do not happen in the
  model; neither do signals. Header files other than \<^verbatim>\<open>ustat.h\<close> and \<^verbatim>\<open>ustat_fs.h\<close> only declare,
  and \<^verbatim>\<open>ustat_net_bsd.c\<close> is empty. The builds that are composed to whole programs are those for Linux
  with and without \<open>USTAT_NETLINK\<close> (which no build file enables), for a BSD and for macOS. What the
  code relies on of the frameworks of macOS is a list of power sources. The flag that \<open>date_print\<close> sets is
  not read any more and left out. With this every function of the program has its definition; the lines
  that are not in a definition are declarations, includes, conditions of the preprocessor and comments.
\<close>

section \<open>Lookup\<close>

text \<open>
  C2. \<open>main\<close> takes the module with the longest name that the argument starts with, although it stops
  at the first one: \<open>tcp6.e\<close> is not taken for \<open>tcp6\<close> or \<open>tcp\<close>. An argument that starts with no
  name gets the index \<open>nmodules\<close>, which is mapped to the pass module.
\<close>

theorem find_module_longest:
  assumes "terminated arg"
  shows "\<exists>j. find_module arg modules 1 = Some j \<and> 1 \<le> j \<and> j \<le> nmodules \<and>
    (if j < nmodules
     then prefix (name_of (modules ! j)) (ctext arg) \<and>
       (\<forall>k \<in> {1..<nmodules}. prefix (name_of (modules ! k)) (ctext arg) \<longrightarrow>
         length (name_of (modules ! k)) \<le> length (name_of (modules ! j)))
     else \<forall>k \<in> {1..<nmodules}. \<not> prefix (name_of (modules ! k)) (ctext arg))"
proof -
  let ?names = "map name_of (drop 1 modules)" and ?s = "ctext arg"
  define n where "n = length (takeWhile (\<lambda>m. \<not> prefix (name_of m) ?s) (drop 1 modules))"
  have ne: "modules \<noteq> []" using length_modules by auto
  have f: "find_module arg modules 1 = Some (1 + n)"
    using find_module_selected [OF assms names_ok_modules ne] by (simp add: selected_def n_def)
  have le: "n \<le> length ?names" using length_takeWhile_le [of _ "drop 1 modules"] by (simp add: n_def)
  have before: "\<not> prefix (?names ! i) ?s" if "i < n" for i
    using that set_takeWhileD [of "takeWhile (\<lambda>m. \<not> prefix (name_of m) ?s) (drop 1 modules) ! i"]
    by (metis (no_types, lifting) le length_map n_def nth_map nth_mem order.strict_trans2 takeWhile_nth)
  have nth: "?names ! i = name_of (modules ! Suc i)" if "i < length ?names" for i using that by simp
  show ?thesis
  proof (cases "n < length ?names")
    case True
    then have hit: "prefix (?names ! n) ?s"
      using nth_length_takeWhile [of "\<lambda>m. \<not> prefix (name_of m) ?s" "drop 1 modules"] by (simp add: n_def)
    have "length (name_of (modules ! k)) \<le> length (name_of (modules ! (1 + n)))"
      if "k \<in> {1..<nmodules}" "prefix (name_of (modules ! k)) ?s" for k
    proof -
      from that have k: "k - 1 < length ?names" "prefix (?names ! (k - 1)) ?s" "?names ! (k - 1) = name_of (modules ! k)"
        by (auto simp: nmodules_def)
      show ?thesis using table.first_longest [OF True hit before k(1,2)] k(3) nth [OF True] by simp
    qed
    then show ?thesis using f le True hit nth [OF True] by (auto simp: nmodules_def)
  next
    case False
    then have n: "n = length ?names" using le by simp
    have "\<not> prefix (name_of (modules ! k)) ?s" if "k \<in> {1..<nmodules}" for k
    proof -
      from that n have "k - 1 < n" "?names ! (k - 1) = name_of (modules ! k)" by (auto simp: nmodules_def)
      then show ?thesis using before by metis
    qed
    then show ?thesis using f n length_modules by (auto simp: nmodules_def)
  qed
qed

theorem find_module_longest_witness:
  "find_module (cstring ''tcp6.e'') modules 1 = Some 27 \<and> name_of (modules ! 27) = ''tcp6.e'' \<and>
   (\<exists>j. find_module (cstring ''tcp6.e'') modules 1 = Some j \<and> 1 \<le> j \<and> j \<le> nmodules)"
proof -
  have "find_module (cstring ''tcp6.e'') modules 1 = Some 27" by code_simp
  moreover have "name_of (modules ! 27) = ''tcp6.e''" by code_simp
  ultimately show ?thesis using find_module_longest [of "cstring ''tcp6.e''"] by auto
qed

section \<open>Usage\<close>

text \<open>
  A single argument that starts with \<open>-h\<close> prints a line with the name and the description of
  every module but the first to standard output and exits with 0, on any machine.
\<close>

theorem main_help:
  assumes "terminated arg" and "prefix ''-h'' (ctext arg)"
  shows "\<exists>ws. ustat_main mach mach' [arg] = Some (ws, 0) \<and> written 1 ws = usage_text \<and> written 2 ws = []"
  using usage_written help_diffn [OF assms] by (simp add: ustat_main_def main_of_def)

theorem main_help_witness:
  "\<exists>ws. ustat_main (\<lambda>i. example_machine) (\<lambda>i. example_machine) [cstring ''-help''] = Some (ws, 0) \<and> written 1 ws = usage_text"
  using main_help [of "cstring ''-help''"] by auto


section \<open>The output of a run\<close>

lemma ustat_main_no_help:
  assumes "no_help args" and "list_all terminated args"
  shows "ustat_main mach mach' args = do {
    (ws, r) \<leftarrow> init_args call_init mach 1 args modules statics_initial;
    (case r of
       Inl code \<Rightarrow> Some (ws, code)
     | Inr (mods, st, js) \<Rightarrow> do {
         ws' \<leftarrow> print_args call_print mach' 1 args js mods st;
         Some (ws @ ws', 0) }) }"
  unfolding ustat_main_def by (rule main_of_no_help [OF assms])

text \<open>
  C4. A run that exits with 0 has written to standard output what the \<open>print\<close> functions of the
  selected modules write, in the order of the arguments, and nothing else: initialisation happens
  before all output, and writes nothing to it.
\<close>

theorem main_success:
  assumes "ustat_main mach mach' args = Some (ws, 0)" and "no_help args" and "list_all terminated args"
  shows "\<exists>w mods st js outs. init_args call_init mach 1 args modules statics_initial = Some (w, Inr (mods, st, js)) \<and>
    written 1 ws = concat (map (written 1) outs) \<and> length outs = length args \<and>
    (\<forall>n < length args. let m = mods ! (selected modules (ctext (args ! n)) mod nmodules) in
      \<exists>r. call_print (mod_print m) (mach' (n + 1)) st STDOUT_FILENO m (args ! n) (length (ctext (args ! n))) =
        Some (outs ! n, r))"
proof -
  from assms obtain w r where i: "init_args call_init mach 1 args modules statics_initial = Some (w, r)"
    by (auto simp: ustat_main_no_help)
  show ?thesis
  proof (cases r)
    case (Inl code)
    from ustat.init_args_failure [OF i [unfolded Inl] assms(3) names_ok_modules modules_ne] have "code = 1" by simp
    moreover have "code = 0" using i Inl assms by (auto simp: ustat_main_no_help)
    ultimately have False by simp
    then show ?thesis by simp
  next
    case (Inr x)
    obtain mods st js where x: "x = (mods, st, js)" by (cases x)
    with assms i Inr obtain ws' where p: "print_args call_print mach' 1 args js mods st = Some ws'" "ws = w @ ws'"
      by (auto simp: ustat_main_no_help)
    from ustat.init_args_frame [OF i [unfolded Inr x] assms(3) names_ok_modules modules_ne]
    have f: "written 1 w = []" "js = map (\<lambda>arg. selected modules (ctext arg) mod nmodules) args"
      by (simp_all add: nmodules_def)
    from print_args_outputs [OF p(1) _ assms(3)] f(2) obtain outs where
      o: "length outs = length args" "ws' = concat outs"
      "\<forall>n < length args. \<exists>r. call_print (mod_print (mods ! (js ! n))) (mach' (1 + n)) st 1 (mods ! (js ! n)) (args ! n)
        (length (ctext (args ! n))) = Some (outs ! n, r)" by auto
    have "written 1 ws = concat (map (written 1) outs)"
      by (simp add: p(2) f(1) o(2) written_concat del: One_nat_def)
    then show ?thesis using i Inr x o f(2)
      by (intro exI [of _ w] exI [of _ mods] exI [of _ st] exI [of _ js] exI [of _ outs]) (auto simp: Let_def)
  qed
qed



text \<open>
  The initialisation of all modules for any arguments keeps the invariant of the static variables and
  changes no entry of the table but for its flag; every index it computes is one of the table.
\<close>

theorem init_args_invariant:
  assumes "init_args call_init mach 1 args modules statics_initial = Some (ws, Inr (mods, st, js))"
    and "list_all terminated args"
  shows "statics_ok st \<and> same_table modules mods \<and> written 1 ws = [] \<and>
    length js = length args \<and> (\<forall>j \<in> set js. j < length mods)"
  using ustat.init_args_frame [OF assms(1,2) names_ok_modules modules_ne] statics_initial_ok
  by (auto simp: same_table_length)

section \<open>Arguments that are text\<close>

text \<open>
  C21. Arguments that name no module, and those that start with \<open>%\<close>, without that character, are copied
  to standard output, and the exit code is 0; no answer of the system has any influence.
\<close>

theorem main_literal:
  assumes "list_all (\<lambda>arg. terminated arg \<and> literal (ctext arg) \<noteq> None) args" and "no_help args"
  shows "ustat_main mach mach' args = Some (map (\<lambda>arg. (1, the (literal (ctext arg)))) args, 0)"
  unfolding ustat_main_def using assms by (rule linux.literal_run)

theorem main_literal_witness:
  "ustat_main (\<lambda>i. example_machine) (\<lambda>i. example_machine) [cstring ''cpu: '', cstring ''%tcp'', cstring '' |''] =
    Some ([(1, ''cpu: ''), (1, ''tcp''), (1, '' |'')], 0)"
proof -
  have "list_all (\<lambda>s. literal s \<noteq> None) [''cpu: '', ''%tcp'', '' |'']" by code_simp
  then have "list_all (\<lambda>arg. terminated arg \<and> literal (ctext arg) \<noteq> None) [cstring ''cpu: '', cstring ''%tcp'', cstring '' |'']"
    by simp
  from main_literal [OF this] 
  have "ustat_main (\<lambda>i. example_machine) (\<lambda>i. example_machine) [cstring ''cpu: '', cstring ''%tcp'', cstring '' |''] =
      Some (map (\<lambda>s. (1, the (literal s))) [''cpu: '', ''%tcp'', '' |''], 0)" by (simp add: no_help_def)
  moreover have "map (\<lambda>s. (1 :: nat, the (literal s))) [''cpu: '', ''%tcp'', '' |''] = [(1, ''cpu: ''), (1, ''tcp''), (1, '' |'')]"
    by code_simp
  ultimately show ?thesis by simp
qed

lemma linux_tcp_run:
  fixes mach mach' :: "nat \<Rightarrow> 'tm machine"
  assumes "mc_tcp4 (mach 1) = Some fd4" and "mc_tcp6 (mach 1) = Some fd6"
    and "clean fd4" and "content fd4 = proc_text h4 xs4" and "LF \<notin> set h4" and "known_lines xs4"
    and "clean fd6" and "content fd6 = proc_text h6 xs6" and "LF \<notin> set h6" and "known_lines xs6"
    and "length xs4 + length xs6 < 2 ^ 64"
  shows "\<exists>mods st. init_args call_init mach 1 [cstring ''tcp6.e'', cstring ''/'', cstring ''tcp''] modules statics_initial =
      Some ([], Inr (mods, st, [27, 0, 39])) \<and>
    print_args call_print mach' 1 [cstring ''tcp6.e'', cstring ''/'', cstring ''tcp''] [27, 0, 39] mods st =
      Some [(1, dec (count_list (map line_state xs6) 1)), (1, ''/''), (1, dec (length xs4 + length xs6))]"
proof -
  obtain tcp' where t: "tcp_init (Some fd4) (Some fd6) tcp_initial (modules ! 27) = Some (1, tcp', (modules ! 27)\<lparr>mod_ready := True\<rparr>)"
    "tcp_inited tcp'"
    "ntcp6_established_print tcp' 1 = Some ([(1, dec (count_list (map line_state xs6) 1))], 1)"
    "ntcp_all_print tcp' 1 = Some ([(1, dec (length xs4 + length xs6))], 1)"
    using tcp_init_prints [OF _ assms(3-), of tcp_initial "modules ! 27" 1]
    by (auto simp: tcp_initial_def Let_def)
  let ?st = "statics_initial\<lparr>st_tcp := tcp'\<rparr>"
  have first: "call_init Tcp_init (mach 1) statics_initial (modules ! 27) =
      Some ([], Inr (1, ?st, (modules ! 27)\<lparr>mod_ready := True\<rparr>))"
    using t(1) assms(1,2) by (simp add: statics_initial_def)
  have again: "call_init Tcp_init mc ?st m = Some ([], Inr (1, ?st, m\<lparr>mod_ready := True\<rparr>))"
    for mc :: "'tm machine" and m using t(2) by (simp add: tcp_init_def)
  have p6: "call_print Ntcp6_established_print mc ?st 1 m s l = Some ([(1, dec (count_list (map line_state xs6) 1))], 1)"
    and p: "call_print Ntcp_all_print mc ?st 1 m s l = Some ([(1, dec (length xs4 + length xs6))], 1)"
    for mc :: "'tm machine" and m s l using t(3,4) by simp_all
  show ?thesis using linux.tcp_run [where mach = mach, OF first again p6 p, of mach'] by auto
qed


section \<open>No undefined behaviour\<close>

lemma defined_run:
  assumes "\<forall>i. machine_safe (mach i) \<and> machine_safe (mach' i)" and "list_all arg_safe ss"
  shows "\<exists>ws code. ustat_main mach mach' (map cstring ss) = Some (ws, code) \<and> (code = 0 \<or> code = 1)"
  using linux_safe.run_defined [OF assms] by (auto simp: ustat_main_def list_all_iff)


text \<open>The same holds of the build with \<open>USTAT_NETLINK\<close>, as it behaves in the same way.\<close>

lemma netlink_defined:
  assumes "\<forall>i. machine_safe (fst (mach i)) \<and> machine_safe (fst (mach' i)) \<and> consistent (fst (mach i)) (snd (mach i))"
    and "list_all arg_safe ss"
  shows "\<exists>ws code. netlink_main mach mach' (map cstring ss) = Some (ws, code) \<and> (code = 0 \<or> code = 1)"
proof -
  have "netlink_main mach mach' (map cstring ss) = ustat_main (\<lambda>i. fst (mach i)) (\<lambda>i. fst (mach' i)) (map cstring ss)"
    using assms(1) by (intro netlink_same_run) (simp_all add: list_all_iff)
  with defined_run [of "\<lambda>i. fst (mach i)" "\<lambda>i. fst (mach' i)" ss] assms show ?thesis by simp
qed

text \<open>And it prints what is specified.\<close>

lemma netlink_correct:
  assumes "\<forall>i. \<forall>s \<in> set ss. reports fa (fst (mach i)) (mod_init (chosen (cstring s)))"
    and "\<forall>i. \<forall>s \<in> set ss. answers fa (mod_print (chosen (cstring s))) (fst (mach' i))"
    and "\<forall>i. consistent (fst (mach i)) (snd (mach i))"
    and "list_all arg_safe ss" and "no_help (map cstring ss)"
  shows "\<exists>ws. netlink_main mach mach' (map cstring ss) = Some (ws, 0) \<and>
    written 1 ws = concat (map (rendered (fact_text fa)) ss)"
proof -
  have "netlink_main mach mach' (map cstring ss) = ustat_main (\<lambda>i. fst (mach i)) (\<lambda>i. fst (mach' i)) (map cstring ss)"
    using assms(3) by (intro netlink_same_run) (simp_all add: list_all_iff)
  with correct_run [of ss fa "\<lambda>i. fst (mach i)" "\<lambda>i. fst (mach' i)"] assms show ?thesis by simp
qed

lemma example_files:
  "mc_tcp4 example_machine = Some [Bytes (proc_text proc_head [listening_line, established_line])]"
  "mc_tcp6 example_machine = Some [Bytes (proc_text proc_head [established_line])]"
  "clean [Bytes (proc_text proc_head xs)]"
  "content [Bytes (proc_text proc_head xs)] = proc_text proc_head xs"
  "known_lines [established_line]"
  "length [listening_line, established_line] + length [established_line] < 2 ^ 64"
  using examples_ok(1) by (simp_all add: example_machine_def proc_text_def known_lines_def)

lemma example_machine_safe: "machine_safe example_machine"
proof -
  have "sysinfo_safe sample_sysinfo" by (simp add: sysinfo_safe_def sample_sysinfo_def)
  moreover have "short_file FMT_ULONG (mc_uptime example_machine)" "short_file MAX_BYTES (mc_bat_status example_machine)"
    "short_file MAX_BYTES (mc_bat_capacity example_machine)"
    by (simp_all add: short_file_def example_machine_def FMT_ULONG_def MAX_BYTES_def)
  moreover have "utmpx_safe (mc_utmpx example_machine)"
  proof -
    have "list_all utmpx_ok [login ''ann'', login ''bob'', login ''ann'']" by code_simp
    moreover have "users [login ''ann'', login ''bob'', login ''ann''] = [''ann'', ''bob'', ''ann'']"
      by (simp add: users_def login_def)
    ultimately show ?thesis
      by (simp add: utmpx_safe_def example_machine_def prefix_free_def card_insert_if)
  qed
  moreover have "mounts_safe stat_1000 (mc_mountinfo example_machine)"
  proof -
    have "mline_ok (mount_at ''/home'')" by code_simp
    moreover have "mline_text (mount_at ''/home'') \<noteq> []" by (simp add: mline_text_def)
    ultimately show ?thesis
      by (auto simp: mounts_safe_def example_machine_def stat_1000_def intro!: exI [of _ "[mount_at ''/home'']"])
  qed
  moreover have "sockets_safe (mc_tcp4 example_machine)" "sockets_safe (mc_tcp6 example_machine)"
  proof -
    have "sockets_safe (Some [Bytes (proc_text proc_head xs)])" if "known_lines xs" for xs
      using that example_files(3,4) [of xs] examples_ok(2) unfolding sockets_safe_def by blast
    then show "sockets_safe (mc_tcp4 example_machine)" "sockets_safe (mc_tcp6 example_machine)"
      using example_files(5) examples_ok(1) unfolding example_files(1,2) by blast+
  qed
  ultimately show ?thesis
    by (simp add: machine_safe_def print_answers_safe_def example_machine_def insertion_sort_sorts zeroed_zero_heap cstring_def [of "''.''"]
        cstring_def [of "''1''"])
qed


section \<open>Examples of runs\<close>

lemmas example_run =
  linux_tcp_run [where mach = "\<lambda>i. example_machine" and mach' = "\<lambda>i. example_machine", OF example_files(1,2,3,4) examples_ok(2,1) example_files(3,4) examples_ok(2) example_files(5,6)]



lemma example_args:
  "no_help [cstring ''tcp6.e'', cstring ''/'', cstring ''tcp'']"
  "list_all terminated [cstring ''tcp6.e'', cstring ''/'', cstring ''tcp'']" by (simp_all add: no_help_def)

lemma example_dec:
  "dec (count_list (map line_state [established_line]) 1) = ''1''"
  "dec (length [listening_line, established_line] + length [established_line]) = ''3''" by code_simp+

lemma example_main:
  "ustat_main (\<lambda>i. example_machine) (\<lambda>i. example_machine) [cstring ''tcp6.e'', cstring ''/'', cstring ''tcp''] =
    Some ([(1, ''1''), (1, ''/''), (1, ''3'')], 0)"
  using example_run example_dec
  by (auto simp: ustat_main_no_help [OF example_args] simp del: init_args.simps print_args.simps)

theorem main_success_witness:
  "\<exists>mods outs. length outs = 3 \<and> concat (map (written 1) outs) = ''1/3'' \<and>
    (\<exists>st r. call_print (mod_print (mods ! 39)) example_machine st 1 (mods ! 39) (cstring ''tcp'') 3 =
      Some (outs ! 2, r))"
proof -
  have sel: "selected modules ''tcp'' = 39" by code_simp
  let ?args = "[cstring ''tcp6.e'', cstring ''/'', cstring ''tcp'']"
  from main_success [OF example_main example_args] obtain mods st outs where
    o: "written 1 [(1, ''1''), (1, ''/''), (1, ''3'')] = concat (map (written 1) outs)" "length outs = length ?args"
    "\<forall>n < length ?args. let m = mods ! (selected modules (ctext (?args ! n)) mod nmodules) in
      \<exists>r. call_print (mod_print m) example_machine st STDOUT_FILENO m (?args ! n) (length (ctext (?args ! n))) =
        Some (outs ! n, r)" by blast
  from o(3) [rule_format, of 2] have
    "\<exists>r. call_print (mod_print (mods ! 39)) example_machine st 1 (mods ! 39) (cstring ''tcp'') 3 = Some (outs ! 2, r)"
    by (simp add: Let_def nmodules_def length_modules sel numeral_3_eq_3)
  with o(1,2) show ?thesis by (intro exI [of _ mods] exI [of _ outs]) auto
qed

theorem init_args_invariant_witness:
  "\<exists>mods st. init_args call_init (\<lambda>i. example_machine) 1 [cstring ''tcp6.e'', cstring ''/'', cstring ''tcp''] modules
      statics_initial = Some ([], Inr (mods, st, [27, 0, 39])) \<and> statics_ok st \<and> same_table modules mods"
proof -
  from example_run obtain mods st where i: "init_args call_init (\<lambda>i. example_machine) 1
      [cstring ''tcp6.e'', cstring ''/'', cstring ''tcp''] modules statics_initial =
      Some ([], Inr (mods, st, [27, 0, 39]))" by blast
  with init_args_invariant [OF i example_args(2)] show ?thesis by blast
qed

text \<open>Without the file of the IPv4 sockets, initialisation fails.\<close>

lemma example_failure:
  "ustat_main (\<lambda>i. example_machine\<lparr>mc_tcp4 := None\<rparr>) (\<lambda>i. example_machine) [cstring ''tcp''] =
    Some ([(2, error_cant_init_module), (2, ''tcp''), (2, [CHR 0x22]), (2, [LF])], 1)"
proof -
  have f: "find_module (cstring ''tcp'') modules 1 = Some 39" by code_simp
  have m: "modules ! 39 = entry ''tcp'' ''tcp total'' Tcp_init Ntcp_all_print" by (simp add: modules_def)
  have t: "take (Suc (Suc (Suc 0))) (cstring ''tcp'') = ''tcp''" "take (Suc 0) (cstring [CHR 0x22]) = [CHR 0x22]"
    by (simp_all add: cstring_def)
  have "no_help [cstring ''tcp'']" by (simp add: no_help_def)
  then show ?thesis
    using f by (simp add: ustat_main_no_help init_arg_def m length_modules tcp_init_def init_tcp_stats_def
      init_tcp_stats_via_proc_net_tcp_def statics_initial_def tcp_initial_def os_exit_def t)
qed


section \<open>main as a state machine\<close>

text \<open>
  C6. The state machine of \<open>main\<close> refines its description as two recursive functions: the program
  ends with some writes and an exit code exactly when the machine reaches the exit with them. In
  particular the machine is stuck or runs for ever exactly when the description is undefined.
\<close>

theorem main_refined:
  "ustat_main mach mach' args = Some (ws, code) \<longleftrightarrow>
    (\<exists>c. reachable call_init call_print mach mach' args c \<and> cf_pc c = Exited code \<and> cf_out c = ws)"
  unfolding ustat_main_def by (rule main_of_refined)





text \<open>
  C18. In every reachable configuration the table differs from the first one only in its flags, \<open>m\<close>
  holds the selected modules of the first arguments in their order, an index that leaves the inner
  loop is the one of the selected module, and nothing is on standard output before the second loop.
\<close>

theorem main_invariant:
  assumes "reachable call_init call_print mach mach' args c" and "list_all terminated args"
  shows "same_table modules (cf_mods c) \<and>
    cf_m c = map (\<lambda>arg. selected modules (ctext arg) mod nmodules) (take (length (cf_m c)) args) \<and>
    (cf_pc c = Chosen \<longrightarrow> cf_j c = selected modules (ctext (args ! (cf_i c - 1)))) \<and>
    (cf_pc c \<in> {Enter, Outer, Inner, Chosen} \<longrightarrow> written 1 (cf_out c) = [])"
  using ustat.reachable_ok [OF assms(1) statics_initial_ok assms(2)] by (auto simp: config_ok_def)

theorem main_invariant_witness:
  "\<exists>c. reachable call_init call_print (\<lambda>i. example_machine) (\<lambda>i. example_machine)
      [cstring ''tcp6.e'', cstring ''/'', cstring ''tcp''] c \<and>
    cf_out c = [(1, ''1''), (1, ''/''), (1, ''3'')] \<and> cf_pc c = Exited 0 \<and> same_table modules (cf_mods c)"
proof -
  obtain c where c: "reachable call_init call_print (\<lambda>i. example_machine) (\<lambda>i. example_machine)
      [cstring ''tcp6.e'', cstring ''/'', cstring ''tcp''] c"
    "cf_out c = [(1, ''1''), (1, ''/''), (1, ''3'')]" "cf_pc c = Exited 0"
    using example_main unfolding ustat_main_def main_of_refined by blast
  with main_invariant [OF c(1) example_args(2)] show ?thesis by blast
qed




end
